(* ===== verification/Prelude.thy ===== *)
theory Prelude
  imports Main "HOL-Library.Word" "HOL-Library.Signed_Division"
begin

text \<open>
  Shared ground of the development: the machine integers of the C sources, the byte view of
  memory that packets and packed structs have, the interface \<open>codec\<close> between a value and its
  bytes, the decimal printing of \<^verbatim>\<open>printf\<close>, and the named collections of facts that the
  component theories feed and use.

  Memory is a list of bytes. The programs are built for little-endian hosts (x86-64), so a
  multi-byte integer is stored low byte first; the network byte order of a header field is the
  reversed order, which is what \<^verbatim>\<open>htons\<close> produces.
\<close>

unbundle bit_operations_syntax

named_theorems mem_simps \<open>reads and writes at constant offsets of a buffer\<close>
named_theorems layout_defs \<open>definitions that spell out the byte layout of headers\<close>
named_theorems step_intros \<open>facts that advance a state machine\<close>

type_synonym u8 = "8 word"
type_synonym u16 = "16 word"
type_synonym u32 = "32 word"
type_synonym u64 = "64 word"
type_synonym bytes = "u8 list"

section \<open>Definitions\<close>

subsection \<open>Integers and bytes\<close>

fun bytes_of_word :: "nat \<Rightarrow> 'a::len word \<Rightarrow> bytes" where
  "bytes_of_word 0 w = []"
| "bytes_of_word (Suc n) w = ucast w # bytes_of_word n (drop_bit 8 w)"

fun word_of_bytes :: "bytes \<Rightarrow> 'a::len word" where
  "word_of_bytes [] = 0"
| "word_of_bytes (b # bs) = ucast b OR push_bit 8 (word_of_bytes bs)"

definition htons :: "u16 \<Rightarrow> u16" where
  "htons w = word_of_bytes (rev (bytes_of_word 2 w))"

definition fits_i64 :: "int \<Rightarrow> bool" where
  "fits_i64 x \<longleftrightarrow> - (2 ^ 63) \<le> x \<and> x < 2 ^ 63"

subsection \<open>Buffers\<close>

definition mread :: "bytes \<Rightarrow> nat \<Rightarrow> nat \<Rightarrow> bytes" where
  "mread buf off n = take n (drop off buf)"

definition mwrite :: "bytes \<Rightarrow> nat \<Rightarrow> bytes \<Rightarrow> bytes" where
  "mwrite buf off bs = take off buf @ bs @ drop (off + length bs) buf"

subsection \<open>Decimal numbers, as \<^verbatim>\<open>%lu\<close> and \<^verbatim>\<open>%llu\<close> print them\<close>

definition digit_char :: "nat \<Rightarrow> char" where
  "digit_char d = char_of (48 + d)"

definition char_digit :: "char \<Rightarrow> nat" where
  "char_digit c = of_char c - 48"

definition is_digit :: "char \<Rightarrow> bool" where
  "is_digit c \<longleftrightarrow> 48 \<le> (of_char c :: nat) \<and> (of_char c :: nat) \<le> 57"

fun show_nat :: "nat \<Rightarrow> string" where
  "show_nat n = (if n < 10 then [digit_char n] else show_nat (n div 10) @ [digit_char (n mod 10)])"

definition read_nat :: "string \<Rightarrow> nat" where
  "read_nat s = foldl (\<lambda>a c. 10 * a + char_digit c) 0 s"

definition is_blank :: "char \<Rightarrow> bool" where
  "is_blank c \<longleftrightarrow> c = CHR '' '' \<or> (9 \<le> (of_char c :: nat) \<and> (of_char c :: nat) \<le> 13)"

definition show_u64 :: "u64 \<Rightarrow> string" where
  "show_u64 w = show_nat (unat w)"

text \<open>The words of a line, separated by single blanks: how a reader takes a printed line apart.\<close>

fun split_on :: "char \<Rightarrow> string \<Rightarrow> string list" where
  "split_on c [] = [[]]"
| "split_on c (x # xs) =
     (if x = c then [] # split_on c xs
      else (case split_on c xs of [] \<Rightarrow> [[x]] | w # ws \<Rightarrow> (x # w) # ws))"

fun join_with :: "char \<Rightarrow> string list \<Rightarrow> string" where
  "join_with c [] = []"
| "join_with c [w] = w"
| "join_with c (w # v # ws) = w @ c # join_with c (v # ws)"

section \<open>Integers and bytes\<close>

lemma length_bytes_of_word [simp]: "length (bytes_of_word n w) = n"
  by (induction n arbitrary: w) simp_all

lemma bytes_of_word_eq_Nil [simp]: "bytes_of_word n w = [] \<longleftrightarrow> n = 0"
  by (cases n) simp_all

lemma bit_word_of_bytes:
  "bit (word_of_bytes bs :: 'a::len word) n \<longleftrightarrow>
     n < LENGTH('a) \<and> n < 8 * length bs \<and> bit (bs ! (n div 8)) (n mod 8)"
proof (induction bs arbitrary: n)
  case Nil
  then show ?case by simp
next
  case (Cons b bs)
  show ?case
  proof (cases "n < 8")
    case True
    then show ?thesis by (auto simp: bit_simps)
  next
    case False
    then have "n div 8 = Suc ((n - 8) div 8)" and "n mod 8 = (n - 8) mod 8"
      by (auto simp: le_div_geq le_mod_geq)
    moreover from False have "\<not> bit b n" by (auto simp: bit_simps dest: bit_imp_le_length)
    ultimately show ?thesis using False by (auto simp: bit_simps Cons.IH dest: bit_imp_le_length)
  qed
qed

lemma nth_bytes_of_word:
  "i < n \<Longrightarrow> bytes_of_word n w ! i = ucast (drop_bit (8 * i) w)"
proof (induction n arbitrary: i w)
  case 0
  then show ?case by simp
next
  case (Suc n)
  then show ?case by (cases i) (simp_all add: drop_bit_drop_bit add.commute)
qed

lemma word_of_bytes_of_word: "word_of_bytes (bytes_of_word n w) = take_bit (8 * n) w"
  by (rule bit_word_eqI) (auto simp: bit_word_of_bytes nth_bytes_of_word bit_simps)

lemma word_of_bytes_of_word_full [simp]:
  "LENGTH('a) \<le> 8 * n \<Longrightarrow> word_of_bytes (bytes_of_word n (w :: 'a::len word)) = w"
  by (rule bit_word_eqI) (auto simp: bit_word_of_bytes nth_bytes_of_word bit_simps)

lemma bytes_of_word_of_bytes:
  assumes "8 * length bs \<le> LENGTH('a::len)"
  shows "bytes_of_word (length bs) (word_of_bytes bs :: 'a word) = bs"
proof (rule nth_equalityI)
  fix i assume "i < length (bytes_of_word (length bs) (word_of_bytes bs :: 'a word))"
  then have i: "i < length bs" by simp
  show "bytes_of_word (length bs) (word_of_bytes bs :: 'a word) ! i = bs ! i"
  proof (rule bit_word_eqI)
    fix n assume n: "n < LENGTH(8)"
    with i assms have "8 * i + n < LENGTH('a)" and "8 * i + n < 8 * length bs" by auto
    then show "bit (bytes_of_word (length bs) (word_of_bytes bs :: 'a word) ! i) n = bit (bs ! i) n"
      using i n by (simp add: nth_bytes_of_word bit_simps bit_word_of_bytes)
  qed
qed simp

lemma htons_htons [simp]: "htons (htons w) = w"
proof -
  have "bytes_of_word 2 (htons w) = rev (bytes_of_word 2 w)"
    using bytes_of_word_of_bytes [where 'a = 16 and bs = "rev (bytes_of_word 2 w)"]
    by (simp add: htons_def)
  then show ?thesis by (simp add: htons_def)
qed

section \<open>Buffers\<close>

lemma length_mread [simp]: "length (mread buf off n) = min n (length buf - off)"
  by (simp add: mread_def)

lemma length_mwrite [simp]:
  "off + length bs \<le> length buf \<Longrightarrow> length (mwrite buf off bs) = length buf"
  by (simp add: mwrite_def)

lemma mread_mwrite_same [mem_simps]:
  "off + n \<le> length buf \<Longrightarrow> n = length bs \<Longrightarrow> mread (mwrite buf off bs) off n = bs"
  by (simp add: mread_def mwrite_def)

lemma mread_mwrite_before [mem_simps]:
  "off' + n \<le> off \<Longrightarrow> off + length bs \<le> length buf \<Longrightarrow>
   mread (mwrite buf off bs) off' n = mread buf off' n"
  by (auto simp: mread_def mwrite_def drop_take min_def)

lemma mread_mwrite_after [mem_simps]:
  "off + length bs \<le> off' \<Longrightarrow> off + length bs \<le> length buf \<Longrightarrow>
   mread (mwrite buf off bs) off' n = mread buf off' n"
  by (simp add: mread_def mwrite_def)

lemma mread_mwrite_within [mem_simps]:
  "off \<le> off' \<Longrightarrow> off' + n \<le> off + length bs \<Longrightarrow> off + length bs \<le> length buf \<Longrightarrow>
   mread (mwrite buf off bs) off' n = mread bs (off' - off) n"
  by (simp add: mread_def mwrite_def)

lemma mwrite_mread_id:
  "off + n \<le> length buf \<Longrightarrow> mwrite buf off (mread buf off n) = buf"
  by (simp add: mread_def mwrite_def) (metis append_take_drop_id drop_drop add.commute)

lemma mread_mread:
  "off + n \<le> m \<Longrightarrow> mread (mread buf base m) off n = mread buf (base + off) n"
  by (simp add: mread_def drop_take add.commute)

lemma mwrite_mwrite_same:
  "off + length bs \<le> length buf \<Longrightarrow> length bs' = length bs \<Longrightarrow>
   mwrite (mwrite buf off bs) off bs' = mwrite buf off bs'"
  by (simp add: mwrite_def)

section \<open>Values with a fixed byte representation\<close>

text \<open>
  What every fixed-size C object promises: it is written as \<open>sz\<close> bytes, and reading them back
  gives the object. The lemmas about storing the object in a buffer are proved here once.
\<close>

locale codec =
  fixes enc :: "'a \<Rightarrow> bytes" and dec :: "bytes \<Rightarrow> 'a" and sz :: nat
  assumes length_enc: "length (enc x) = sz"
    and dec_enc: "dec (enc x) = x"
    and enc_dec: "length bs = sz \<Longrightarrow> enc (dec bs) = bs"
begin

lemma enc_inject: "enc x = enc y \<longleftrightarrow> x = y"
  by (metis dec_enc)

lemma load_store: "off + sz \<le> length buf \<Longrightarrow> dec (mread (mwrite buf off (enc x)) off sz) = x"
  by (simp add: mread_mwrite_same length_enc dec_enc)

lemma store_load: "off + sz \<le> length buf \<Longrightarrow> mwrite buf off (enc (dec (mread buf off sz))) = buf"
  by (simp add: enc_dec mwrite_mread_id)

lemma length_store: "off + sz \<le> length buf \<Longrightarrow> length (mwrite buf off (enc x)) = length buf"
  by (simp add: length_enc)

lemma store_store:
  "off + sz \<le> length buf \<Longrightarrow> mwrite (mwrite buf off (enc x)) off (enc y) = mwrite buf off (enc y)"
  by (simp add: mwrite_mwrite_same length_enc)

end

lemma bytes_of_word_of_bytes_len:
  "length bs = n \<Longrightarrow> 8 * n \<le> LENGTH('a::len) \<Longrightarrow> bytes_of_word n (word_of_bytes bs :: 'a word) = bs"
  using bytes_of_word_of_bytes by blast

interpretation c16: codec "bytes_of_word 2 :: u16 \<Rightarrow> bytes" word_of_bytes 2
  by unfold_locales (simp_all add: bytes_of_word_of_bytes_len)

interpretation c32: codec "bytes_of_word 4 :: u32 \<Rightarrow> bytes" word_of_bytes 4
  by unfold_locales (simp_all add: bytes_of_word_of_bytes_len)

interpretation c64: codec "bytes_of_word 8 :: u64 \<Rightarrow> bytes" word_of_bytes 8
  by unfold_locales (simp_all add: bytes_of_word_of_bytes_len)

section \<open>Decimal numbers\<close>

declare show_nat.simps [simp del]

lemma of_char_digit_char: "d < 10 \<Longrightarrow> of_char (digit_char d) = (48 + d :: nat)"
  by (simp add: digit_char_def)

lemma char_digit_digit_char [simp]: "d < 10 \<Longrightarrow> char_digit (digit_char d) = d"
  by (simp add: char_digit_def of_char_digit_char)

lemma is_digit_digit_char [simp]: "d < 10 \<Longrightarrow> is_digit (digit_char d)"
  by (simp add: is_digit_def of_char_digit_char)

lemma not_is_digit_sep [simp]: "\<not> is_digit CHR '' ''" "\<not> is_digit CHR 0x0A" "\<not> is_digit CHR '':''"
  by (simp_all add: is_digit_def)

lemma read_nat_snoc: "read_nat (s @ [c]) = 10 * read_nat s + char_digit c"
  by (simp add: read_nat_def)

lemma read_nat_show_nat [simp]: "read_nat (show_nat n) = n"
proof (induction n rule: show_nat.induct)
  case (1 n)
  show ?case
  proof (cases "n < 10")
    case True
    then show ?thesis by (simp add: show_nat.simps [of n] read_nat_def)
  next
    case False
    with 1 show ?thesis by (simp add: show_nat.simps [of n] read_nat_snoc)
  qed
qed

lemma show_nat_digits: "c \<in> set (show_nat n) \<Longrightarrow> is_digit c"
proof (induction n rule: show_nat.induct)
  case (1 n)
  then show ?case by (cases "n < 10") (auto simp: show_nat.simps [of n])
qed

lemma show_nat_sep [simp]: "\<not> is_digit c \<Longrightarrow> c \<notin> set (show_nat n)"
  using show_nat_digits by blast

lemma show_nat_inject: "show_nat m = show_nat n \<longleftrightarrow> m = n"
  by (metis read_nat_show_nat)

lemma split_on_not_Nil [simp]: "split_on c xs \<noteq> []"
  by (induction xs) (auto split: list.splits)

lemma split_on_word: "c \<notin> set w \<Longrightarrow> split_on c w = [w]"
  by (induction w) auto

lemma split_on_append: "c \<notin> set w \<Longrightarrow> split_on c (w @ c # xs) = w # split_on c xs"
  by (induction w) auto

lemma split_on_join_with:
  "ws \<noteq> [] \<Longrightarrow> \<forall>w\<in>set ws. c \<notin> set w \<Longrightarrow> split_on c (join_with c ws) = ws"
  by (induction c ws rule: join_with.induct) (auto simp: split_on_word split_on_append)

section \<open>Main functions\<close>

text \<open>
  A \<^verbatim>\<open>main\<close> function either exits or starts the loop of its variant. The result \<open>Run\<close> carries the state the loop starts in, \<open>Exit\<close> the
  value \<^verbatim>\<open>main\<close> returns without having run it, \<open>Undefined\<close> stands for undefined behaviour. The arguments are those
  after the program's name.
\<close>

datatype 'a main_out = Exit int | Run 'a | Undefined

definition EXIT_SUCCESS :: int where "EXIT_SUCCESS = 0"
definition EXIT_FAILURE :: int where "EXIT_FAILURE = 1"

lemma exit_codes [simp]: "EXIT_SUCCESS = 0" "EXIT_FAILURE = 1"
  by (simp_all add: EXIT_SUCCESS_def EXIT_FAILURE_def)

end
