(* ===== verification/Bitset.thy ===== *)
theory Bitset
  imports Prelude
begin

text \<open>
  The bitset of \<^verbatim>\<open>common/bitset.h\<close>: macros over an array of \<^verbatim>\<open>char\<close>. A \<^verbatim>\<open>char\<close> operand is
  promoted to a 32-bit \<^verbatim>\<open>int\<close> (sign extended, \<^verbatim>\<open>char\<close> being signed on the target) before the
  bitwise operation and truncated when it is stored back; both conversions are written out.
  Positions are the C preconditions' \<open>[0, number of bits)\<close>; an array access outside the array is
  undefined in C, so every law below asks for a position within the array.

  The interface \<open>bit_set\<close> says what a client of the macros relies on: the array stands for a set
  of positions, and the three operations are insertion, removal and membership.
\<close>

section \<open>Definitions\<close>

definition BITMASK :: "nat \<Rightarrow> u32" where
  "BITMASK b = push_bit (b mod 8) 1"

definition BITSLOT :: "nat \<Rightarrow> nat" where
  "BITSLOT b = b div 8"

definition BITSET_SLOTS :: "nat \<Rightarrow> nat" where
  "BITSET_SLOTS nb = (nb + 8 - 1) div 8"

definition BITSET_INIT :: "bytes \<Rightarrow> nat \<Rightarrow> bytes" where
  "BITSET_INIT a nb = mwrite a 0 (replicate (BITSET_SLOTS nb) 0)"

definition BITSET_SET :: "bytes \<Rightarrow> nat \<Rightarrow> bytes" where
  "BITSET_SET a b = a[BITSLOT b := ucast ((scast (a ! BITSLOT b) :: u32) OR BITMASK b)]"

definition BITSET_CLEAR :: "bytes \<Rightarrow> nat \<Rightarrow> bytes" where
  "BITSET_CLEAR a b = a[BITSLOT b := ucast ((scast (a ! BITSLOT b) :: u32) AND NOT (BITMASK b))]"

definition BITSET_TEST :: "bytes \<Rightarrow> nat \<Rightarrow> bool" where
  "BITSET_TEST a b \<longleftrightarrow> (scast (a ! BITSLOT b) :: u32) AND BITMASK b \<noteq> 0"

text \<open>The set of positions an array of \<^verbatim>\<open>char\<close> stands for.\<close>

definition bits :: "bytes \<Rightarrow> nat set" where
  "bits a = {b. b < 8 * length a \<and> bit (a ! (b div 8)) (b mod 8)}"

definition bitset_wf :: "nat \<Rightarrow> bytes \<Rightarrow> bool" where
  "bitset_wf nb a \<longleftrightarrow> length a = BITSET_SLOTS nb"

section \<open>The interface\<close>

locale bit_set =
  fixes cap :: nat
    and bset :: "'s \<Rightarrow> nat \<Rightarrow> 's" and bclear :: "'s \<Rightarrow> nat \<Rightarrow> 's" and btest :: "'s \<Rightarrow> nat \<Rightarrow> bool"
    and wf :: "'s \<Rightarrow> bool" and members :: "'s \<Rightarrow> nat set"
  assumes test: "wf s \<Longrightarrow> b < cap \<Longrightarrow> btest s b \<longleftrightarrow> b \<in> members s"
    and members_set: "wf s \<Longrightarrow> b < cap \<Longrightarrow> members (bset s b) = insert b (members s)"
    and members_clear: "wf s \<Longrightarrow> b < cap \<Longrightarrow> members (bclear s b) = members s - {b}"
    and wf_set: "wf s \<Longrightarrow> b < cap \<Longrightarrow> wf (bset s b)"
    and wf_clear: "wf s \<Longrightarrow> b < cap \<Longrightarrow> wf (bclear s b)"
begin

lemma test_set: "wf s \<Longrightarrow> b < cap \<Longrightarrow> c < cap \<Longrightarrow> btest (bset s b) c \<longleftrightarrow> c = b \<or> btest s c"
  by (simp add: test members_set wf_set)

lemma test_clear: "wf s \<Longrightarrow> b < cap \<Longrightarrow> c < cap \<Longrightarrow> btest (bclear s b) c \<longleftrightarrow> c \<noteq> b \<and> btest s c"
  by (auto simp: test members_clear wf_clear)

lemma set_commute_tests:
  "wf s \<Longrightarrow> a < cap \<Longrightarrow> b < cap \<Longrightarrow> c < cap \<Longrightarrow> btest (bset (bset s a) b) c = btest (bset (bset s b) a) c"
  by (auto simp: test_set wf_set)

lemma wf_fold_set: "wf s \<Longrightarrow> \<forall>b\<in>set bs. b < cap \<Longrightarrow> wf (foldl bset s bs)"
  by (induction bs arbitrary: s) (simp_all add: wf_set)

lemma members_fold_set:
  "wf s \<Longrightarrow> \<forall>b\<in>set bs. b < cap \<Longrightarrow> members (foldl bset s bs) = set bs \<union> members s"
  by (induction bs arbitrary: s) (auto simp: members_set wf_set)

lemma members_fold_clear:
  "wf s \<Longrightarrow> \<forall>b\<in>set bs. b < cap \<Longrightarrow> members (foldl bclear s bs) = members s - set bs"
  by (induction bs arbitrary: s) (auto simp: members_clear wf_clear)

end

section \<open>The macros implement it\<close>

lemma slot_in_range: "bitset_wf nb a \<Longrightarrow> b < nb \<Longrightarrow> BITSLOT b < length a"
  by (auto simp: bitset_wf_def BITSET_SLOTS_def BITSLOT_def)

lemma div_mod_eq_iff: "c div 8 = b div 8 \<and> c mod 8 = b mod 8 \<longleftrightarrow> c = (b::nat)"
  by (metis div_mult_mod_eq)

lemma bit_scast_low: "n < 8 \<Longrightarrow> bit (scast (x :: u8) :: u32) n = bit x n"
  by (cases "n = 7") (auto simp: bit_simps min_def)

lemma bit_BITMASK: "bit (BITMASK b) n \<longleftrightarrow> n = b mod 8"
proof -
  have "b mod 8 < 32" by (rule less_trans [of _ 8]) simp_all
  then show ?thesis by (auto simp: BITMASK_def bit_simps)
qed

lemma bit_or_mask:
  "n < 8 \<Longrightarrow> bit (ucast ((scast (x :: u8) :: u32) OR BITMASK b) :: u8) n \<longleftrightarrow> bit x n \<or> n = b mod 8"
  by (auto simp: bit_ucast_iff bit_or_iff bit_scast_low bit_BITMASK)

lemma bit_and_not_mask:
  "n < 8 \<Longrightarrow> bit (ucast ((scast (x :: u8) :: u32) AND NOT (BITMASK b)) :: u8) n \<longleftrightarrow> bit x n \<and> n \<noteq> b mod 8"
  by (auto simp: bit_ucast_iff bit_and_iff bit_not_iff bit_scast_low bit_BITMASK)

lemma and_mask_nonzero:
  "(scast (x :: u8) :: u32) AND BITMASK b \<noteq> 0 \<longleftrightarrow> bit x (b mod 8)"
proof -
  have "(scast x :: u32) AND BITMASK b \<noteq> 0 \<longleftrightarrow> (\<exists>n. bit ((scast x :: u32) AND BITMASK b) n)"
    by (metis bit_0_eq bit_eqI bot_apply bot_bool_def)
  also have "\<dots> \<longleftrightarrow> bit x (b mod 8)"
    by (simp add: bit_and_iff bit_BITMASK bit_scast_low)
  finally show ?thesis .
qed

lemma in_bits_iff: "BITSLOT b < length a \<Longrightarrow> b \<in> bits a \<longleftrightarrow> bit (a ! (b div 8)) (b mod 8)"
  by (auto simp: bits_def BITSLOT_def)

lemma bits_update:
  assumes "BITSLOT b < length a"
    and "\<And>n. n < 8 \<Longrightarrow> bit x n \<longleftrightarrow> (if n = b mod 8 then P else bit (a ! BITSLOT b) n)"
  shows "bits (a[BITSLOT b := x]) = (if P then insert b (bits a) else bits a - {b})"
proof (rule set_eqI)
  fix c
  show "c \<in> bits (a[BITSLOT b := x]) \<longleftrightarrow> c \<in> (if P then insert b (bits a) else bits a - {b})"
  proof (cases "c div 8 = b div 8")
    case True
    then have "c = b \<longleftrightarrow> c mod 8 = b mod 8" using div_mod_eq_iff by metis
    with True assms show ?thesis by (auto simp: bits_def BITSLOT_def)
  next
    case False
    then have "c \<noteq> b" by auto
    with False show ?thesis by (auto simp: bits_def BITSLOT_def nth_list_update)
  qed
qed

lemma bits_SET: "BITSLOT b < length a \<Longrightarrow> bits (BITSET_SET a b) = insert b (bits a)"
  unfolding BITSET_SET_def by (subst bits_update [where P = True]) (auto simp: bit_or_mask)

lemma bits_CLEAR: "BITSLOT b < length a \<Longrightarrow> bits (BITSET_CLEAR a b) = bits a - {b}"
  unfolding BITSET_CLEAR_def by (subst bits_update [where P = False]) (auto simp: bit_and_not_mask)

lemma TEST_bits: "BITSLOT b < length a \<Longrightarrow> BITSET_TEST a b \<longleftrightarrow> b \<in> bits a"
  by (simp add: BITSET_TEST_def and_mask_nonzero in_bits_iff) (simp add: BITSLOT_def)

interpretation bs: bit_set nb BITSET_SET BITSET_CLEAR BITSET_TEST "bitset_wf nb" bits for nb
proof unfold_locales
  fix s b assume s: "bitset_wf nb s" "b < nb"
  note slot = slot_in_range [OF s]
  show "BITSET_TEST s b \<longleftrightarrow> b \<in> bits s" by (rule TEST_bits [OF slot])
  show "bits (BITSET_SET s b) = insert b (bits s)" by (rule bits_SET [OF slot])
  show "bits (BITSET_CLEAR s b) = bits s - {b}" by (rule bits_CLEAR [OF slot])
  show "bitset_wf nb (BITSET_SET s b)" and "bitset_wf nb (BITSET_CLEAR s b)"
    using s by (simp_all add: bitset_wf_def BITSET_SET_def BITSET_CLEAR_def)
qed

lemma bitset_wf_INIT:
  "bitset_wf nb a \<Longrightarrow> bitset_wf nb (BITSET_INIT a nb)"
  by (simp add: bitset_wf_def BITSET_INIT_def)

lemma bits_INIT: "bitset_wf nb a \<Longrightarrow> bits (BITSET_INIT a nb) = {}"
  by (auto simp: bits_def BITSET_INIT_def mwrite_def bitset_wf_def)

section \<open>Properties\<close>

text \<open>C37: the bitset is a faithful set of positions. On an array of the declared size, after
  initialisation and any sequence of sets (\<open>bs\<close>) and then clears (\<open>cs\<close>) of positions in range, the
  test of any position answers exactly whether it was set and not cleared.\<close>

theorem bitset_is_set:
  assumes "bitset_wf nb a" and "\<forall>b\<in>set bs. b < nb" and "\<forall>c\<in>set cs. c < nb" and "x < nb"
  shows "BITSET_TEST (foldl BITSET_CLEAR (foldl BITSET_SET (BITSET_INIT a nb) bs) cs) x
           \<longleftrightarrow> x \<in> set bs \<and> x \<notin> set cs"
proof -
  let ?i = "BITSET_INIT a nb"
  have i: "bitset_wf nb ?i" using assms(1) by (rule bitset_wf_INIT)
  have s: "bitset_wf nb (foldl BITSET_SET ?i bs)" using i assms(2) by (rule bs.wf_fold_set)
  have c: "bitset_wf nb (foldl BITSET_CLEAR (foldl BITSET_SET ?i bs) cs)"
    using s assms(3) by (induction cs rule: rev_induct) (auto intro: bs.wf_clear)
  show ?thesis
    using bs.test [OF c assms(4)] bs.members_fold_clear [OF s assms(3)]
      bs.members_fold_set [OF i assms(2)] bits_INIT [OF assms(1)] by simp
qed

theorem bitset_is_set_witness:
  "BITSET_TEST (foldl BITSET_CLEAR (foldl BITSET_SET (BITSET_INIT (replicate 16 255) 128) [7, 127, 3]) [3]) 127
   \<and> \<not> BITSET_TEST (foldl BITSET_CLEAR (foldl BITSET_SET (BITSET_INIT (replicate 16 255) 128) [7, 127, 3]) [3]) 3"
proof -
  have wf: "bitset_wf 128 (replicate 16 (255 :: u8))" by (simp add: bitset_wf_def BITSET_SLOTS_def)
  show ?thesis
    using bitset_is_set [OF wf, of "[7, 127, 3]" "[3]" 127] bitset_is_set [OF wf, of "[7, 127, 3]" "[3]" 3]
    by simp
qed

end
