(* ===== verification/Hex_Dump.thy ===== *)
theory Hex_Dump
  imports Prelude
begin

text \<open>
  The debugging aid \<^verbatim>\<open>hex_dump\<close> of \<^verbatim>\<open>common/utils.c\<close>. The code prints byte by byte and keeps the characters of the current row in a buffer
  of 17 bytes that is never cleared between the rows; the reference prints row by row.
\<close>

section \<open>Definitions\<close>

subsection \<open>The code\<close>

text \<open>\<^verbatim>\<open>%02X\<close>, and \<^verbatim>\<open>%s\<close> of a character array.\<close>

definition hex_upper :: "nat \<Rightarrow> char" where
  "hex_upper n = (if n < 10 then char_of (48 + n) else char_of (55 + n))"

definition hex2 :: "u8 \<Rightarrow> string" where
  "hex2 b = [hex_upper (unat b div 16), hex_upper (unat b mod 16)]"

definition c_str :: "string \<Rightarrow> string" where
  "c_str s = takeWhile (\<lambda>c. c \<noteq> CHR 0x00) s"

definition hex_ascii :: "u8 \<Rightarrow> char" where
  "hex_ascii b = (if 32 \<le> b \<and> b \<le> 126 then char_of (unat b) else CHR ''.'')"

text \<open>The state of the loop: what was printed, and the array \<^verbatim>\<open>ascii\<close>.\<close>

definition hex_dump_step :: "bytes \<Rightarrow> nat \<Rightarrow> nat \<Rightarrow> string \<times> string \<Rightarrow> string \<times> string" where
  "hex_dump_step data n i s =
     (let out = fst s @ hex2 (data ! i) @ '' '';
          ascii = (snd s)[i mod 16 := hex_ascii (data ! i)] in
      if (i + 1) mod 8 = 0 \<or> i + 1 = n then
        (let out = out @ '' '' in
         if (i + 1) mod 16 = 0 then (out @ ''|  '' @ c_str ascii @ '' '' @ [CHR 0x0A], ascii)
         else if i + 1 = n then
           (let ascii = ascii[(i + 1) mod 16 := CHR 0x00];
                out = out @ (if (i + 1) mod 16 \<le> 8 then '' '' else '''');
                out = out @ concat (map (\<lambda>j. ''   '') [(i + 1) mod 16..<16]) in
            (out @ ''|  '' @ c_str ascii @ '' '' @ [CHR 0x0A], ascii))
         else (out, ascii))
      else (out, ascii))"

definition hex_dump :: "string \<Rightarrow> bytes \<Rightarrow> nat \<Rightarrow> string" where
  "hex_dump junk data n = fst (fold (hex_dump_step data n) [0..<n] ('''', junk[16 := CHR 0x00]))"

subsection \<open>The reference\<close>

fun rows :: "nat \<Rightarrow> 'a list \<Rightarrow> 'a list list" where
  "rows n xs = (if n = 0 \<or> xs = [] then [] else take n xs # rows n (drop n xs))"

declare rows.simps [simp del]

definition hexes :: "bytes \<Rightarrow> string" where
  "hexes bs = concat (map (\<lambda>b. hex2 b @ '' '') bs)"

definition pad :: "nat \<Rightarrow> string \<Rightarrow> string" where
  "pad n s = s @ replicate (n - length s) CHR '' ''"

text \<open>A row: two columns of eight bytes, each filled up with blanks, and the characters.\<close>

definition hex_row :: "bytes \<Rightarrow> string" where
  "hex_row bs = pad 24 (hexes (take 8 bs)) @ '' '' @ pad 24 (hexes (drop 8 bs)) @ '' '' @ ''|  '' @ map hex_ascii bs @ '' '' @ [CHR 0x0A]"

section \<open>Lemmas\<close>

lemma hexes_simps [simp]: "hexes [] = ''''" "hexes (b # bs) = hex2 b @ CHR '' '' # hexes bs" "hexes (as @ bs) = hexes as @ hexes bs"
  by (simp_all add: hexes_def)

lemma length_hexes [simp]: "length (hexes bs) = 3 * length bs"
  by (induction bs) (simp_all add: hex2_def)

lemma hex_ascii_not_null: "hex_ascii b \<noteq> CHR 0x00"
proof (cases "32 \<le> b \<and> b \<le> 126")
  case True
  then have "32 \<le> unat b" "unat b \<le> 126" by (simp_all add: word_le_nat_alt)
  then have "of_char (char_of (unat b) :: char) = unat b" by simp
  with \<open>32 \<le> unat b\<close> have "of_char (char_of (unat b) :: char) \<noteq> (0 :: nat)" by simp
  then have "(char_of (unat b) :: char) \<noteq> CHR 0x00" by (intro notI) (simp only: of_char_Char, simp)
  with True show ?thesis by (simp add: hex_ascii_def)
qed (auto simp: hex_ascii_def)

lemma c_str_row:
  assumes "take n asc = map hex_ascii bs" and "n < length asc" and "asc ! n = CHR 0x00"
  shows "c_str asc = map hex_ascii bs"
proof -
  have "asc = map hex_ascii bs @ CHR 0x00 # drop (Suc n) asc" using assms by (metis id_take_nth_drop)
  moreover have "c_str (map hex_ascii bs @ CHR 0x00 # l) = map hex_ascii bs" for l
    using hex_ascii_not_null by (auto simp: c_str_def takeWhile_append)
  ultimately show ?thesis by metis
qed

text \<open>What is printed of a row that is not complete, and the filler of the last row.\<close>

definition row_part :: "bytes \<Rightarrow> string" where
  "row_part bs = hexes (take 8 bs) @ (if 8 \<le> length bs then '' '' else '''') @ hexes (drop 8 bs)"

lemma row_part_snoc:
  "row_part (bs @ [b]) = row_part bs @ hex2 b @ '' '' @ (if length bs = 7 then '' '' else '''')"
  by (cases "length bs" "8 :: nat" rule: linorder_cases) (auto simp: row_part_def)

lemma blanks: "concat (map (\<lambda>j. ''   '') [k..<n]) = replicate (3 * (n - k)) CHR '' ''"
proof (induction "n - k" arbitrary: k)
  case (Suc m)
  then have "[k..<n] = k # [Suc k..<n]" "n - k = Suc (n - Suc k)" by (simp_all add: upt_conv_Cons)
  with Suc show ?case by (simp add: numeral_3_eq_3)
qed simp

lemma row_full: "length bs = 16 \<Longrightarrow> row_part bs @ '' '' = pad 24 (hexes (take 8 bs)) @ '' '' @ pad 24 (hexes (drop 8 bs)) @ '' ''"
  by (simp add: row_part_def pad_def)

lemma blank_eq: "set as \<subseteq> {x} \<Longrightarrow> set bs \<subseteq> {x} \<Longrightarrow> length as = length bs \<Longrightarrow> as = bs"
  by (metis replicate_eqI subsetD singletonD)

lemma row_last:
  assumes "0 < length bs" and "length bs < 16"
  shows "row_part bs @ (if length bs = 8 then '''' else '' '') @ (if length bs \<le> 8 then '' '' else '''')
      @ replicate (3 * (16 - length bs)) CHR '' ''
    = pad 24 (hexes (take 8 bs)) @ '' '' @ pad 24 (hexes (drop 8 bs)) @ '' ''"
proof -
  consider "length bs < 8" | "length bs = 8" | "8 < length bs" by linarith
  then show ?thesis
  proof cases
    case 1
    have "'' '' @ '' '' @ replicate (3 * (16 - length bs)) CHR '' '' = replicate (24 - 3 * length bs) CHR '' '' @ '' '' @ replicate 24 CHR '' '' @ '' ''"
      by (rule blank_eq [of _ "CHR '' ''"]) (use 1 in auto)
    with 1 show ?thesis by (simp add: row_part_def pad_def del: replicate.simps)
  next
    case 2
    have "'' '' @ replicate 24 CHR '' '' = replicate 24 CHR '' '' @ '' ''" by (rule blank_eq [of _ "CHR '' ''"]) auto
    with 2 show ?thesis by (simp add: row_part_def pad_def del: replicate.simps)
  next
    case 3
    have "'' '' @ replicate (3 * (16 - length bs)) CHR '' '' = replicate (24 - 3 * (length bs - 8)) CHR '' '' @ '' ''"
      by (rule blank_eq [of _ "CHR '' ''"]) (use 3 assms in auto)
    with 3 show ?thesis by (simp add: row_part_def pad_def del: replicate.simps)
  qed
qed

lemma mod_16:
  assumes "m mod 16 = 0" and "k < 16"
  shows "(m + k) mod 16 = k" and "Suc (m + k) mod 16 = Suc k mod 16" and "Suc (m + k) mod 8 = Suc k mod (8 :: nat)"
proof -
  from assms(1) obtain q where m: "m = 16 * q" by auto
  have m8: "m = 8 * (2 * q)" by (simp add: m)
  show "(m + k) mod 16 = k" using assms(2) by (simp add: m)
  have "(Suc k + 16 * q) mod 16 = Suc k mod 16" "(Suc k + 8 * (2 * q)) mod 8 = Suc k mod 8" by (rule mod_mult_self2)+
  then show "Suc (m + k) mod 16 = Suc k mod 16" "Suc (m + k) mod 8 = Suc k mod 8" by (simp_all add: m m8 add.commute)
qed

lemma mod_8_eq_0: "k < 15 \<Longrightarrow> Suc k mod 8 = 0 \<longleftrightarrow> k = 7"
  by presburger

lemma row_partial:
  assumes "m mod 16 = 0" and "length asc = 17" and "asc ! 16 = CHR 0x00" and "n \<le> length data"
  shows "k \<le> 15 \<Longrightarrow> m + k < n \<Longrightarrow> \<exists>asc'. fold (hex_dump_step data n) [m..<m + k] (out, asc) = (out @ row_part (take k (drop m data)), asc')
    \<and> length asc' = 17 \<and> asc' ! 16 = CHR 0x00 \<and> take k asc' = map hex_ascii (take k (drop m data))"
proof (induction k)
  case 0
  then show ?case using assms(2,3) by (simp add: row_part_def)
next
  case (Suc k)
  then obtain asc' where ih: "fold (hex_dump_step data n) [m..<m + k] (out, asc) = (out @ row_part (take k (drop m data)), asc')"
    "length asc' = 17" "asc' ! 16 = CHR 0x00" "take k asc' = map hex_ascii (take k (drop m data))" by auto
  have row: "take (Suc k) (drop m data) = take k (drop m data) @ [data ! (m + k)]" "length (take k (drop m data)) = k"
    using Suc.prems assms(4) by (simp_all add: take_Suc_conv_app_nth)
  have md: "(m + k) mod 16 = k" "Suc (m + k) mod 16 = Suc k" using mod_16 [OF assms(1), of k] Suc.prems by simp_all
  have m8: "Suc (m + k) mod 8 = 0 \<longleftrightarrow> k = 7"
    using Suc.prems(1) by (subst mod_16(3) [OF assms(1)]) (simp, rule mod_8_eq_0, simp)
  have m7: "k = 7 \<Longrightarrow> (8 + m) mod 16 \<noteq> 0" using md(2) by simp
  have "hex_dump_step data n (m + k) (out @ row_part (take k (drop m data)), asc')
      = (out @ row_part (take (Suc k) (drop m data)), asc'[k := hex_ascii (data ! (m + k))])"
    using Suc.prems row(2) by (simp add: hex_dump_step_def md m8 m7 row(1) row_part_snoc Let_def)
  moreover have "take (Suc k) (asc'[k := hex_ascii (data ! (m + k))]) = map hex_ascii (take (Suc k) (drop m data))"
    using ih(2,4) Suc.prems by (simp add: row(1) take_Suc_conv_app_nth)
  ultimately show ?case using ih(1-3) Suc.prems by simp
qed

text \<open>The byte that completes a row of 16, and the last byte.\<close>

lemma row_complete:
  assumes "m mod 16 = 0" and "length asc = 17" and "asc ! 16 = CHR 0x00" and "n \<le> length data" and "m + 16 \<le> n"
  shows "\<exists>asc'. fold (hex_dump_step data n) [m..<m + 16] (out, asc) = (out @ hex_row (take 16 (drop m data)), asc')
    \<and> length asc' = 17 \<and> asc' ! 16 = CHR 0x00"
proof -
  let ?bs = "take 15 (drop m data)" and ?b = "data ! (m + 15)"
  obtain asc' where p: "fold (hex_dump_step data n) [m..<m + 15] (out, asc) = (out @ row_part ?bs, asc')"
    "length asc' = 17" "asc' ! 16 = CHR 0x00" "take 15 asc' = map hex_ascii ?bs"
    using row_partial [OF assms(1-4), of 15 out] assms(5) by auto
  have row: "take 16 (drop m data) = ?bs @ [?b]" "length ?bs = 15"
    using assms(4,5) take_Suc_conv_app_nth [of 15 "drop m data"] by simp_all
  have md: "(m + 15) mod 16 = 15" "Suc (m + 15) mod 16 = 0" "Suc (m + 15) mod 8 = 0" using mod_16 [OF assms(1), of 15] by simp_all
  let ?a = "asc'[15 := hex_ascii ?b]"
  have "take 16 ?a = map hex_ascii (take 16 (drop m data))"
    using p(2,4) take_Suc_conv_app_nth [of 15 ?a] by (simp add: row(1))
  then have "c_str ?a = map hex_ascii (take 16 (drop m data))" using p(2,3) by (intro c_str_row [where n = 16]) simp_all
  then have "hex_dump_step data n (m + 15) (out @ row_part ?bs, asc') = (out @ hex_row (take 16 (drop m data)), ?a)"
    using row_full [of "take 16 (drop m data)"] row(2) md by (simp add: hex_dump_step_def hex_row_def row(1) row_part_snoc Let_def)
  moreover have "m + 16 = Suc (m + 15)" by simp
  then have "[m..<m + 16] = [m..<m + 15] @ [m + 15]" by (metis upt_Suc_append le_add1)
  ultimately show ?thesis using p(1-3) by simp
qed

lemma row_incomplete:
  assumes "m mod 16 = 0" and "length asc = 17" and "asc ! 16 = CHR 0x00" and "n \<le> length data" and "m < n" "n < m + 16"
  shows "fst (fold (hex_dump_step data n) [m..<n] (out, asc)) = out @ hex_row (take (n - m) (drop m data))"
proof -
  define k where "k = n - m - 1"
  have k: "n = Suc (m + k)" "k < 15" "n - m = Suc k" using assms(5,6) by (auto simp: k_def)
  let ?bs = "take k (drop m data)" and ?b = "data ! (m + k)"
  obtain asc' where p: "fold (hex_dump_step data n) [m..<m + k] (out, asc) = (out @ row_part ?bs, asc')"
    "length asc' = 17" "take k asc' = map hex_ascii ?bs"
    using row_partial [OF assms(1-4), of k out] k by auto
  have row: "take (Suc k) (drop m data) = ?bs @ [?b]" "length ?bs = k"
    using k assms(4) by (simp_all add: take_Suc_conv_app_nth)
  have md: "(m + k) mod 16 = k" "Suc (m + k) mod 16 = Suc k" using mod_16 [OF assms(1), of k] k by simp_all
  let ?a = "asc'[k := hex_ascii ?b, Suc k := CHR 0x00]"
  have "take (Suc k) ?a = map hex_ascii (take (Suc k) (drop m data))"
    using p(2,3) k by (simp add: row(1) take_Suc_conv_app_nth)
  then have c: "c_str ?a = map hex_ascii (take (Suc k) (drop m data))" using p(2) k by (intro c_str_row [where n = "Suc k"]) simp_all
  have r: "row_part ?bs @ hex2 ?b @ '' '' @ '' '' @ (if Suc k \<le> 8 then '' '' else '''') @ replicate (3 * (16 - Suc k)) CHR '' '' =
      pad 24 (hexes (take 8 (?bs @ [?b]))) @ '' '' @ pad 24 (hexes (drop 8 (?bs @ [?b]))) @ '' ''"
    using row_last [of "?bs @ [?b]"] k row(2) by (auto simp: row_part_snoc split: if_splits)
  have "hex_dump_step data n (m + k) (out @ row_part ?bs, asc') = (out @ hex_row (take (Suc k) (drop m data)), ?a)"
    using c r by (simp add: hex_dump_step_def md k(1) hex_row_def row(1) blanks Let_def del: replicate.simps upt.simps)
  then show ?thesis using p(1) k by simp
qed

section \<open>Properties\<close>

text \<open>\<^verbatim>\<open>hex_dump\<close> prints the bytes row by row. Whatever the array of characters holds at first, the output is that of the reference: for every
  16 bytes, and for the rest, two columns of hexadecimal digits filled up with blanks, then the characters of exactly these bytes.\<close>

theorem hex_dump_rows:
  assumes "length junk = 17" and "n \<le> length data"
  shows "hex_dump junk data n = concat (map hex_row (rows 16 (take n data)))"
proof -
  have "fst (fold (hex_dump_step data n) [m..<n] (out, asc)) = out @ concat (map hex_row (rows 16 (take (n - m) (drop m data))))"
    if "m mod 16 = 0" "length asc = 17" "asc ! 16 = CHR 0x00" "m \<le> n" for m out asc
    using that
  proof (induction "n - m" arbitrary: m out asc rule: less_induct)
    case less
    consider "m = n" | "m < n" "n < m + 16" | "m + 16 \<le> n" using less.prems(4) by linarith
    then show ?case
    proof cases
      case 1
      then show ?thesis by (simp add: rows.simps)
    next
      case 2
      then have "rows 16 (take (n - m) (drop m data)) = [take (n - m) (drop m data)]" using assms(2) by (simp add: rows.simps)
      then show ?thesis using row_incomplete [OF less.prems(1-3) assms(2) 2, of out] by simp
    next
      case 3
      obtain asc' where a: "fold (hex_dump_step data n) [m..<m + 16] (out, asc) = (out @ hex_row (take 16 (drop m data)), asc')"
        "length asc' = 17" "asc' ! 16 = CHR 0x00" using row_complete [OF less.prems(1-3) assms(2) 3] by blast
      have u: "[m..<n] = [m..<m + 16] @ [m + 16..<n]" using 3 upt_add_eq_append [of m "m + 16" "n - (m + 16)"] by simp
      have "rows 16 (take (n - m) (drop m data)) = take 16 (drop m data) # rows 16 (take (n - (m + 16)) (drop (m + 16) data))"
        using 3 assms(2) by (subst rows.simps) (auto simp: min_def drop_take add.commute)
      then show ?thesis using less.hyps [of "m + 16" asc' "out @ hex_row (take 16 (drop m data))"] a 3 less.prems(1) by (simp add: u)
    qed
  qed
  from this [of 0 "junk[16 := CHR 0x00]" "''''"] assms(1) show ?thesis by (simp add: hex_dump_def)
qed

theorem hex_dump_rows_witness:
  "hex_dump (replicate 17 CHR ''x'') [0x50, 0x4F, 0x4E, 0x47, 0x00, 0xFF, 0x7E, 0x20, 0x0A] 9
     = ''50 4F 4E 47 00 FF 7E 20  0A                       |  PONG..~ . '' @ [CHR 0x0A]"
  by (subst hex_dump_rows, simp, simp, code_simp)

end
