(* ===== verification/Payload.thy ===== *)
theory Payload
  imports Prelude
begin

text \<open>
  The ping-pong payload of \<^verbatim>\<open>common/common.h\<close>: the packed struct every program exchanges, its
  constructors, the validity test on the magic number and the latency computation, and the 48-byte
  layout the struct has inside a packet. The four-element array \<^verbatim>\<open>ts\<close> is four record fields;
  \<open>ts p i\<close> and \<open>set_ts i v p\<close> are the indexed accesses of the sources.
\<close>

section \<open>Definitions\<close>

record pingpong_payload =
  pp_id :: u64
  ts0 :: u64
  ts1 :: u64
  ts2 :: u64
  ts3 :: u64
  phase :: u32
  magic :: u32

definition PACKET_SIZE :: nat where "PACKET_SIZE = 1024"

definition PINGPONG_MAGIC :: u32 where "PINGPONG_MAGIC = 0x8badbeef"

definition ts :: "pingpong_payload \<Rightarrow> nat \<Rightarrow> u64" where
  "ts p i = (if i = 0 then ts0 p else if i = 1 then ts1 p else if i = 2 then ts2 p else ts3 p)"

definition set_ts :: "nat \<Rightarrow> u64 \<Rightarrow> pingpong_payload \<Rightarrow> pingpong_payload" where
  "set_ts i v p = (if i = 0 then p\<lparr>ts0 := v\<rparr> else if i = 1 then p\<lparr>ts1 := v\<rparr>
                   else if i = 2 then p\<lparr>ts2 := v\<rparr> else p\<lparr>ts3 := v\<rparr>)"

definition empty_pingpong_payload :: pingpong_payload where
  "empty_pingpong_payload =
     \<lparr>pp_id = 0, ts0 = 0, ts1 = 0, ts2 = 0, ts3 = 0, phase = 0, magic = PINGPONG_MAGIC\<rparr>"

definition new_pingpong_payload :: "u64 \<Rightarrow> pingpong_payload" where
  "new_pingpong_payload i =
     \<lparr>pp_id = i, ts0 = 0, ts1 = 0, ts2 = 0, ts3 = 0, phase = 0, magic = PINGPONG_MAGIC\<rparr>"

definition valid_pingpong_payload :: "pingpong_payload \<Rightarrow> bool" where
  "valid_pingpong_payload p \<longleftrightarrow> magic p = PINGPONG_MAGIC"

definition compute_latency :: "pingpong_payload \<Rightarrow> u64" where
  "compute_latency p = ((ts p 3 - ts p 0) - (ts p 2 - ts p 1)) div 2"

text \<open>A zeroed struct, as \<^verbatim>\<open>memset\<close> and \<^verbatim>\<open>calloc\<close> leave it.\<close>

definition zero_payload :: pingpong_payload where
  "zero_payload = \<lparr>pp_id = 0, ts0 = 0, ts1 = 0, ts2 = 0, ts3 = 0, phase = 0, magic = 0\<rparr>"

subsection \<open>The struct in memory (\<^verbatim>\<open>#pragma pack (push, 1)\<close>)\<close>

definition payload_size :: nat where "payload_size = 48"

definition payload_bytes :: "pingpong_payload \<Rightarrow> bytes" where
  "payload_bytes p = bytes_of_word 8 (pp_id p) @ bytes_of_word 8 (ts0 p) @ bytes_of_word 8 (ts1 p)
     @ bytes_of_word 8 (ts2 p) @ bytes_of_word 8 (ts3 p) @ bytes_of_word 4 (phase p)
     @ bytes_of_word 4 (magic p)"

definition payload_of_bytes :: "bytes \<Rightarrow> pingpong_payload" where
  "payload_of_bytes bs =
     \<lparr>pp_id = word_of_bytes (mread bs 0 8),
      ts0 = word_of_bytes (mread bs 8 8), ts1 = word_of_bytes (mread bs 16 8),
      ts2 = word_of_bytes (mread bs 24 8), ts3 = word_of_bytes (mread bs 32 8),
      phase = word_of_bytes (mread bs 40 4), magic = word_of_bytes (mread bs 44 4)\<rparr>"

definition load_payload :: "bytes \<Rightarrow> nat \<Rightarrow> pingpong_payload" where
  "load_payload buf off = payload_of_bytes (mread buf off payload_size)"

definition store_payload :: "bytes \<Rightarrow> nat \<Rightarrow> pingpong_payload \<Rightarrow> bytes" where
  "store_payload buf off p = mwrite buf off (payload_bytes p)"

text \<open>\<^verbatim>\<open>payload->ts[i] = v\<close> through a pointer to the struct at \<open>off\<close>: eight bytes are written.\<close>

definition store_ts :: "bytes \<Rightarrow> nat \<Rightarrow> nat \<Rightarrow> u64 \<Rightarrow> bytes" where
  "store_ts buf off i v = mwrite buf (off + 8 + 8 * i) (bytes_of_word 8 v)"

text \<open>What \<^verbatim>\<open>recvfrom (..., buf, PACKET_SIZE, ...)\<close> leaves in a packet buffer: a short datagram keeps the rest of it.\<close>

definition recv_at :: "bytes \<Rightarrow> bytes \<Rightarrow> bytes" where
  "recv_at buf d = mwrite buf 0 (take PACKET_SIZE d)"

section \<open>The fields\<close>

lemma ts_simps [simp]:
  "ts p 0 = ts0 p" "ts p (Suc 0) = ts1 p" "ts p 2 = ts2 p" "ts p 3 = ts3 p"
  by (simp_all add: ts_def)

lemma set_ts_simps [simp]:
  "set_ts 0 v p = p\<lparr>ts0 := v\<rparr>" "set_ts (Suc 0) v p = p\<lparr>ts1 := v\<rparr>"
  "set_ts 2 v p = p\<lparr>ts2 := v\<rparr>" "set_ts 3 v p = p\<lparr>ts3 := v\<rparr>"
  by (simp_all add: set_ts_def)

lemma new_pingpong_payload_sel [simp]:
  "pp_id (new_pingpong_payload i) = i" "ts0 (new_pingpong_payload i) = 0"
  "ts1 (new_pingpong_payload i) = 0" "ts2 (new_pingpong_payload i) = 0"
  "ts3 (new_pingpong_payload i) = 0" "phase (new_pingpong_payload i) = 0"
  "magic (new_pingpong_payload i) = PINGPONG_MAGIC"
  by (simp_all add: new_pingpong_payload_def)

lemma valid_new_payload [simp]: "valid_pingpong_payload (new_pingpong_payload i)"
  by (simp add: valid_pingpong_payload_def)

lemma not_valid_zero_payload [simp]: "\<not> valid_pingpong_payload zero_payload"
  by (simp add: valid_pingpong_payload_def zero_payload_def PINGPONG_MAGIC_def)

section \<open>The byte layout\<close>

lemma length_payload_bytes [simp]: "length (payload_bytes p) = payload_size"
  by (simp add: payload_bytes_def payload_size_def)

lemma mread_append_l: "off + n \<le> length xs \<Longrightarrow> mread (xs @ ys) off n = mread xs off n"
  by (simp add: mread_def)

lemma mread_append_r: "length xs \<le> off \<Longrightarrow> mread (xs @ ys) off n = mread ys (off - length xs) n"
  by (simp add: mread_def)

lemma mread_all: "length xs = n \<Longrightarrow> mread xs 0 n = xs"
  by (simp add: mread_def)

lemmas mread_append = mread_append_l mread_append_r mread_all

lemma payload_of_payload_bytes: "payload_of_bytes (payload_bytes p) = p"
  by (simp add: payload_of_bytes_def payload_bytes_def mread_append)

lemma mread_split: "n \<le> m \<Longrightarrow> mread bs off m = mread bs off n @ mread bs (off + n) (m - n)"
  by (simp add: mread_def) (metis add.commute drop_drop le_add_diff_inverse take_add)

lemma bytes_of_mread:
  "off + n \<le> length bs \<Longrightarrow> 8 * n \<le> LENGTH('a::len) \<Longrightarrow>
   bytes_of_word n (word_of_bytes (mread bs off n) :: 'a word) = mread bs off n"
  by (rule bytes_of_word_of_bytes_len) simp_all

lemma payload_bytes_of_bytes:
  assumes "length bs = payload_size" shows "payload_bytes (payload_of_bytes bs) = bs"
proof -
  have "payload_bytes (payload_of_bytes bs) = mread bs 0 8 @ mread bs 8 8 @ mread bs 16 8
          @ mread bs 24 8 @ mread bs 32 8 @ mread bs 40 4 @ mread bs 44 4"
    using assms by (simp add: payload_bytes_def payload_of_bytes_def bytes_of_mread payload_size_def)
  also have "\<dots> = mread bs 0 48"
    using mread_split [of 8 48 bs 0] mread_split [of 8 40 bs 8] mread_split [of 8 32 bs 16]
      mread_split [of 8 24 bs 24] mread_split [of 8 16 bs 32] mread_split [of 4 8 bs 40] by simp
  finally show ?thesis using assms by (simp add: mread_all payload_size_def)
qed

interpretation pp: codec payload_bytes payload_of_bytes payload_size
  by unfold_locales (simp_all add: payload_of_payload_bytes payload_bytes_of_bytes)

lemma load_store_payload [mem_simps]:
  "off + payload_size \<le> length buf \<Longrightarrow> load_payload (store_payload buf off p) off = p"
  unfolding load_payload_def store_payload_def by (rule pp.load_store)

lemma length_store_payload [simp]:
  "off + payload_size \<le> length buf \<Longrightarrow> length (store_payload buf off p) = length buf"
  unfolding store_payload_def by (rule pp.length_store)

lemma length_store_ts [simp]:
  "off + payload_size \<le> length buf \<Longrightarrow> i < 4 \<Longrightarrow> length (store_ts buf off i v) = length buf"
  by (simp add: store_ts_def payload_size_def)

lemma store_ts_before [mem_simps]:
  "o' + n \<le> off \<Longrightarrow> off + payload_size \<le> length buf \<Longrightarrow> i < 4 \<Longrightarrow>
   mread (store_ts buf off i v) o' n = mread buf o' n"
  unfolding store_ts_def by (rule mread_mwrite_before) (simp_all add: payload_size_def)

lemma store_payload_before [mem_simps]:
  "o' + n \<le> off \<Longrightarrow> off + payload_size \<le> length buf \<Longrightarrow>
   mread (store_payload buf off p) o' n = mread buf o' n"
  unfolding store_payload_def by (rule mread_mwrite_before) simp_all

lemma load_payload_field:
  "load_payload buf off =
     \<lparr>pp_id = word_of_bytes (mread buf off 8),
      ts0 = word_of_bytes (mread buf (off + 8) 8), ts1 = word_of_bytes (mread buf (off + 16) 8),
      ts2 = word_of_bytes (mread buf (off + 24) 8), ts3 = word_of_bytes (mread buf (off + 32) 8),
      phase = word_of_bytes (mread buf (off + 40) 4), magic = word_of_bytes (mread buf (off + 44) 4)\<rparr>"
  by (simp add: load_payload_def payload_of_bytes_def payload_size_def mread_mread)

text \<open>Writing one timestamp through the pointer is the record update on the struct.\<close>

lemma load_store_ts [mem_simps]:
  assumes "off + payload_size \<le> length buf" and "i < 4"
  shows "load_payload (store_ts buf off i v) off = set_ts i v (load_payload buf off)"
proof -
  from assms(2) consider "i = 0" | "i = 1" | "i = 2" | "i = 3" by linarith
  then show ?thesis
    using assms(1)
    by cases (simp_all add: load_payload_field store_ts_def payload_size_def mem_simps mread_all)
qed

lemma length_recv_at: "length buf = PACKET_SIZE \<Longrightarrow> length (recv_at buf d) = PACKET_SIZE"
  by (simp add: recv_at_def)

lemma recv_at_full: "length buf = PACKET_SIZE \<Longrightarrow> length d = PACKET_SIZE \<Longrightarrow> recv_at buf d = d"
  by (simp add: recv_at_def mwrite_def)

section \<open>Latency\<close>

lemma unat_div_two: "unat (w div 2 :: u64) = unat w div 2"
  by (simp add: unat_div)

lemma compute_latency_less: "unat (compute_latency p) < 2 ^ 63"
proof -
  have "unat w div 2 < 2 ^ 63" for w :: u64
    using unsigned_less [of w, where 'a = nat] by simp
  then show ?thesis unfolding compute_latency_def unat_div_two .
qed

section \<open>Properties\<close>

text \<open>the packed struct has a faithful byte image. A payload stored in a buffer with 48 bytes
  left is read back unchanged, no byte before it is touched, storing back what was read leaves the
  buffer as it is, and the magic number occupies the last four bytes of the image.\<close>

theorem payload_layout_roundtrip:
  assumes "off + payload_size \<le> length buf"
  shows "load_payload (store_payload buf off p) off = p
    \<and> mread (store_payload buf off p) 0 off = mread buf 0 off
    \<and> store_payload buf off (load_payload buf off) = buf
    \<and> mread (store_payload buf off p) (off + 44) 4 = bytes_of_word 4 (magic p)"
proof (intro conjI)
  show "load_payload (store_payload buf off p) off = p" using assms by (rule load_store_payload)
  show "mread (store_payload buf off p) 0 off = mread buf 0 off"
    using assms by (simp add: store_payload_before)
  show "store_payload buf off (load_payload buf off) = buf"
    unfolding store_payload_def load_payload_def using assms by (rule pp.store_load)
  have "mread (store_payload buf off p) (off + 44) 4 = mread (payload_bytes p) 44 4"
    unfolding store_payload_def using assms by (subst mread_mwrite_within) (simp_all add: payload_size_def)
  then show "mread (store_payload buf off p) (off + 44) 4 = bytes_of_word 4 (magic p)"
    by (simp add: payload_bytes_def mread_append)
qed

theorem payload_layout_roundtrip_witness:
  "load_payload (store_payload (replicate 1024 0) 34 (new_pingpong_payload 7)) 34 = new_pingpong_payload 7"
  using payload_layout_roundtrip [of 34 "replicate 1024 0" "new_pingpong_payload 7"]
  by (simp add: payload_size_def)

text \<open>the latency is half the time spent on the two network directions, whatever the two
  clocks read. If the ping is sent at client time \<open>t0\<close>, travels \<open>f\<close>, is held by the server for
  \<open>h\<close> and travels back \<open>b\<close>, and the server's clock is ahead of the client's by any offset \<open>d\<close>, then
  the 64-bit computation yields \<open>(f + b) div 2\<close>, even when the clocks or the differences wrap.\<close>

theorem latency_clock_independent:
  assumes "f + b < 2 ^ 64"
    and "ts0 p = t0" and "ts1 p = t0 + of_nat f + d" and "ts2 p = t0 + of_nat f + h + d"
    and "ts3 p = t0 + of_nat f + h + of_nat b"
  shows "unat (compute_latency p) = (f + b) div 2"
proof -
  have "(ts3 p - ts0 p) - (ts2 p - ts1 p) = (of_nat (f + b) :: u64)"
    using assms(2-5) by simp
  then have "unat (compute_latency p) = unat (of_nat (f + b) :: u64) div 2"
    by (simp only: compute_latency_def ts_simps unat_div_two One_nat_def)
  then show ?thesis using assms(1) by (simp only: unat_of_nat) simp
qed

theorem latency_clock_independent_witness:
  "unat (compute_latency \<lparr>pp_id = 1, ts0 = 18446744073709551615, ts1 = 1099, ts2 = 1599, ts3 = 799,
      phase = 2, magic = PINGPONG_MAGIC\<rparr>) = 150"
  using latency_clock_independent [of 100 200 "\<lparr>pp_id = 1, ts0 = 18446744073709551615, ts1 = 1099,
      ts2 = 1599, ts3 = 799, phase = 2, magic = PINGPONG_MAGIC\<rparr>" "-1" 1000 500] by simp

end
