(* ===== verification/Persistence.thy ===== *)
theory Persistence
  imports Payload
begin

text \<open>
  The persistence agent of \<^verbatim>\<open>common/persistence.c\<close> and \<^verbatim>\<open>common/persistence.h\<close>: where a client
  stores its measurements. Three kinds of agent share one interface: all timestamps, minimum and
  maximum latency, and latency buckets.

  A \<^verbatim>\<open>FILE\<close> is the text written to it together with whether its writes and its close fail. The
  function pointers \<^verbatim>\<open>write\<close> and \<^verbatim>\<open>close\<close> of the agent are values of the enumerations \<open>write_fn\<close>
  and \<open>close_fn\<close>, dispatched by \<open>agent_write\<close> and \<open>agent_close\<close>. Undefined behaviour of the C code
  (a null dereference, a signed overflow, a division by zero, an access outside the mapped bucket
  memory) is the result \<open>None\<close>. What \<^verbatim>\<open>malloc\<close>, \<^verbatim>\<open>fopen\<close>, \<^verbatim>\<open>mmap\<close> and \<^verbatim>\<open>sysconf\<close> return is an
  argument of the definitions that call them.
\<close>

section \<open>Definitions\<close>

subsection \<open>Output streams\<close>

record cfile =
  f_stdout :: bool
  f_out :: string
  f_write_fails :: bool
  f_close_fails :: bool

definition fprintf :: "cfile \<Rightarrow> string \<Rightarrow> int \<times> cfile" where
  "fprintf f s = (if f_write_fails f then (-1, f) else (int (length s), f\<lparr>f_out := f_out f @ s\<rparr>))"

definition newline :: char where "newline = CHR 0x0A"

subsection \<open>Flags\<close>

definition PERSISTENCE_F_FILE :: u32 where "PERSISTENCE_F_FILE = push_bit 0 1"
definition PERSISTENCE_F_STDOUT :: u32 where "PERSISTENCE_F_STDOUT = push_bit 1 1"
definition PERSISTENCE_M_ALL_TIMESTAMPS :: u32 where "PERSISTENCE_M_ALL_TIMESTAMPS = push_bit 2 1"
definition PERSISTENCE_M_MIN_MAX_LATENCY :: u32 where "PERSISTENCE_M_MIN_MAX_LATENCY = push_bit 3 1"
definition PERSISTENCE_M_BUCKETS :: u32 where "PERSISTENCE_M_BUCKETS = push_bit 4 1"

definition pers_measurement_to_flag :: "int \<Rightarrow> int" where
  "pers_measurement_to_flag v =
     (if v = 0 then uint PERSISTENCE_M_ALL_TIMESTAMPS
      else if v = 1 then uint PERSISTENCE_M_MIN_MAX_LATENCY
      else if v = 2 then uint PERSISTENCE_M_BUCKETS
      else -1)"

subsection \<open>Data\<close>

record min_max_latency_data =
  mm_min :: u64
  mm_max :: u64
  min_payload :: pingpong_payload
  max_payload :: pingpong_payload

definition NUM_BUCKETS :: nat where "NUM_BUCKETS = 20000"
definition OFFSET :: nat where "OFFSET = 1000000"

text \<open>\<^verbatim>\<open>struct bucket\<close> is five 64-bit counters, 40 bytes; \<open>rel_latency\<close> is indexed by 0 to 3.\<close>

record bucket =
  rel_latency :: "nat \<Rightarrow> u64"
  abs_latency :: u64

text \<open>The union of \<^verbatim>\<open>ptr\<close> and \<^verbatim>\<open>buckets\<close> is one mapped region of \<open>bucket_mem\<close> bytes.\<close>

record bucket_data =
  tot_packets :: u64
  send_interval :: u64
  min_values :: bucket
  max_values :: bucket
  buckets :: "nat \<Rightarrow> bucket"
  bucket_mem :: nat
  prev_payload :: pingpong_payload

datatype pers_aux = Aux_NULL | Aux_min_max min_max_latency_data | Aux_buckets bucket_data

record pers_base_data =
  pfile :: "cfile option"
  paux :: pers_aux

datatype write_fn = Write_all_timestamps | Write_min_max_latency | Write_buckets
datatype close_fn = Close_plain | Close_min_max | Close_buckets

record persistence_agent =
  data :: "pers_base_data option"
  flags :: u32
  write_op :: write_fn
  close_op :: close_fn

subsection \<open>Bucket arithmetic\<close>

text \<open>The arguments are \<^verbatim>\<open>int64_t\<close>; the result is \<^verbatim>\<open>uint32_t\<close>. The third test repeats the first
  two, so its result \<^verbatim>\<open>-1\<close> is unreachable.\<close>

definition bucket_idx :: "int \<Rightarrow> int \<Rightarrow> int \<Rightarrow> u32 option" where
  "bucket_idx val mn mx =
     (if val < mn then Some 0
      else if val > mx then Some (of_nat NUM_BUCKETS + 1)
      else if \<not> fits_i64 (mx - mn) then None
      else let bucket_size = (mx - mn) sdiv int NUM_BUCKETS in
        if val < mn \<or> val > mx then Some (-1)
        else if bucket_size = 0 then None
        else Some (word_of_int ((val - mn) sdiv bucket_size + 1)))"

text \<open>\<^verbatim>\<open>sysconf (_SC_PAGESIZE)\<close> is the argument.\<close>

definition bucket_compute_hugepage_size :: "u64 \<Rightarrow> int" where
  "bucket_compute_hugepage_size page_size =
     (let required_pages = (ucast ((8 * (of_nat NUM_BUCKETS + 2) * 5 + page_size - 1) div page_size) :: u32)
      in sint (ucast (ucast required_pages * page_size) :: u32))"

definition bucket_ranges :: "u64 \<Rightarrow> u64 \<times> u64 \<times> u64 \<times> u64" where
  "bucket_ranges interval =
     (let (rel_min, rel_max) =
        (if interval < of_nat OFFSET then (0, 2 * of_nat OFFSET)
         else (interval - of_nat OFFSET, interval + of_nat OFFSET))
      in (rel_min, rel_max, 0, interval + of_nat OFFSET))"

subsection \<open>Writing\<close>

definition dat_words :: "pingpong_payload \<Rightarrow> u64 list" where
  "dat_words p = [pp_id p, ts p 0, ts p 1, ts p 2, ts p 3]"

definition dat_line :: "pingpong_payload \<Rightarrow> string" where
  "dat_line p = join_with CHR '' '' (map show_u64 (dat_words p)) @ [newline]"

definition persistence_write_all_timestamps ::
  "persistence_agent \<Rightarrow> pingpong_payload \<Rightarrow> int \<times> persistence_agent" where
  "persistence_write_all_timestamps agent payload =
     (case data agent of
        None \<Rightarrow> (-1, agent)
      | Some d \<Rightarrow>
          (case pfile d of
             None \<Rightarrow> (-1, agent)
           | Some f \<Rightarrow>
               (let (n, f') = fprintf f (dat_line payload);
                    agent' = agent\<lparr>data := Some (d\<lparr>pfile := Some f'\<rparr>)\<rparr>
                in if n < 0 then (-1, agent') else (0, agent'))))"

definition min_max_update :: "min_max_latency_data \<Rightarrow> pingpong_payload \<Rightarrow> min_max_latency_data" where
  "min_max_update a payload =
     (let latency = compute_latency payload;
          a1 = (if latency < mm_min a then a\<lparr>mm_min := latency, min_payload := payload\<rparr> else a)
      in if latency > mm_max a1 then a1\<lparr>mm_max := latency, max_payload := payload\<rparr> else a1)"

definition persistence_write_min_max_latency ::
  "persistence_agent \<Rightarrow> pingpong_payload \<Rightarrow> (int \<times> persistence_agent) option" where
  "persistence_write_min_max_latency agent payload =
     (case data agent of
        None \<Rightarrow> None
      | Some d \<Rightarrow>
          (case paux d of
             Aux_min_max a \<Rightarrow>
               Some (0, agent\<lparr>data := Some (d\<lparr>paux := Aux_min_max (min_max_update a payload)\<rparr>)\<rparr>)
           | _ \<Rightarrow> None))"

text \<open>One turn of the second loop of \<^verbatim>\<open>persistence_write_buckets\<close>: extremes and bucket of column
  \<open>i\<close>. The increment touches the eight bytes at \<open>40 * idx + 8 * i\<close> of the mapping.\<close>

definition write_rel_column ::
  "u64 \<Rightarrow> u64 \<Rightarrow> (nat \<Rightarrow> u64) \<Rightarrow> nat \<Rightarrow> bucket_data \<Rightarrow> bucket_data option" where
  "write_rel_column rel_min rel_max ts_diff i a =
     (let mn = min_values a; mx = max_values a;
          mn' = (if ts_diff i < rel_latency mn i then mn\<lparr>rel_latency := (rel_latency mn)(i := ts_diff i)\<rparr> else mn);
          mx' = (if ts_diff i > rel_latency mx i then mx\<lparr>rel_latency := (rel_latency mx)(i := ts_diff i)\<rparr> else mx)
      in case bucket_idx (sint (ts_diff i)) (sint rel_min) (sint rel_max) of
           None \<Rightarrow> None
         | Some idx \<Rightarrow>
             (let k = unat idx; bk = buckets a k in
              if bucket_mem a < 40 * k + 8 * i + 8 then None
              else Some (a\<lparr>min_values := mn', max_values := mx',
                          buckets := (buckets a)(k := bk\<lparr>rel_latency := (rel_latency bk)(i := rel_latency bk i + 1)\<rparr>)\<rparr>)))"

definition write_abs_column :: "u64 \<Rightarrow> u64 \<Rightarrow> u64 \<Rightarrow> bucket_data \<Rightarrow> bucket_data option" where
  "write_abs_column abs_min abs_max lat a =
     (let mn = min_values a; mx = max_values a;
          mn' = (if lat < abs_latency mn then mn\<lparr>abs_latency := lat\<rparr> else mn);
          mx' = (if lat > abs_latency mx then mx\<lparr>abs_latency := lat\<rparr> else mx)
      in case bucket_idx (sint lat) (sint abs_min) (sint abs_max) of
           None \<Rightarrow> None
         | Some idx \<Rightarrow>
             (let k = unat idx; bk = buckets a k in
              if bucket_mem a < 40 * k + 40 then None
              else Some (a\<lparr>min_values := mn', max_values := mx',
                          buckets := (buckets a)(k := bk\<lparr>abs_latency := abs_latency bk + 1\<rparr>)\<rparr>)))"

text \<open>The whole update: the return code, the progress line printed on \<^verbatim>\<open>stdout\<close>, the new data.\<close>

definition bucket_update :: "bucket_data \<Rightarrow> pingpong_payload \<Rightarrow> (int \<times> string \<times> bucket_data) option" where
  "bucket_update a0 payload =
     (let a = a0\<lparr>tot_packets := tot_packets a0 + 1\<rparr> in
      if \<not> valid_pingpong_payload (prev_payload a)
      then Some (-1, '''', a\<lparr>prev_payload := payload\<rparr>)
      else
        (let progress = (if pp_id payload mod 1000000 = 0 then show_u64 (pp_id payload) @ [newline] else '''') in
         if \<exists>i\<in>set [0..<4]. ts payload i < ts (prev_payload a) i then Some (-1, progress, a)
         else
           (let ts_diff = (\<lambda>i. ts payload i - ts (prev_payload a) i);
                (rel_min, rel_max, abs_min, abs_max) = bucket_ranges (send_interval a)
            in case Option.bind (Option.bind (Option.bind (Option.bind
                      (write_rel_column rel_min rel_max ts_diff 0 a)
                      (write_rel_column rel_min rel_max ts_diff 1))
                      (write_rel_column rel_min rel_max ts_diff 2))
                      (write_rel_column rel_min rel_max ts_diff 3))
                      (write_abs_column abs_min abs_max (compute_latency payload)) of
                 None \<Rightarrow> None
               | Some a' \<Rightarrow> Some (0, progress, a'\<lparr>prev_payload := payload\<rparr>))))"

text \<open>The progress line goes to \<^verbatim>\<open>stdout\<close>, which may be the agent's own stream.\<close>

definition echo_stdout :: "string \<Rightarrow> cfile \<Rightarrow> cfile" where
  "echo_stdout out f = (if f_stdout f \<and> out \<noteq> '''' then snd (fprintf f out) else f)"

definition persistence_write_buckets ::
  "persistence_agent \<Rightarrow> pingpong_payload \<Rightarrow> (int \<times> string \<times> persistence_agent) option" where
  "persistence_write_buckets agent payload =
     (case data agent of
        None \<Rightarrow> None
      | Some d \<Rightarrow>
          (case paux d of
             Aux_buckets a \<Rightarrow>
               (case bucket_update a payload of
                  None \<Rightarrow> None
                | Some (r, out, a') \<Rightarrow>
                    Some (r, out, agent\<lparr>data := Some (d\<lparr>paux := Aux_buckets a',
                                                       pfile := map_option (echo_stdout out) (pfile d)\<rparr>)\<rparr>))
           | _ \<Rightarrow> None))"

text \<open>\<^verbatim>\<open>agent->write (agent, payload)\<close>: the return code and the agent.\<close>

definition agent_write :: "persistence_agent \<Rightarrow> pingpong_payload \<Rightarrow> (int \<times> persistence_agent) option" where
  "agent_write agent payload =
     (case write_op agent of
        Write_all_timestamps \<Rightarrow> Some (persistence_write_all_timestamps agent payload)
      | Write_min_max_latency \<Rightarrow> persistence_write_min_max_latency agent payload
      | Write_buckets \<Rightarrow>
          map_option (\<lambda>(r, out, agent'). (r, agent')) (persistence_write_buckets agent payload))"

fun agent_writes :: "persistence_agent \<Rightarrow> pingpong_payload list \<Rightarrow> persistence_agent option" where
  "agent_writes agent [] = Some agent"
| "agent_writes agent (p # ps) =
     (case agent_write agent p of None \<Rightarrow> None | Some (_, agent') \<Rightarrow> agent_writes agent' ps)"

subsection \<open>Closing\<close>

text \<open>\<^verbatim>\<open>persistence_close\<close>: the return code, the file as it is left, and whether the agent was freed.\<close>

definition persistence_close :: "persistence_agent \<Rightarrow> int \<times> cfile option \<times> bool" where
  "persistence_close agent =
     (case data agent of
        None \<Rightarrow> (-1, None, False)
      | Some d \<Rightarrow>
          (case pfile d of
             None \<Rightarrow> (-1, None, False)
           | Some f \<Rightarrow>
               if \<not> f_stdout f \<and> f_close_fails f then (-1, Some f, False)
               else (0, Some f, True)))"

definition latency_line :: "pingpong_payload \<Rightarrow> u64 \<Rightarrow> string" where
  "latency_line p lat =
     show_u64 (pp_id p) @ '': '' @ join_with CHR '' '' (map show_u64 [ts p 0, ts p 1, ts p 2, ts p 3])
     @ '' (LATENCY '' @ show_u64 lat @ '' ns)'' @ [newline]"

definition min_max_report :: "min_max_latency_data \<Rightarrow> cfile \<Rightarrow> cfile" where
  "min_max_report a f =
     (let f1 = (if mm_min a \<noteq> -1 then snd (fprintf f (latency_line (min_payload a) (mm_min a))) else f)
      in if mm_max a \<noteq> 0 then snd (fprintf f1 (latency_line (max_payload a) (mm_max a))) else f1)"

definition persistence_close_min_max :: "persistence_agent \<Rightarrow> (int \<times> cfile option \<times> bool) option" where
  "persistence_close_min_max agent =
     (case data agent of
        None \<Rightarrow> None
      | Some d \<Rightarrow>
          (case (paux d, pfile d) of
             (Aux_min_max a, None) \<Rightarrow>
               if mm_min a = -1 \<and> mm_max a = 0
               then Some (persistence_close (agent\<lparr>data := Some (d\<lparr>paux := Aux_NULL\<rparr>)\<rparr>)) else None
           | (Aux_min_max a, Some f) \<Rightarrow>
               Some (persistence_close
                      (agent\<lparr>data := Some (d\<lparr>pfile := Some (min_max_report a f), paux := Aux_NULL\<rparr>)\<rparr>))
           | _ \<Rightarrow> None))"

definition words_line :: "string \<Rightarrow> u64 list \<Rightarrow> string" where
  "words_line tag ws = join_with CHR '' '' (tag # map show_u64 ws) @ [newline]"

definition bucket_words :: "bucket \<Rightarrow> u64 list" where
  "bucket_words b = [rel_latency b 0, rel_latency b 1, rel_latency b 2, rel_latency b 3, abs_latency b]"

definition bucket_report :: "bucket_data \<Rightarrow> string list" where
  "bucket_report a =
     (let (rel_min, rel_max, abs_min, abs_max) = bucket_ranges (send_interval a);
          rel_bucket_size = (rel_max - rel_min) div of_nat NUM_BUCKETS;
          abs_bucket_size = (abs_max - abs_min) div of_nat NUM_BUCKETS
      in [words_line ''TOT'' [tot_packets a],
          words_line ''REL'' [rel_min, rel_max, rel_bucket_size],
          words_line ''ABS'' [abs_min, abs_max, abs_bucket_size],
          words_line ''MIN'' (bucket_words (min_values a)),
          words_line ''MAX'' (bucket_words (max_values a))]
         @ map (\<lambda>i. join_with CHR '' '' (map show_u64 (bucket_words (buckets a i))) @ [newline])
               [0..<NUM_BUCKETS + 2])"

definition persistence_close_buckets :: "persistence_agent \<Rightarrow> (int \<times> cfile option \<times> bool) option" where
  "persistence_close_buckets agent =
     (case data agent of
        None \<Rightarrow> None
      | Some d \<Rightarrow>
          (case (paux d, pfile d) of
             (Aux_buckets a, Some f) \<Rightarrow>
               Some (persistence_close
                      (agent\<lparr>data := Some (d\<lparr>pfile := Some (foldl (\<lambda>g s. snd (fprintf g s)) f (bucket_report a)),
                                             paux := Aux_NULL\<rparr>)\<rparr>))
           | _ \<Rightarrow> None))"

definition agent_close :: "persistence_agent \<Rightarrow> (int \<times> cfile option \<times> bool) option" where
  "agent_close agent =
     (case close_op agent of
        Close_plain \<Rightarrow> Some (persistence_close agent)
      | Close_min_max \<Rightarrow> persistence_close_min_max agent
      | Close_buckets \<Rightarrow> persistence_close_buckets agent)"

subsection \<open>Initialisation\<close>

text \<open>
  What the environment answers during initialisation: the three allocations, with the bytes that
  happen to be in the uninitialised block of \<^verbatim>\<open>min_max_latency_data\<close>, the opened file, the standard
  output, the size in bytes of the region \<^verbatim>\<open>mmap\<close> maps (zero filled), or its failure.
\<close>

record init_env =
  e_malloc_agent :: bool
  e_malloc_data :: bool
  e_malloc_min_max :: "min_max_latency_data option"
  e_calloc_buckets :: bool
  e_fopen :: "cfile option"
  e_stdout :: cfile
  e_mmap :: "nat option"

definition zero_bucket :: bucket where
  "zero_bucket = \<lparr>rel_latency = (\<lambda>_. 0), abs_latency = 0\<rparr>"

definition persistence_init_min_max_latency ::
  "init_env \<Rightarrow> persistence_agent \<Rightarrow> pers_base_data \<Rightarrow> persistence_agent option" where
  "persistence_init_min_max_latency env agent d =
     (case e_malloc_min_max env of
        None \<Rightarrow> None
      | Some junk \<Rightarrow>
          Some (agent\<lparr>data := Some (d\<lparr>paux := Aux_min_max (junk\<lparr>mm_min := -1, mm_max := 0\<rparr>)\<rparr>),
                      write_op := Write_min_max_latency, close_op := Close_min_max\<rparr>))"

definition persistence_init_buckets ::
  "init_env \<Rightarrow> persistence_agent \<Rightarrow> pers_base_data \<Rightarrow> u64 \<Rightarrow> persistence_agent option" where
  "persistence_init_buckets env agent d interval =
     (if \<not> e_calloc_buckets env then None
      else case e_mmap env of
        None \<Rightarrow> None
      | Some bytes \<Rightarrow>
          Some (agent\<lparr>data := Some (d\<lparr>paux := Aux_buckets
                   \<lparr>tot_packets = 0, send_interval = interval,
                    min_values = \<lparr>rel_latency = (\<lambda>_. -1), abs_latency = -1\<rparr>,
                    max_values = \<lparr>rel_latency = (\<lambda>_. 0), abs_latency = 0\<rparr>,
                    buckets = (\<lambda>_. zero_bucket), bucket_mem = bytes,
                    prev_payload = zero_payload\<rparr>\<rparr>),
                  write_op := Write_buckets, close_op := Close_buckets\<rparr>))"

definition persistence_init0 ::
  "init_env \<Rightarrow> persistence_agent \<Rightarrow> string option \<Rightarrow> u64 \<Rightarrow> persistence_agent option" where
  "persistence_init0 env agent filename interval =
     (let use_stdout = (filename = None \<or> flags agent AND PERSISTENCE_F_STDOUT \<noteq> 0) in
      case (if use_stdout then Some (e_stdout env) else e_fopen env) of
        None \<Rightarrow> None
      | Some f \<Rightarrow>
          if \<not> e_malloc_data env then None
          else
            (let d = \<lparr>pfile = Some f, paux = Aux_NULL\<rparr>; agent1 = agent\<lparr>data := Some d\<rparr> in
             if flags agent AND PERSISTENCE_M_MIN_MAX_LATENCY \<noteq> 0
             then persistence_init_min_max_latency env agent1 d
             else if flags agent AND PERSISTENCE_M_BUCKETS \<noteq> 0
             then persistence_init_buckets env agent1 d interval
             else Some (agent1\<lparr>write_op := Write_all_timestamps, close_op := Close_plain\<rparr>)))"

text \<open>The outer option is undefined behaviour (the unchecked \<^verbatim>\<open>malloc\<close> of the agent), the inner one
  the \<^verbatim>\<open>NULL\<close> the function returns. The fields of the fresh agent block are set before they are read.\<close>

definition persistence_init ::
  "init_env \<Rightarrow> string option \<Rightarrow> u32 \<Rightarrow> u64 \<Rightarrow> persistence_agent option option" where
  "persistence_init env filename fl interval =
     (if \<not> e_malloc_agent env then None
      else Some (persistence_init0 env
             \<lparr>data = None, flags = fl, write_op = Write_all_timestamps, close_op = Close_plain\<rparr>
             filename interval))"


section \<open>Bucket arithmetic: lemmas\<close>

lemma sint_small: "unat (w :: u64) < 2 ^ 63 \<Longrightarrow> sint w = int (unat w)"
proof -
  assume "unat w < 2 ^ 63"
  then have "int (unat w) < int (2 ^ 63)" by (simp only: of_nat_less_iff)
  then show ?thesis
    using signed_take_bit_int_eq_self [of 63 "uint w"] uint_ge_0 [of w] by (simp add: sint_uint)
qed

lemma unat_word_of_int_small: "0 \<le> q \<Longrightarrow> q < 2 ^ 32 \<Longrightarrow> int (unat (word_of_int q :: u32)) = q"
  by (simp add: uint_word_of_int_eq take_bit_int_eq_self)

lemma sdiv_nonneg: "0 \<le> a \<Longrightarrow> 0 \<le> b \<Longrightarrow> a sdiv b = a div (b :: int)"
  by (simp add: signed_divide_int_def sgn_if)

lemma div_bounds:
  fixes x w :: int
  assumes "0 < w"
  shows "w * (x div w) \<le> x" and "x < w * (x div w + 1)"
proof -
  have "w * (x div w) = x - x mod w" by (simp add: minus_mod_eq_mult_div)
  moreover have "0 \<le> x mod w" and "x mod w < w" using assms by simp_all
  ultimately show "w * (x div w) \<le> x" and "x < w * (x div w + 1)"
    by (simp_all add: distrib_left)
qed

lemma quotient_below:
  fixes x w n :: int
  assumes "0 < w"
  shows "x div w < n \<longleftrightarrow> x < w * n"
proof
  assume "x div w < n"
  then have "w * (x div w + 1) \<le> w * n" using assms by (intro mult_left_mono) simp_all
  with div_bounds(2) [OF assms, of x] show "x < w * n" by linarith
next
  assume "x < w * n"
  with div_bounds(1) [OF assms, of x] have "w * (x div w) < w * n" by linarith
  then show "x div w < n" using assms by (simp add: mult_less_cancel_left_pos)
qed

lemma quotient_of_range:
  fixes r n :: int
  assumes "0 < r div n"
  shows "r div (r div n) = n + r mod n div (r div n)"
proof -
  have "r div (r div n) = (r mod n + n * (r div n)) div (r div n)" by simp
  also have "\<dots> = n + r mod n div (r div n)" using assms by (subst div_mult_self1) simp_all
  finally show ?thesis .
qed

lemma quotient_bound:
  fixes r w :: int
  assumes "w = r div 20000" and "20000 \<le> r" and "0 \<le> x" and "x \<le> r"
  shows "0 < w" and "0 \<le> x div w" and "x div w < 40000"
proof -
  show w: "0 < w" using assms(1,2) by simp
  then show "0 \<le> x div w" using assms(3) by (simp add: pos_imp_zdiv_nonneg_iff)
  have "r < 20000 * w + 20000" using assms(1) by linarith
  also have "\<dots> \<le> w * 40000" using w by simp
  finally have "w * (x div w) < w * 40000" using assms(4) div_bounds(1) [OF w, of x] by linarith
  then show "x div w < 40000" using w by simp
qed

lemma bucket_idx_inside:
  assumes "mn \<le> val" and "val \<le> mx" and "20000 \<le> mx - mn" and "fits_i64 (mx - mn)"
  obtains idx where "bucket_idx val mn mx = Some idx"
    and "int (unat idx) = (val - mn) div ((mx - mn) div 20000) + 1"
proof -
  define w where "w = (mx - mn) div 20000"
  note q = quotient_bound [OF w_def assms(3), of "val - mn"]
  have w: "0 < w" and q0: "0 \<le> (val - mn) div w" and q1: "(val - mn) div w < 40000"
    using q assms(1,2) by simp_all
  have "bucket_idx val mn mx = Some (word_of_int ((val - mn) div w + 1))"
    using assms w q0 by (simp add: bucket_idx_def NUM_BUCKETS_def Let_def sdiv_nonneg w_def)
  moreover have "int (unat (word_of_int ((val - mn) div w + 1) :: u32)) = (val - mn) div w + 1"
    using q0 q1 by (intro unat_word_of_int_small) simp_all
  ultimately show thesis using that by (simp add: w_def)
qed

lemma unat_overflow_bucket: "unat (of_nat NUM_BUCKETS + 1 :: u32) = NUM_BUCKETS + 1"
  by (simp add: NUM_BUCKETS_def)

lemma bucket_idx_below: "val < mn \<Longrightarrow> bucket_idx val mn mx = Some 0"
  by (simp add: bucket_idx_def)

lemma bucket_idx_above: "mn \<le> val \<Longrightarrow> mx < val \<Longrightarrow> bucket_idx val mn mx = Some (of_nat NUM_BUCKETS + 1)"
  by (simp add: bucket_idx_def)

text \<open>A range whose length is a multiple of the number of buckets never leaves the table.\<close>

lemma bucket_idx_table:
  assumes "20000 \<le> mx - mn" and "fits_i64 (mx - mn)" and "20000 dvd (mx - mn)"
  shows "\<exists>idx. bucket_idx val mn mx = Some idx \<and> unat idx \<le> NUM_BUCKETS + 1"
proof (cases "mn \<le> val \<and> val \<le> mx")
  case True
  then obtain idx where idx: "bucket_idx val mn mx = Some idx"
    and eq: "int (unat idx) = (val - mn) div ((mx - mn) div 20000) + 1"
    using assms(1,2) bucket_idx_inside by blast
  define w where "w = (mx - mn) div 20000"
  have w: "0 < w" and r: "mx - mn = w * 20000" using assms unfolding w_def by auto
  have "w * ((val - mn) div w) \<le> val - mn" by (rule div_bounds(1) [OF w])
  with True r have "w * ((val - mn) div w) \<le> w * 20000" by linarith
  then have "(val - mn) div w \<le> 20000" using w by simp
  with idx eq show ?thesis by (auto simp: w_def NUM_BUCKETS_def simp del: of_nat_unat)
next
  case False
  then consider "val < mn" | "mn \<le> val" "mx < val" by linarith
  then show ?thesis
    by cases (auto simp: bucket_idx_below bucket_idx_above unat_overflow_bucket)
qed

text \<open>In general the last buckets of a range can run past the table, but by less than 400 slots
  when buckets are at least 50 wide.\<close>

lemma bucket_idx_near_table:
  assumes "1000000 \<le> mx - mn" and "fits_i64 (mx - mn)"
  shows "\<exists>idx. bucket_idx val mn mx = Some idx \<and> unat idx \<le> 20400"
proof (cases "mn \<le> val \<and> val \<le> mx")
  case True
  then obtain idx where idx: "bucket_idx val mn mx = Some idx"
    and eq: "int (unat idx) = (val - mn) div ((mx - mn) div 20000) + 1"
    using assms bucket_idx_inside [of mn val mx] by auto
  define w where "w = (mx - mn) div 20000"
  have w: "50 \<le> w" and r: "mx - mn < w * 20000 + 20000" using assms unfolding w_def by linarith+
  have "w * ((val - mn) div w) \<le> val - mn" using w by (intro div_bounds(1)) simp
  with True r w have "w * ((val - mn) div w) < w * 20400" by linarith
  then have "(val - mn) div w < 20400" using w by simp
  with idx eq show ?thesis by (auto simp: w_def simp del: of_nat_unat)
next
  case False
  then consider "val < mn" | "mn \<le> val" "mx < val" by linarith
  then show ?thesis
    by cases (auto simp: bucket_idx_below bucket_idx_above unat_overflow_bucket NUM_BUCKETS_def)
qed

text \<open>The intervals for which no signed conversion or subtraction overflows.\<close>

definition interval_ok :: "u64 \<Rightarrow> bool" where
  "interval_ok I \<longleftrightarrow> unat I + OFFSET < 2 ^ 63"

lemma bucket_ranges_values:
  assumes "interval_ok I" and "bucket_ranges I = (rmin, rmax, amin, amax)"
  shows "sint rmax - sint rmin = 2000000" and "sint amin = 0" and "sint amax = int (unat I) + 1000000"
proof -
  have I: "unat I + 1000000 < 2 ^ 63" using assms(1) by (simp add: interval_ok_def OFFSET_def)
  have add: "unat (I + 1000000) = unat I + 1000000" using I by (subst unat_add_lem [THEN iffD1]) auto
  then show "sint amin = 0" "sint amax = int (unat I) + 1000000"
    using assms(2) I sint_small [of "I + 1000000"]
    by (auto simp: bucket_ranges_def Let_def OFFSET_def split: if_splits)
  show "sint rmax - sint rmin = 2000000"
  proof (cases "I < 1000000")
    case True
    then show ?thesis using assms(2) by (auto simp: bucket_ranges_def Let_def OFFSET_def)
  next
    case False
    then have le: "(1000000 :: u64) \<le> I" by simp
    then have sub: "unat (I - 1000000) = unat I - 1000000" and ge: "1000000 \<le> unat I"
      by (simp_all add: unat_sub word_le_nat_alt)
    have "sint (I - 1000000) = int (unat I) - 1000000" "sint (I + 1000000) = int (unat I) + 1000000"
      using I sint_small [of "I + 1000000"] sint_small [of "I - 1000000"] add sub ge by auto
    then show ?thesis using assms(2) False by (auto simp: bucket_ranges_def Let_def OFFSET_def)
  qed
qed

section \<open>What a client of an agent relies on\<close>

text \<open>
  A measuring program only calls \<^verbatim>\<open>agent->write\<close>. Whatever its kind, an agent whose state stands for
  the payloads \<open>ps\<close> accepts one more without undefined behaviour and then stands for \<open>ps @ [p]\<close>.
  The three kinds below are interpretations of this contract.
\<close>

locale measuring =
  fixes holds :: "persistence_agent \<Rightarrow> pingpong_payload list \<Rightarrow> bool"
  assumes write_step: "holds ag ps \<Longrightarrow> \<exists>r ag'. agent_write ag p = Some (r, ag') \<and> holds ag' (ps @ [p])"
begin

lemma writes: "holds ag ps \<Longrightarrow> \<exists>ag'. agent_writes ag rs = Some ag' \<and> holds ag' (ps @ rs)"
proof (induction rs arbitrary: ag ps)
  case Nil
  then show ?case by simp
next
  case (Cons r rs)
  obtain c ag1 where "agent_write ag r = Some (c, ag1)" "holds ag1 (ps @ [r])"
    using write_step [OF Cons.prems] by blast
  with Cons.IH [of ag1 "ps @ [r]"] show ?case by simp
qed

lemma writes_from_start: "holds ag [] \<Longrightarrow> \<exists>ag'. agent_writes ag ps = Some ag' \<and> holds ag' ps"
  using writes [of ag "[]" ps] by simp

end

section \<open>The bucket agent as a histogram\<close>

text \<open>
  The specification of the bucket agent. The first payload only opens the measurement; later ones
  are accounted against the last accepted payload unless one of their timestamps runs backwards.
  \<open>recorded\<close> lists the accounted pairs, \<open>rel_bucket\<close> and \<open>abs_bucket\<close> the slot of a value.
\<close>

definition backwards :: "pingpong_payload \<Rightarrow> pingpong_payload \<Rightarrow> bool" where
  "backwards q p \<longleftrightarrow> (\<exists>i\<in>set [0..<4]. ts p i < ts q i)"

fun recorded :: "pingpong_payload \<Rightarrow> pingpong_payload list \<Rightarrow> (pingpong_payload \<times> pingpong_payload) list" where
  "recorded q [] = []"
| "recorded q (p # ps) =
     (if \<not> valid_pingpong_payload q then recorded p ps
      else if backwards q p then recorded q ps
      else (q, p) # recorded p ps)"

definition rel_diff :: "nat \<Rightarrow> pingpong_payload \<times> pingpong_payload \<Rightarrow> u64" where
  "rel_diff i x = ts (snd x) i - ts (fst x) i"

definition rel_bucket :: "u64 \<Rightarrow> u64 \<Rightarrow> nat" where
  "rel_bucket I d =
     (case bucket_ranges I of (rmin, rmax, amin, amax) \<Rightarrow> unat (the (bucket_idx (sint d) (sint rmin) (sint rmax))))"

definition abs_bucket :: "u64 \<Rightarrow> u64 \<Rightarrow> nat" where
  "abs_bucket I d =
     (case bucket_ranges I of (rmin, rmax, amin, amax) \<Rightarrow> unat (the (bucket_idx (sint d) (sint amin) (sint amax))))"

definition rel_count :: "u64 \<Rightarrow> nat \<Rightarrow> nat \<Rightarrow> (pingpong_payload \<times> pingpong_payload) list \<Rightarrow> nat" where
  "rel_count I i n H = length (filter (\<lambda>x. rel_bucket I (rel_diff i x) = n) H)"

definition abs_count :: "u64 \<Rightarrow> nat \<Rightarrow> (pingpong_payload \<times> pingpong_payload) list \<Rightarrow> nat" where
  "abs_count I n H = length (filter (\<lambda>x. abs_bucket I (compute_latency (snd x)) = n) H)"

text \<open>The effect of one column as a total update, and the state that a history leads to.\<close>

definition rel_bump :: "nat \<Rightarrow> nat \<Rightarrow> u64 \<Rightarrow> bucket_data \<Rightarrow> bucket_data" where
  "rel_bump i k v a =
     a\<lparr>min_values := (min_values a)\<lparr>rel_latency := (rel_latency (min_values a))(i := min (rel_latency (min_values a) i) v)\<rparr>,
       max_values := (max_values a)\<lparr>rel_latency := (rel_latency (max_values a))(i := max (rel_latency (max_values a) i) v)\<rparr>,
       buckets := (buckets a)(k := (buckets a k)\<lparr>rel_latency := (rel_latency (buckets a k))(i := rel_latency (buckets a k) i + 1)\<rparr>)\<rparr>"

definition abs_bump :: "nat \<Rightarrow> u64 \<Rightarrow> bucket_data \<Rightarrow> bucket_data" where
  "abs_bump k v a =
     a\<lparr>min_values := (min_values a)\<lparr>abs_latency := min (abs_latency (min_values a)) v\<rparr>,
       max_values := (max_values a)\<lparr>abs_latency := max (abs_latency (max_values a)) v\<rparr>,
       buckets := (buckets a)(k := (buckets a k)\<lparr>abs_latency := abs_latency (buckets a k) + 1\<rparr>)\<rparr>"

definition hist_inv :: "u64 \<Rightarrow> (pingpong_payload \<times> pingpong_payload) list \<Rightarrow> bucket_data \<Rightarrow> bool" where
  "hist_inv I H a \<longleftrightarrow> send_interval a = I \<and> 816040 \<le> bucket_mem a
     \<and> (\<forall>i<4. \<forall>n. rel_latency (buckets a n) i = of_nat (rel_count I i n H))
     \<and> (\<forall>n. abs_latency (buckets a n) = of_nat (abs_count I n H))
     \<and> (\<forall>i<4. rel_latency (min_values a) i = foldl min (-1) (map (rel_diff i) H)
            \<and> rel_latency (max_values a) i = foldl max 0 (map (rel_diff i) H))
     \<and> abs_latency (min_values a) = foldl min (-1) (map (compute_latency \<circ> snd) H)
     \<and> abs_latency (max_values a) = foldl max 0 (map (compute_latency \<circ> snd) H)"

lemma rel_bump_sel [simp]:
  "rel_latency (buckets (rel_bump i k v a) n) j = rel_latency (buckets a n) j + (if n = k \<and> j = i then 1 else 0)"
  "abs_latency (buckets (rel_bump i k v a) n) = abs_latency (buckets a n)"
  "rel_latency (min_values (rel_bump i k v a)) j
     = (if j = i then min (rel_latency (min_values a) i) v else rel_latency (min_values a) j)"
  "rel_latency (max_values (rel_bump i k v a)) j
     = (if j = i then max (rel_latency (max_values a) i) v else rel_latency (max_values a) j)"
  "abs_latency (min_values (rel_bump i k v a)) = abs_latency (min_values a)"
  "abs_latency (max_values (rel_bump i k v a)) = abs_latency (max_values a)"
  "tot_packets (rel_bump i k v a) = tot_packets a" "send_interval (rel_bump i k v a) = send_interval a"
  "bucket_mem (rel_bump i k v a) = bucket_mem a" "prev_payload (rel_bump i k v a) = prev_payload a"
  by (simp_all add: rel_bump_def)

lemma abs_bump_sel [simp]:
  "rel_latency (buckets (abs_bump k v a) n) j = rel_latency (buckets a n) j"
  "abs_latency (buckets (abs_bump k v a) n) = abs_latency (buckets a n) + (if n = k then 1 else 0)"
  "rel_latency (min_values (abs_bump k v a)) j = rel_latency (min_values a) j"
  "rel_latency (max_values (abs_bump k v a)) j = rel_latency (max_values a) j"
  "abs_latency (min_values (abs_bump k v a)) = min (abs_latency (min_values a)) v"
  "abs_latency (max_values (abs_bump k v a)) = max (abs_latency (max_values a)) v"
  "tot_packets (abs_bump k v a) = tot_packets a" "send_interval (abs_bump k v a) = send_interval a"
  "bucket_mem (abs_bump k v a) = bucket_mem a" "prev_payload (abs_bump k v a) = prev_payload a"
  by (simp_all add: abs_bump_def)

lemma rel_bucket_table:
  assumes "interval_ok I" and "bucket_ranges I = (rmin, rmax, amin, amax)"
  shows "\<exists>idx. bucket_idx (sint d) (sint rmin) (sint rmax) = Some idx \<and> unat idx \<le> NUM_BUCKETS + 1"
  using bucket_ranges_values(1) [OF assms] by (intro bucket_idx_table) (simp_all add: fits_i64_def)

lemma abs_bucket_near:
  assumes "interval_ok I" and "bucket_ranges I = (rmin, rmax, amin, amax)"
  shows "\<exists>idx. bucket_idx (sint d) (sint amin) (sint amax) = Some idx \<and> unat idx \<le> 20400"
  using bucket_ranges_values(2,3) [OF assms] assms(1)
  by (intro bucket_idx_near_table) (auto simp: fits_i64_def interval_ok_def OFFSET_def simp del: of_nat_unat)

lemma rel_bucket_le: "interval_ok I \<Longrightarrow> rel_bucket I d \<le> NUM_BUCKETS + 1"
  using rel_bucket_table [of I _ _ _ _ d] by (cases "bucket_ranges I") (force simp: rel_bucket_def)

lemma abs_bucket_le: "interval_ok I \<Longrightarrow> abs_bucket I d \<le> 20400"
  using abs_bucket_near [of I _ _ _ _ d] by (cases "bucket_ranges I") (force simp: abs_bucket_def)

lemma upd_min: "(if v < rel_latency b i then b\<lparr>rel_latency := (rel_latency b)(i := v)\<rparr> else b)
    = b\<lparr>rel_latency := (rel_latency b)(i := min (rel_latency b i) v)\<rparr>"
  by (simp add: min_def not_less)

lemma upd_max: "(if rel_latency b i < v then b\<lparr>rel_latency := (rel_latency b)(i := v)\<rparr> else b)
    = b\<lparr>rel_latency := (rel_latency b)(i := max (rel_latency b i) v)\<rparr>"
  by (auto simp: max_def not_less)

lemma upd_abs:
  "(if v < abs_latency b then b\<lparr>abs_latency := v\<rparr> else b) = b\<lparr>abs_latency := min (abs_latency b) v\<rparr>"
  "(if abs_latency b < v then b\<lparr>abs_latency := v\<rparr> else b) = b\<lparr>abs_latency := max (abs_latency b) v\<rparr>"
  by (auto simp: min_def max_def not_less)

lemma write_rel_column_eq:
  assumes "interval_ok I" and r: "bucket_ranges I = (rmin, rmax, amin, amax)"
    and "816040 \<le> bucket_mem a" and "i < 4"
  shows "write_rel_column rmin rmax d i a = Some (rel_bump i (rel_bucket I (d i)) (d i) a)"
proof -
  from rel_bucket_table [OF assms(1,2)] obtain idx
    where idx: "bucket_idx (sint (d i)) (sint rmin) (sint rmax) = Some idx" "unat idx \<le> NUM_BUCKETS + 1"
    by blast
  have "rel_bucket I (d i) = unat idx" using idx r by (simp add: rel_bucket_def)
  with idx assms(3,4) show ?thesis
    by (simp add: write_rel_column_def Let_def rel_bump_def upd_min upd_max NUM_BUCKETS_def)
qed

lemma write_abs_column_eq:
  assumes "interval_ok I" and r: "bucket_ranges I = (rmin, rmax, amin, amax)" and "816040 \<le> bucket_mem a"
  shows "write_abs_column amin amax v a = Some (abs_bump (abs_bucket I v) v a)"
proof -
  from abs_bucket_near [OF assms(1,2)] obtain idx
    where idx: "bucket_idx (sint v) (sint amin) (sint amax) = Some idx" "unat idx \<le> 20400" by blast
  have "abs_bucket I v = unat idx" using idx r by (simp add: abs_bucket_def)
  with idx assms(3) show ?thesis
    by (simp add: write_abs_column_def Let_def abs_bump_def upd_abs)
qed

lemma rel_count_snoc: "rel_count I i n (H @ [x]) = rel_count I i n H + (if rel_bucket I (rel_diff i x) = n then 1 else 0)"
  by (simp add: rel_count_def)

lemma abs_count_snoc:
  "abs_count I n (H @ [x]) = abs_count I n H + (if abs_bucket I (compute_latency (snd x)) = n then 1 else 0)"
  by (simp add: abs_count_def)

lemma less_4_cases: "(i::nat) < 4 \<longleftrightarrow> i = 0 \<or> i = 1 \<or> i = 2 \<or> i = 3"
  by auto

text \<open>The state that accounting the pair \<open>x\<close> leads to.\<close>

definition hist_step :: "u64 \<Rightarrow> pingpong_payload \<times> pingpong_payload \<Rightarrow> bucket_data \<Rightarrow> bucket_data" where
  "hist_step I x a =
     (let b = (\<lambda>i. rel_bump i (rel_bucket I (rel_diff i x)) (rel_diff i x)); l = compute_latency (snd x)
      in abs_bump (abs_bucket I l) l (b 3 (b 2 (b 1 (b 0 a)))))"

lemma hist_step_inv:
  assumes "hist_inv I H a" shows "hist_inv I (H @ [x]) (hist_step I x a)"
  using assms
  by (simp add: hist_inv_def hist_step_def Let_def less_4_cases rel_count_snoc abs_count_snoc all_conj_distrib)

lemma backwards_iff:
  "backwards q p \<longleftrightarrow> ts0 p < ts0 q \<or> ts1 p < ts1 q \<or> ts2 p < ts2 q \<or> ts3 p < ts3 q"
proof -
  have "set [0..<4] = {0, 1, 2, 3 :: nat}" by auto
  then show ?thesis by (simp add: backwards_def)
qed

lemma hist_inv_frame:
  "hist_inv I H (a\<lparr>tot_packets := t\<rparr>) = hist_inv I H a"
  "hist_inv I H (a\<lparr>prev_payload := p\<rparr>) = hist_inv I H a"
  by (simp_all add: hist_inv_def)

text \<open>Every branch of the update, for a mapping that covers the table and its overhang.\<close>

lemma bucket_update_cases:
  assumes "interval_ok (send_interval a)" and "816040 \<le> bucket_mem a"
  defines "a1 \<equiv> a\<lparr>tot_packets := tot_packets a + 1\<rparr>" and "q \<equiv> prev_payload a"
  shows "\<not> valid_pingpong_payload q \<Longrightarrow> \<exists>out. bucket_update a p = Some (-1, out, a1\<lparr>prev_payload := p\<rparr>)"
    and "valid_pingpong_payload q \<Longrightarrow> backwards q p \<Longrightarrow> \<exists>out. bucket_update a p = Some (-1, out, a1)"
    and "valid_pingpong_payload q \<Longrightarrow> \<not> backwards q p \<Longrightarrow>
      \<exists>out. bucket_update a p = Some (0, out, (hist_step (send_interval a) (q, p) a1)\<lparr>prev_payload := p\<rparr>)"
proof -
  obtain rmin rmax amin amax where r: "bucket_ranges (send_interval a) = (rmin, rmax, amin, amax)"
    by (cases "bucket_ranges (send_interval a)") auto
  show "\<not> valid_pingpong_payload q \<Longrightarrow> \<exists>out. bucket_update a p = Some (-1, out, a1\<lparr>prev_payload := p\<rparr>)"
    by (simp add: bucket_update_def a1_def q_def)
  show "valid_pingpong_payload q \<Longrightarrow> backwards q p \<Longrightarrow> \<exists>out. bucket_update a p = Some (-1, out, a1)"
    by (simp add: bucket_update_def a1_def q_def backwards_def Let_def)
  note cols = write_rel_column_eq [OF assms(1) r] write_abs_column_eq [OF assms(1) r]
  show "\<exists>out. bucket_update a p = Some (0, out, (hist_step (send_interval a) (q, p) a1)\<lparr>prev_payload := p\<rparr>)"
    if "valid_pingpong_payload q" "\<not> backwards q p"
    using that assms(2) r
    by (simp add: bucket_update_def a1_def q_def backwards_def Let_def cols hist_step_def rel_diff_def)
qed

fun last_accepted :: "pingpong_payload \<Rightarrow> pingpong_payload list \<Rightarrow> pingpong_payload" where
  "last_accepted q [] = q"
| "last_accepted q (p # ps) =
     (if \<not> valid_pingpong_payload q \<or> \<not> backwards q p then last_accepted p ps else last_accepted q ps)"

lemma bucket_update_inv:
  assumes "interval_ok I" and "hist_inv I H a"
  shows "\<exists>r out a'. bucket_update a p = Some (r, out, a')
     \<and> hist_inv I (H @ recorded (prev_payload a) [p]) a'
     \<and> tot_packets a' = tot_packets a + 1 \<and> prev_payload a' = last_accepted (prev_payload a) [p]
     \<and> (r = 0 \<longleftrightarrow> recorded (prev_payload a) [p] \<noteq> [])"
proof -
  have I: "send_interval a = I" and mem: "816040 \<le> bucket_mem a" using assms(2) by (simp_all add: hist_inv_def)
  note step = bucket_update_cases [of a p, unfolded I, OF assms(1) mem]
  consider "\<not> valid_pingpong_payload (prev_payload a)"
    | "valid_pingpong_payload (prev_payload a)" "backwards (prev_payload a) p"
    | "valid_pingpong_payload (prev_payload a)" "\<not> backwards (prev_payload a) p" by blast
  then show ?thesis
  proof cases
    case 1
    with step(1) assms(2) show ?thesis by (auto simp: hist_inv_frame)
  next
    case 2
    with step(2) assms(2) show ?thesis by (auto simp: hist_inv_frame)
  next
    case 3
    have "tot_packets (hist_step I x b) = tot_packets b" for x b by (simp add: hist_step_def Let_def)
    with 3 step(3) assms(2) show ?thesis
      by (auto simp: hist_inv_frame intro!: hist_step_inv)
  qed
qed

lemma recorded_append: "recorded q (ps @ rs) = recorded q ps @ recorded (last_accepted q ps) rs"
  by (induction ps arbitrary: q) auto

lemma last_accepted_append: "last_accepted q (ps @ rs) = last_accepted (last_accepted q ps) rs"
  by (induction ps arbitrary: q) auto

text \<open>An agent that holds bucket data \<open>a\<close>.\<close>

definition bucket_agent :: "persistence_agent \<Rightarrow> bucket_data \<Rightarrow> bool" where
  "bucket_agent ag a \<longleftrightarrow> write_op ag = Write_buckets \<and> (\<exists>d. data ag = Some d \<and> paux d = Aux_buckets a)"

lemma agent_write_buckets:
  assumes "bucket_agent ag a" and "bucket_update a p = Some (r, out, a')"
  shows "\<exists>ag'. agent_write ag p = Some (r, ag') \<and> bucket_agent ag' a'"
  using assms by (auto simp: bucket_agent_def agent_write_def persistence_write_buckets_def)

definition bucket_holds :: "u64 \<Rightarrow> persistence_agent \<Rightarrow> pingpong_payload list \<Rightarrow> bool" where
  "bucket_holds I ag ps \<longleftrightarrow> interval_ok I \<and> (\<exists>a. bucket_agent ag a \<and> hist_inv I (recorded zero_payload ps) a
     \<and> tot_packets a = of_nat (length ps) \<and> prev_payload a = last_accepted zero_payload ps)"

interpretation bucket_agents: measuring "bucket_holds I" for I
proof unfold_locales
  fix ag ps p assume "bucket_holds I ag ps"
  then obtain a where I: "interval_ok I" and a: "bucket_agent ag a" "hist_inv I (recorded zero_payload ps) a"
    "tot_packets a = of_nat (length ps)" "prev_payload a = last_accepted zero_payload ps"
    unfolding bucket_holds_def by blast
  obtain r out a' where up: "bucket_update a p = Some (r, out, a')"
    and a': "hist_inv I (recorded zero_payload ps @ recorded (prev_payload a) [p]) a'"
      "tot_packets a' = tot_packets a + 1" "prev_payload a' = last_accepted (prev_payload a) [p]"
    using bucket_update_inv [OF I a(2), of p] by blast
  obtain ag' where ag': "agent_write ag p = Some (r, ag')" "bucket_agent ag' a'"
    using agent_write_buckets [OF a(1) up] by blast
  have "bucket_holds I ag' (ps @ [p])"
    unfolding bucket_holds_def using I ag'(2) a a'
    by (intro conjI exI [of _ a'])
      (simp_all add: recorded_append last_accepted_append del: recorded.simps last_accepted.simps)
  with ag'(1) show "\<exists>r ag'. agent_write ag p = Some (r, ag') \<and> bucket_holds I ag' (ps @ [p])" by blast
qed

section \<open>The min/max agent\<close>

text \<open>The first payload of a list that has the least (greatest) latency.\<close>

definition first_with :: "u64 \<Rightarrow> pingpong_payload list \<Rightarrow> pingpong_payload option" where
  "first_with l ps = find (\<lambda>p. compute_latency p = l) ps"

definition mm_inv :: "pingpong_payload list \<Rightarrow> min_max_latency_data \<Rightarrow> bool" where
  "mm_inv ps a \<longleftrightarrow> mm_min a = foldl min (-1) (map compute_latency ps)
     \<and> mm_max a = foldl max 0 (map compute_latency ps)
     \<and> (ps \<noteq> [] \<longrightarrow> first_with (mm_min a) ps = Some (min_payload a))
     \<and> (mm_max a \<noteq> 0 \<longrightarrow> first_with (mm_max a) ps = Some (max_payload a))"

lemma find_append: "find P (xs @ ys) = (case find P xs of None \<Rightarrow> find P ys | Some x \<Rightarrow> Some x)"
  by (induction xs) auto

lemma foldl_min_init: "foldl min a xs \<le> (a :: 'a::linorder)"
  by (induction xs arbitrary: a) (auto intro: order_trans [OF _ min.cobounded1])

lemma foldl_min_le: "x \<in> set xs \<Longrightarrow> foldl min a xs \<le> (x :: 'a::linorder)"
  by (induction xs arbitrary: a) (auto intro: order_trans [OF foldl_min_init min.cobounded2])

lemma foldl_max_init: "(a :: 'a::linorder) \<le> foldl max a xs"
  by (induction xs arbitrary: a) (auto intro: order_trans [OF max.cobounded1])

lemma foldl_max_ge: "x \<in> set xs \<Longrightarrow> (x :: 'a::linorder) \<le> foldl max a xs"
  by (induction xs arbitrary: a) (auto intro: order_trans [OF max.cobounded2 foldl_max_init])

lemma first_with_fresh:
  "(\<And>p. p \<in> set ps \<Longrightarrow> compute_latency p \<noteq> l) \<Longrightarrow> first_with l (ps @ [p]) = (if compute_latency p = l then Some p else None)"
proof -
  assume "\<And>q. q \<in> set ps \<Longrightarrow> compute_latency q \<noteq> l"
  then have "find (\<lambda>q. compute_latency q = l) ps = None" by (auto simp: find_None_iff)
  then show ?thesis by (simp add: first_with_def find_append)
qed

lemma first_with_old: "first_with l ps = Some q \<Longrightarrow> first_with l (ps @ [p]) = Some q"
  by (simp add: first_with_def find_append)

lemma compute_latency_less_max: "compute_latency p < - 1"
proof -
  have "unat (compute_latency p) < unat (- 1 :: u64)"
    using compute_latency_less [of p] by (simp add: unsigned_minus_1_eq_mask mask_eq_exp_minus_1)
  then show ?thesis by (simp add: word_less_nat_alt)
qed

lemma min_max_update_inv: "mm_inv ps a \<Longrightarrow> mm_inv (ps @ [p]) (min_max_update a p)"
proof -
  assume inv: "mm_inv ps a"
  let ?l = "compute_latency p" and ?a = "min_max_update a p"
  have mn: "mm_min ?a = min (mm_min a) ?l" and mx: "mm_max ?a = max (mm_max a) ?l"
    by (auto simp: min_max_update_def Let_def min_def max_def)
  have mp: "min_payload ?a = (if ?l < mm_min a then p else min_payload a)"
    and xp: "max_payload ?a = (if mm_max a < ?l then p else max_payload a)"
    by (simp_all add: min_max_update_def Let_def)
  have lo: "mm_min a \<le> compute_latency q" and hi: "compute_latency q \<le> mm_max a" if "q \<in> set ps" for q
    using inv that foldl_min_le [of "compute_latency q" "map compute_latency ps" "-1"]
      foldl_max_ge [of "compute_latency q" "map compute_latency ps" 0] by (auto simp: mm_inv_def)
  have "first_with (mm_min ?a) (ps @ [p]) = Some (min_payload ?a)"
  proof (cases "?l < mm_min a")
    case True
    then have "compute_latency q \<noteq> ?l" if "q \<in> set ps" for q using lo [OF that] by auto
    with True mn mp show ?thesis by (simp add: first_with_fresh min.absorb4)
  next
    case False
    then have "ps \<noteq> []" using inv compute_latency_less_max [of p] by (auto simp: mm_inv_def)
    with False mn mp inv show ?thesis by (auto simp: mm_inv_def min_def intro: first_with_old)
  qed
  moreover have "first_with (mm_max ?a) (ps @ [p]) = Some (max_payload ?a)" if "mm_max ?a \<noteq> 0"
  proof (cases "mm_max a < ?l")
    case True
    then have "compute_latency q \<noteq> ?l" if "q \<in> set ps" for q using hi [OF that] by auto
    with True mx xp show ?thesis by (simp add: first_with_fresh max.absorb4)
  next
    case False
    with that mx xp inv show ?thesis by (auto simp: mm_inv_def max_def intro: first_with_old)
  qed
  ultimately show ?thesis using inv by (simp add: mm_inv_def mn mx)
qed

definition mm_agent :: "persistence_agent \<Rightarrow> cfile \<Rightarrow> min_max_latency_data \<Rightarrow> bool" where
  "mm_agent ag f a \<longleftrightarrow> write_op ag = Write_min_max_latency \<and> close_op ag = Close_min_max
     \<and> data ag = Some \<lparr>pfile = Some f, paux = Aux_min_max a\<rparr>"

definition mm_holds :: "cfile \<Rightarrow> persistence_agent \<Rightarrow> pingpong_payload list \<Rightarrow> bool" where
  "mm_holds f ag ps \<longleftrightarrow> (\<exists>a. mm_agent ag f a \<and> mm_inv ps a)"

interpretation mm_agents: measuring "mm_holds f" for f
  by unfold_locales
    (auto simp: mm_holds_def agent_write_def persistence_write_min_max_latency_def mm_agent_def
      intro: min_max_update_inv)

section \<open>The all-timestamps agent\<close>

definition all_holds :: "cfile \<Rightarrow> persistence_agent \<Rightarrow> pingpong_payload list \<Rightarrow> bool" where
  "all_holds f ag ps \<longleftrightarrow> write_op ag = Write_all_timestamps \<and> \<not> f_write_fails f
     \<and> data ag = Some \<lparr>pfile = Some (f\<lparr>f_out := f_out f @ concat (map dat_line ps)\<rparr>), paux = Aux_NULL\<rparr>"

interpretation all_agents: measuring "all_holds f" for f
  by unfold_locales
    (auto simp: all_holds_def agent_write_def persistence_write_all_timestamps_def fprintf_def)

text \<open>Reading a data file back: lines, then blank-separated decimal numbers.\<close>

definition parse_dat :: "string \<Rightarrow> nat list list" where
  "parse_dat s = map (\<lambda>l. map read_nat (split_on CHR '' '' l)) (butlast (split_on newline s))"

lemma show_u64_sep [simp]: "\<not> is_digit c \<Longrightarrow> c \<notin> set (show_u64 w)"
  by (simp add: show_u64_def)

lemma set_join_with: "set (join_with c ws) \<subseteq> insert c (\<Union> (set ` set ws))"
  by (induction c ws rule: join_with.induct) auto

lemma dat_line_no_newline:
  "newline \<notin> set (join_with CHR '' '' (map show_u64 ws))"
  using set_join_with [of "CHR '' ''" "map show_u64 ws"] by (auto simp: newline_def)

lemma split_dat:
  "split_on newline (concat (map dat_line ps)) =
     map (\<lambda>p. join_with CHR '' '' (map show_u64 (dat_words p))) ps @ [[]]"
  by (induction ps) (simp_all add: dat_line_def split_on_append dat_line_no_newline)

lemma parse_dat_lines: "parse_dat (concat (map dat_line ps)) = map (map unat \<circ> dat_words) ps"
proof -
  have "map read_nat (split_on CHR '' '' (join_with CHR '' '' (map show_u64 ws))) = map unat ws" if "ws \<noteq> []" for ws
    using that by (subst split_on_join_with) (auto simp: show_u64_def)
  moreover have "dat_words p \<noteq> []" for p by (simp add: dat_words_def)
  ultimately show ?thesis by (simp add: parse_dat_def split_dat)
qed

section \<open>Initialisation: lemmas\<close>

lemmas flag_defs = PERSISTENCE_F_FILE_def PERSISTENCE_F_STDOUT_def PERSISTENCE_M_ALL_TIMESTAMPS_def
  PERSISTENCE_M_MIN_MAX_LATENCY_def PERSISTENCE_M_BUCKETS_def

lemma init_buckets_agent:
  assumes "persistence_init env filename fl I = Some (Some ag)"
    and "fl AND PERSISTENCE_M_MIN_MAX_LATENCY = 0" and "fl AND PERSISTENCE_M_BUCKETS \<noteq> 0"
    and "e_mmap env = Some mem" and "816040 \<le> mem"
    and "interval_ok I"
  shows "bucket_holds I ag []"
  using assms
  by (auto simp: persistence_init_def persistence_init0_def persistence_init_buckets_def Let_def
      bucket_holds_def bucket_agent_def hist_inv_def rel_count_def abs_count_def zero_bucket_def
      split: if_splits option.splits)

lemma bucket_run:
  assumes "persistence_init env filename fl I = Some (Some ag)"
    and "fl AND PERSISTENCE_M_MIN_MAX_LATENCY = 0" and "fl AND PERSISTENCE_M_BUCKETS \<noteq> 0"
    and "e_mmap env = Some mem" and "816040 \<le> mem" and "interval_ok I"
  shows "\<exists>ag' a. agent_writes ag ps = Some ag' \<and> bucket_agent ag' a
     \<and> hist_inv I (recorded zero_payload ps) a \<and> tot_packets a = of_nat (length ps)"
  using bucket_agents.writes_from_start [OF init_buckets_agent [OF assms], of ps]
  by (auto simp: bucket_holds_def)

text \<open>The stream that initialisation selects.\<close>

definition init_stream :: "init_env \<Rightarrow> string option \<Rightarrow> u32 \<Rightarrow> cfile option" where
  "init_stream env filename fl =
     (if filename = None \<or> fl AND PERSISTENCE_F_STDOUT \<noteq> 0 then Some (e_stdout env) else e_fopen env)"

lemma init_stream_junk [simp]: "init_stream (env\<lparr>e_malloc_min_max := x\<rparr>) = init_stream env"
  by (auto simp: init_stream_def fun_eq_iff)

lemma init_mm_agent:
  assumes "persistence_init env filename fl I = Some (Some ag)" and "fl AND PERSISTENCE_M_MIN_MAX_LATENCY \<noteq> 0"
  shows "\<exists>f. mm_holds f ag [] \<and> init_stream env filename fl = Some f"
  using assms
  by (auto simp: persistence_init_def persistence_init0_def persistence_init_min_max_latency_def Let_def
      init_stream_def mm_holds_def mm_agent_def mm_inv_def split: if_splits option.splits)

lemma sum_rel_count:
  assumes "interval_ok I" shows "(\<Sum>n<NUM_BUCKETS + 2. rel_count I i n H) = length H"
proof (induction H rule: rev_induct)
  case Nil
  then show ?case by (simp add: rel_count_def)
next
  case (snoc x H)
  have "rel_bucket I (rel_diff i x) < NUM_BUCKETS + 2" using rel_bucket_le [OF assms, of "rel_diff i x"] by simp
  then show ?case using snoc by (simp add: rel_count_snoc sum.distrib del: lessThan_Suc)
qed

lemma min_max_report_eq:
  assumes "mm_inv ps a" and "mm_inv ps b" shows "min_max_report a f = min_max_report b f"
proof -
  have eq: "mm_min a = mm_min b" "mm_max a = mm_max b" using assms by (simp_all add: mm_inv_def)
  have "min_payload a = min_payload b" if "mm_min a \<noteq> -1"
    using assms that eq by (cases "ps = []") (auto simp: mm_inv_def)
  moreover have "max_payload a = max_payload b" if "mm_max a \<noteq> 0"
    using assms that eq by (auto simp: mm_inv_def)
  ultimately show ?thesis using eq by (simp add: min_max_report_def)
qed

section \<open>Agents without undefined writes\<close>

text \<open>A persistence agent whose writes always have a defined result.\<close>

definition agent_total :: "persistence_agent \<Rightarrow> bool" where
  "agent_total ag \<longleftrightarrow> (\<forall>ps. agent_writes ag ps \<noteq> None)"

lemma agent_writes_snoc:
  "agent_writes ag (ps @ [p]) = (case agent_writes ag ps of None \<Rightarrow> None | Some ag' \<Rightarrow> map_option snd (agent_write ag' p))"
  by (induction ag ps rule: agent_writes.induct) (auto split: option.splits)

lemma agent_total_next:
  assumes "agent_total ag0" and "agent_writes ag0 ps = Some ag"
  shows "\<exists>rc ag'. agent_write ag p = Some (rc, ag') \<and> agent_writes ag0 (ps @ [p]) = Some ag'"
proof -
  have "agent_writes ag0 (ps @ [p]) \<noteq> None" using assms(1) by (simp add: agent_total_def)
  with assms(2) show ?thesis by (auto simp: agent_writes_snoc split: option.splits)
qed

section \<open>The agent for all time stamps, from its creation to its closing\<close>

lemma all_timestamps_start:
  assumes "persistence_init env (Some filename) PERSISTENCE_M_ALL_TIMESTAMPS I = Some (Some ag)"
    and "e_fopen env = Some f" and "\<not> f_write_fails f"
  shows "all_holds f ag []" and "close_op ag = Close_plain" and "agent_total ag"
proof -
  show a: "all_holds f ag []" using assms
    by (auto simp: all_holds_def persistence_init_def persistence_init0_def flag_defs Let_def split: if_splits)
  show "close_op ag = Close_plain" using assms
    by (auto simp: persistence_init_def persistence_init0_def flag_defs Let_def split: if_splits)
  show "agent_total ag" unfolding agent_total_def using all_agents.writes_from_start [OF a] by force
qed

lemma agent_write_close_op:
  assumes "agent_write ag p = Some (r, ag')"
  shows "close_op ag' = close_op ag"
  using assms
  by (auto simp: agent_write_def persistence_write_all_timestamps_def persistence_write_min_max_latency_def
      persistence_write_buckets_def Let_def split: write_fn.splits option.splits pers_aux.splits if_splits prod.splits)

lemma agent_writes_close_op: "agent_writes ag ps = Some ag' \<Longrightarrow> close_op ag' = close_op ag"
  by (induction ps arbitrary: ag) (auto split: option.splits dest: agent_write_close_op)

lemma all_timestamps_end:
  assumes "persistence_init env (Some filename) PERSISTENCE_M_ALL_TIMESTAMPS I = Some (Some ag)"
    and "e_fopen env = Some f" and "\<not> f_write_fails f" and "\<not> f_close_fails f" and "f_out f = ''''"
    and "agent_writes ag ps = Some ag'"
  shows "\<exists>f'. agent_close ag' = Some (0, Some f', True) \<and> parse_dat (f_out f') = map (map unat \<circ> dat_words) ps"
proof -
  note st = all_timestamps_start [OF assms(1-3)]
  have h: "all_holds f ag' ps" using all_agents.writes_from_start [OF st(1), of ps] assms(6) by auto
  have "agent_close ag' = Some (persistence_close ag')" using agent_writes_close_op [OF assms(6)] st(2) by (simp add: agent_close_def)
  also have "persistence_close ag' = (0, Some (f\<lparr>f_out := concat (map dat_line ps)\<rparr>), True)"
    using h assms(4,5) by (simp add: all_holds_def persistence_close_def)
  finally show ?thesis by (simp add: parse_dat_lines)
qed

section \<open>Properties\<close>

text \<open>C22: the bucket agent is a histogram. From initialisation with a representable interval and a
  mapping that covers the table and its overhang, any sequence of writes is free of undefined
  behaviour; the packet counter is the number of writes; every counter of every column is the number
  of accounted pairs whose value falls in that bucket; and the extremes are the minimum and maximum
  of the accounted values.\<close>

theorem buckets_histogram:
  assumes "persistence_init env filename fl I = Some (Some ag)"
    and "fl AND PERSISTENCE_M_MIN_MAX_LATENCY = 0" and "fl AND PERSISTENCE_M_BUCKETS \<noteq> 0"
    and "e_mmap env = Some mem" and "816040 \<le> mem" and "interval_ok I"
  shows "\<exists>ag' a. agent_writes ag ps = Some ag' \<and> bucket_agent ag' a
    \<and> tot_packets a = of_nat (length ps)
    \<and> (\<forall>i<4. \<forall>n. rel_latency (buckets a n) i = of_nat (rel_count I i n (recorded zero_payload ps)))
    \<and> (\<forall>n. abs_latency (buckets a n) = of_nat (abs_count I n (recorded zero_payload ps)))
    \<and> (\<forall>i<4. rel_latency (min_values a) i = foldl min (-1) (map (rel_diff i) (recorded zero_payload ps))
           \<and> rel_latency (max_values a) i = foldl max 0 (map (rel_diff i) (recorded zero_payload ps)))"
proof -
  obtain ag' a where run: "agent_writes ag ps = Some ag'" "bucket_agent ag' a"
    "hist_inv I (recorded zero_payload ps) a" "tot_packets a = of_nat (length ps)"
    using bucket_run [OF assms, of ps] by blast
  show ?thesis
    using run by (intro exI [of _ ag'] exI [of _ a]) (simp add: hist_inv_def)
qed

text \<open>A concrete environment and agent for the witnesses below.\<close>

definition demo_file :: cfile where
  "demo_file = \<lparr>f_stdout = False, f_out = '''', f_write_fails = False, f_close_fails = False\<rparr>"

definition demo_env :: init_env where
  "demo_env = \<lparr>e_malloc_agent = True, e_malloc_data = True,
     e_malloc_min_max = Some \<lparr>mm_min = 7, mm_max = 7, min_payload = zero_payload, max_payload = zero_payload\<rparr>,
     e_calloc_buckets = True, e_fopen = Some demo_file, e_stdout = demo_file\<lparr>f_stdout := True\<rparr>,
     e_mmap = Some 2097152\<rparr>"

definition demo_agent :: "u32 \<Rightarrow> u64 \<Rightarrow> persistence_agent" where
  "demo_agent fl I = the (the (persistence_init demo_env (Some ''no-bypass.dat'') fl I))"

definition demo_payload :: "u64 \<Rightarrow> u64 \<Rightarrow> u64 \<Rightarrow> pingpong_payload" where
  "demo_payload i t l = (new_pingpong_payload i)\<lparr>ts0 := t, ts1 := t + l, ts2 := t + l, ts3 := t + 2 * l\<rparr>"

lemma demo_init: "persistence_init demo_env (Some ''no-bypass.dat'') fl I = Some (Some (demo_agent fl I))"
  by (simp add: demo_agent_def persistence_init_def persistence_init0_def demo_env_def Let_def
      persistence_init_min_max_latency_def persistence_init_buckets_def)

lemma demo_recorded:
  assumes "t \<le> t'" and "t + l \<le> t' + l'" and "t + 2 * l \<le> t' + 2 * l'"
  shows "recorded zero_payload [demo_payload i t l, demo_payload j t' l']
           = [(demo_payload i t l, demo_payload j t' l')]"
proof -
  have "valid_pingpong_payload (demo_payload i t l)"
    by (simp add: demo_payload_def valid_pingpong_payload_def)
  moreover have "\<not> backwards (demo_payload i t l) (demo_payload j t' l')"
    using assms by (auto simp: demo_payload_def backwards_iff)
  ultimately show ?thesis by simp
qed

lemma demo_agent_total: "agent_total (demo_agent 4 0)"
proof -
  have "all_holds demo_file (demo_agent 4 0) []"
    by (simp add: demo_agent_def all_holds_def persistence_init_def persistence_init0_def Let_def flag_defs demo_env_def demo_file_def)
  then show ?thesis using all_agents.writes_from_start by (force simp: agent_total_def)
qed

theorem buckets_histogram_witness:
  "\<exists>ag' a. agent_writes (demo_agent 16 1000000) [demo_payload 1 0 5000, demo_payload 2 1000100 5000] = Some ag'
     \<and> tot_packets a = 2 \<and> bucket_agent ag' a \<and> rel_latency (max_values a) 0 = 1000100"
proof -
  let ?ps = "[demo_payload 1 0 5000, demo_payload 2 1000100 5000]"
  have "\<exists>ag' a. agent_writes (demo_agent 16 1000000) ?ps = Some ag' \<and> bucket_agent ag' a
    \<and> tot_packets a = of_nat (length ?ps)
    \<and> (\<forall>i<4. \<forall>n. rel_latency (buckets a n) i = of_nat (rel_count 1000000 i n (recorded zero_payload ?ps)))
    \<and> (\<forall>n. abs_latency (buckets a n) = of_nat (abs_count 1000000 n (recorded zero_payload ?ps)))
    \<and> (\<forall>i<4. rel_latency (min_values a) i = foldl min (-1) (map (rel_diff i) (recorded zero_payload ?ps))
           \<and> rel_latency (max_values a) i = foldl max 0 (map (rel_diff i) (recorded zero_payload ?ps)))"
    by (rule buckets_histogram [OF demo_init, where mem = 2097152]) (simp_all add: flag_defs demo_env_def interval_ok_def OFFSET_def)
  then obtain ag' a where r: "agent_writes (demo_agent 16 1000000) ?ps = Some ag'" "bucket_agent ag' a"
    "tot_packets a = of_nat (length ?ps)"
    "\<forall>i<4. rel_latency (max_values a) i = foldl max 0 (map (rel_diff i) (recorded zero_payload ?ps))" by blast
  have "recorded zero_payload ?ps = [(demo_payload 1 0 5000, demo_payload 2 1000100 5000)]"
    by (rule demo_recorded) simp_all
  then have "rel_latency (max_values a) 0 = 1000100"
    using r(4) by (simp add: rel_diff_def demo_payload_def)
  with r show ?thesis by auto
qed

text \<open>no accounted packet is lost or counted twice by the relative-latency columns: under the
  same conditions the reported slots \<open>0\<close> to \<open>NUM_BUCKETS + 1\<close> of each of the four columns add up
  to the number of accounted packets.\<close>

theorem relative_buckets_conserve:
  assumes "persistence_init env filename fl I = Some (Some ag)"
    and "fl AND PERSISTENCE_M_MIN_MAX_LATENCY = 0" and "fl AND PERSISTENCE_M_BUCKETS \<noteq> 0"
    and "e_mmap env = Some mem" and "816040 \<le> mem" and "interval_ok I" and "i < 4"
  shows "\<exists>ag' a. agent_writes ag ps = Some ag' \<and> bucket_agent ag' a
    \<and> (\<Sum>n<NUM_BUCKETS + 2. rel_latency (buckets a n) i) = of_nat (length (recorded zero_payload ps))"
proof -
  obtain ag' a where run: "agent_writes ag ps = Some ag'" "bucket_agent ag' a"
    "hist_inv I (recorded zero_payload ps) a" using bucket_run [OF assms(1-6), of ps] by blast
  then have "(\<Sum>n<NUM_BUCKETS + 2. rel_latency (buckets a n) i)
      = of_nat (\<Sum>n<NUM_BUCKETS + 2. rel_count I i n (recorded zero_payload ps))"
    using assms(7) by (simp add: hist_inv_def del: lessThan_Suc)
  then show ?thesis using run(1,2) unfolding sum_rel_count [OF assms(6)] by blast
qed

theorem relative_buckets_conserve_witness:
  "\<exists>ag' a. agent_writes (demo_agent 16 1000000) [demo_payload 1 0 5000, demo_payload 2 1000100 5000] = Some ag'
     \<and> bucket_agent ag' a \<and> (\<Sum>n<NUM_BUCKETS + 2. rel_latency (buckets a n) 3) = 1"
proof -
  have "recorded zero_payload [demo_payload 1 0 5000, demo_payload 2 1000100 5000]
      = [(demo_payload 1 0 5000, demo_payload 2 1000100 5000)]" by (rule demo_recorded) simp_all
  then show ?thesis
    using relative_buckets_conserve [OF demo_init, where mem = 2097152 and i = 3 and fl = 16 and I = 1000000
      and ps = "[demo_payload 1 0 5000, demo_payload 2 1000100 5000]"]
    by (simp add: flag_defs demo_env_def interval_ok_def OFFSET_def del: recorded.simps lessThan_Suc)
qed

text \<open>C36: what a bucket means, and which slots are used. A value inside a range of at least \<open>NUM_BUCKETS\<close>
  nanoseconds falls in the slot whose half-open interval of width \<open>w = bucket_size\<close> contains it, counted from slot 1;
  that slot is one of the regular ones, 1 to \<open>NUM_BUCKETS\<close>, exactly when the value is below \<open>min + w * NUM_BUCKETS\<close>.
  The rest of the range, which the truncating division leaves over, falls in slot \<open>NUM_BUCKETS + 1\<close> (the one meant for
  the values above the range) or in later ones, up to \<open>NUM_BUCKETS + 1 + (range mod NUM_BUCKETS) div w\<close> and no further;
  the greatest value of the range falls in that very slot. So the last slot of the table is not exceeded exactly when the
  remainder of the division is less than the width. Values below the range fall in slot 0, values above it in slot
  \<open>NUM_BUCKETS + 1\<close>, and the index is computed without overflow or division by zero.\<close>

theorem bucket_idx_meaning:
  assumes "int NUM_BUCKETS \<le> mx - mn" and "fits_i64 (mx - mn)"
  shows "\<exists>idx. bucket_idx val mn mx = Some idx
    \<and> (if val < mn then unat idx = 0
       else if mx < val then unat idx = NUM_BUCKETS + 1
       else let w = (mx - mn) div int NUM_BUCKETS; top = int NUM_BUCKETS + 1 + (mx - mn) mod int NUM_BUCKETS div w in
              1 \<le> unat idx \<and> mn + w * (int (unat idx) - 1) \<le> val \<and> val < mn + w * int (unat idx)
              \<and> (unat idx \<le> NUM_BUCKETS \<longleftrightarrow> val < mn + w * int NUM_BUCKETS)
              \<and> int (unat idx) \<le> top \<and> (val = mx \<longrightarrow> int (unat idx) = top))"
proof (cases "mn \<le> val \<and> val \<le> mx")
  case True
  define w where "w = (mx - mn) div 20000"
  have w: "0 < w" using assms(1) unfolding w_def NUM_BUCKETS_def by simp
  obtain idx where idx: "bucket_idx val mn mx = Some idx" "int (unat idx) = (val - mn) div w + 1"
    using True assms bucket_idx_inside [of mn val mx] by (auto simp: w_def NUM_BUCKETS_def)
  have "0 \<le> (val - mn) div w" using True w by (simp add: pos_imp_zdiv_nonneg_iff)
  with idx(2) have lo: "1 \<le> unat idx" by linarith
  have bnd: "mn + w * (int (unat idx) - 1) \<le> val" "val < mn + w * int (unat idx)"
    using div_bounds [OF w, of "val - mn"] unfolding idx(2) by simp_all
  have reg: "unat idx \<le> 20000 \<longleftrightarrow> val < mn + w * 20000"
    using quotient_below [OF w, of "val - mn" 20000] idx(2) by linarith
  have top: "(mx - mn) div w = 20000 + (mx - mn) mod 20000 div w" unfolding w_def by (rule quotient_of_range) (use w in \<open>simp add: w_def\<close>)
  have "(val - mn) div w \<le> (mx - mn) div w" using True w by (simp add: zdiv_mono1)
  then have "int (unat idx) \<le> 20001 + (mx - mn) mod 20000 div w" unfolding idx(2) top by simp
  moreover have "int (unat idx) = 20001 + (mx - mn) mod 20000 div w" if "val = mx" using idx(2) top that by simp
  ultimately show ?thesis using lo bnd reg idx(1) True by (simp add: Let_def NUM_BUCKETS_def w_def del: of_nat_unat)
next
  case False
  then consider "val < mn" | "mn \<le> val" "mx < val" by linarith
  then show ?thesis by cases (simp_all add: bucket_idx_below bucket_idx_above unat_overflow_bucket)
qed

theorem bucket_idx_meaning_witness: "bucket_idx 1050 0 2000000 = Some 11 \<and>
    (\<exists>idx. bucket_idx 1050 0 2000000 = Some idx \<and> 100 * (int (unat idx) - 1) \<le> 1050 \<and> 1050 < 100 * int (unat idx))"
proof
  show "bucket_idx 1050 0 2000000 = Some 11"
    by (simp add: bucket_idx_def NUM_BUCKETS_def fits_i64_def signed_divide_int_def)
  show "\<exists>idx. bucket_idx 1050 0 2000000 = Some idx \<and> 100 * (int (unat idx) - 1) \<le> 1050 \<and> 1050 < 100 * int (unat idx)"
    using bucket_idx_meaning [of 2000000 0 1050]
    by (auto simp: NUM_BUCKETS_def fits_i64_def Let_def simp del: of_nat_unat)
qed

text \<open>the absolute-latency column can miss its own table. With a send interval of 19999 ns (so that
  \<open>interval + OFFSET\<close> is no multiple of the number of buckets) a packet with a latency of 1000050 ns,
  inside the reported range, is counted in slot 20002, one past the last slot that
  \<^verbatim>\<open>persistence_close_buckets\<close> prints: every reported counter of the column stays 0.\<close>

theorem absolute_bucket_outside_table:
  "\<exists>ag' a. agent_writes (demo_agent 16 19999) [demo_payload 1 0 1000050, demo_payload 2 20000 1000050] = Some ag'
     \<and> bucket_agent ag' a
     \<and> {n. abs_latency (buckets a n) \<noteq> 0} = {NUM_BUCKETS + 2} \<and> abs_latency (buckets a (NUM_BUCKETS + 2)) = 1"
proof -
  let ?p = "demo_payload 1 0 1000050" and ?q = "demo_payload 2 20000 1000050"
  have rec: "recorded zero_payload [?p, ?q] = [(?p, ?q)]" by (rule demo_recorded) simp_all
  have "\<exists>ag' a. agent_writes (demo_agent 16 19999) [?p, ?q] = Some ag' \<and> bucket_agent ag' a
     \<and> hist_inv 19999 (recorded zero_payload [?p, ?q]) a \<and> tot_packets a = of_nat (length [?p, ?q])"
    by (rule bucket_run [OF demo_init, where mem = 2097152])
      (simp_all add: flag_defs demo_env_def interval_ok_def OFFSET_def)
  then obtain ag' a where run: "agent_writes (demo_agent 16 19999) [?p, ?q] = Some ag'" "bucket_agent ag' a"
    "hist_inv 19999 [(?p, ?q)] a" unfolding rec by blast
  have "compute_latency ?q = 1000050" by (simp add: compute_latency_def demo_payload_def)
  moreover have "abs_bucket 19999 1000050 = NUM_BUCKETS + 2"
    by (simp add: abs_bucket_def bucket_ranges_def OFFSET_def bucket_idx_def NUM_BUCKETS_def fits_i64_def
        signed_divide_int_def)
  ultimately have slot: "abs_latency (buckets a n) = (if n = NUM_BUCKETS + 2 then 1 else 0)" for n
    using run(3) by (simp add: hist_inv_def abs_count_def)
  have "{n. abs_latency (buckets a n) \<noteq> 0} = {NUM_BUCKETS + 2}" unfolding slot by auto
  with run(1,2) slot [of "NUM_BUCKETS + 2"] show ?thesis
    by (intro exI [of _ ag'] exI [of _ a] conjI) simp_all
qed

text \<open>C34: the min/max agent. After any non-empty sequence of writes the recorded extremes bound every
  latency, and the stored payloads are the first ones of the sequence that attain them (the
  maximum when it is not 0, the only case in which it is printed).\<close>

theorem min_max_correct:
  assumes "persistence_init env filename fl I = Some (Some ag)" and "fl AND PERSISTENCE_M_MIN_MAX_LATENCY \<noteq> 0"
    and "ps \<noteq> []"
  shows "\<exists>ag' f a. agent_writes ag ps = Some ag' \<and> mm_agent ag' f a
     \<and> (\<forall>p\<in>set ps. mm_min a \<le> compute_latency p \<and> compute_latency p \<le> mm_max a)
     \<and> first_with (mm_min a) ps = Some (min_payload a)
     \<and> (mm_max a \<noteq> 0 \<longrightarrow> first_with (mm_max a) ps = Some (max_payload a))"
proof -
  obtain f where "mm_holds f ag []" using init_mm_agent [OF assms(1,2)] by blast
  then obtain ag' a where run: "agent_writes ag ps = Some ag'" "mm_agent ag' f a" "mm_inv ps a"
    using mm_agents.writes_from_start unfolding mm_holds_def by blast
  have "mm_min a \<le> compute_latency p \<and> compute_latency p \<le> mm_max a" if "p \<in> set ps" for p
    using run(3) that foldl_min_le [of "compute_latency p" "map compute_latency ps" "-1"]
      foldl_max_ge [of "compute_latency p" "map compute_latency ps" 0] by (auto simp: mm_inv_def)
  with run assms(3) show ?thesis
    by (intro exI [of _ ag'] exI [of _ f] exI [of _ a]) (auto simp: mm_inv_def)
qed

theorem min_max_correct_witness:
  "\<exists>ag' f a. agent_writes (demo_agent 8 0) [demo_payload 1 0 300, demo_payload 2 0 200] = Some ag'
     \<and> mm_agent ag' f a \<and> mm_min a \<le> 200 \<and> 300 \<le> mm_max a"
proof -
  have "compute_latency (demo_payload i 0 l) = (2 * l) div 2" for i l
    by (simp add: compute_latency_def demo_payload_def)
  then show ?thesis
    using min_max_correct [OF demo_init, where fl = 8 and I = 0 and ps = "[demo_payload 1 0 300, demo_payload 2 0 200]"]
    by (fastforce simp: flag_defs)
qed

text \<open>the uninitialised block of the min/max agent never shows. Whatever bytes \<^verbatim>\<open>malloc\<close> returned,
  the report written at close is the same, also when nothing was measured.\<close>

theorem min_max_report_deterministic:
  assumes "persistence_init env filename fl I = Some (Some ag)"
    and "persistence_init (env\<lparr>e_malloc_min_max := Some junk\<rparr>) filename fl I = Some (Some ag2)"
    and "fl AND PERSISTENCE_M_MIN_MAX_LATENCY \<noteq> 0"
  shows "Option.bind (agent_writes ag ps) agent_close = Option.bind (agent_writes ag2 ps) agent_close
    \<and> Option.bind (agent_writes ag ps) agent_close \<noteq> None"
proof -
  obtain f where i1: "mm_holds f ag []" "init_stream env filename fl = Some f"
    using init_mm_agent [OF assms(1,3)] by blast
  then have i2: "mm_holds f ag2 []" using init_mm_agent [OF assms(2,3)] by auto
  obtain ag' a where r1: "agent_writes ag ps = Some ag'" "mm_agent ag' f a" "mm_inv ps a"
    using mm_agents.writes_from_start [OF i1(1)] unfolding mm_holds_def by blast
  obtain bg' b where r2: "agent_writes ag2 ps = Some bg'" "mm_agent bg' f b" "mm_inv ps b"
    using mm_agents.writes_from_start [OF i2] unfolding mm_holds_def by blast
  have "agent_close ag' = agent_close bg' \<and> agent_close ag' \<noteq> None"
    using r1(2) r2(2) min_max_report_eq [OF r1(3) r2(3), of f]
    by (simp add: agent_close_def mm_agent_def persistence_close_min_max_def persistence_close_def)
  then show ?thesis unfolding r1(1) r2(1) Option.bind.bind_lunit by metis
qed

theorem min_max_report_deterministic_witness:
  "Option.bind (agent_writes (demo_agent 8 0) [demo_payload 1 0 300]) agent_close \<noteq> None"
proof -
  let ?junk = "\<lparr>mm_min = 7, mm_max = 7, min_payload = zero_payload, max_payload = zero_payload\<rparr>"
  have same: "persistence_init (demo_env\<lparr>e_malloc_min_max := Some ?junk\<rparr>) (Some ''no-bypass.dat'') 8 0
      = Some (Some (demo_agent 8 0))"
    using demo_init [of 8 0] by (simp add: demo_env_def)
  have fl: "(8 :: u32) AND PERSISTENCE_M_MIN_MAX_LATENCY \<noteq> 0" by (simp add: flag_defs)
  show ?thesis
    using min_max_report_deterministic [OF demo_init same fl, of "[demo_payload 1 0 300]"] by (rule conjunct2)
qed

text \<open>C35: the data file of the all-timestamps agent is faithful. If writes do not fail, the text
  appended to the file is read back, line by line, as the identifier and the four timestamps of
  every payload written, in order.\<close>

theorem dat_file_roundtrip:
  assumes "persistence_init env (Some filename) fl I = Some (Some ag)"
    and "fl AND PERSISTENCE_M_MIN_MAX_LATENCY = 0" and "fl AND PERSISTENCE_M_BUCKETS = 0"
    and "fl AND PERSISTENCE_F_STDOUT = 0"
    and "e_fopen env = Some f" and "\<not> f_write_fails f" and "f_out f = ''''"
  shows "\<exists>ag' d f'. agent_writes ag ps = Some ag' \<and> data ag' = Some d \<and> pfile d = Some f'
     \<and> parse_dat (f_out f') = map (map unat \<circ> dat_words) ps"
proof -
  have "all_holds f ag []"
    using assms by (auto simp: all_holds_def persistence_init_def persistence_init0_def Let_def split: if_splits)
  then obtain ag' where "agent_writes ag ps = Some ag'" "all_holds f ag' ps"
    using all_agents.writes_from_start by blast
  then show ?thesis using assms(7) by (simp add: all_holds_def parse_dat_lines)
qed

theorem dat_file_roundtrip_witness:
  "\<exists>ag' d f'. agent_writes (demo_agent 4 0) [demo_payload 12 0 300] = Some ag' \<and> data ag' = Some d
     \<and> pfile d = Some f' \<and> parse_dat (f_out f') = [[12, 0, 300, 300, 600]]"
  using dat_file_roundtrip [OF demo_init, where fl = 4 and I = 0 and ps = "[demo_payload 12 0 300]" and f = demo_file]
  by (simp add: flag_defs demo_env_def demo_file_def dat_words_def demo_payload_def)

text \<open>an unknown measurement index is not rejected. The \<open>-1\<close> of \<^verbatim>\<open>pers_measurement_to_flag\<close>,
  stored in the 32-bit flags, has every bit set: the agent that results measures min/max latency
  and writes to the standard output, not to the given file.\<close>

theorem unknown_measurement_selects_min_max:
  assumes "m \<notin> {0, 1, 2}" and "e_malloc_agent env" and "e_malloc_data env" and "e_malloc_min_max env \<noteq> None"
  shows "\<exists>ag a. persistence_init env filename (word_of_int (pers_measurement_to_flag m)) I = Some (Some ag)
     \<and> mm_agent ag (e_stdout env) a"
  using assms
  by (auto simp: pers_measurement_to_flag_def persistence_init_def persistence_init0_def flag_defs
      persistence_init_min_max_latency_def mm_agent_def Let_def)

theorem unknown_measurement_selects_min_max_witness:
  "\<exists>ag a. persistence_init demo_env (Some ''ud.dat'') (word_of_int (pers_measurement_to_flag 3)) 0 = Some (Some ag)
     \<and> mm_agent ag (e_stdout demo_env) a"
  by (rule unknown_measurement_selects_min_max) (simp_all add: demo_env_def)

end
