(* ===== verification/Headers.thy ===== *)
theory Headers
  imports Payload
begin

text \<open>
  The header layouts every program assumes: Ethernet (14 bytes), IPv4 without options (20 bytes) and
  UDP (8 bytes), as \<^verbatim>\<open>linux/if_ether.h\<close>, \<^verbatim>\<open>linux/ip.h\<close> and \<^verbatim>\<open>linux/udp.h\<close> lay them out. A packet is a
  list of bytes; a field is read and written at its constant offset. The verdicts are the values an
  XDP program can return.
\<close>

section \<open>Definitions\<close>

definition ETH_ALEN :: nat where "ETH_ALEN = 6"
definition sizeof_ethhdr :: nat where "sizeof_ethhdr = 14"
definition sizeof_iphdr :: nat where "sizeof_iphdr = 20"
definition sizeof_udphdr :: nat where "sizeof_udphdr = 8"

definition ETH_P_PINGPONG :: u16 where "ETH_P_PINGPONG = 0x2002"
definition ETH_P_IP :: u16 where "ETH_P_IP = 0x0800"
definition IPPROTO_UDP :: u8 where "IPPROTO_UDP = 17"
definition IPPROTO_RAW :: u8 where "IPPROTO_RAW = 255"
definition XDP_UDP_PORT :: u16 where "XDP_UDP_PORT = 1234"

datatype xdp_action = XDP_ABORTED | XDP_DROP | XDP_PASS | XDP_TX | XDP_REDIRECT

subsection \<open>Fields, at their offset in an Ethernet frame\<close>

definition off_h_dest :: nat where [layout_defs]: "off_h_dest = 0"
definition off_h_source :: nat where [layout_defs]: "off_h_source = 6"
definition off_h_proto :: nat where [layout_defs]: "off_h_proto = 12"
definition off_ip :: nat where [layout_defs]: "off_ip = 14"
definition off_ip_tos :: nat where [layout_defs]: "off_ip_tos = 15"
definition off_ip_tot_len :: nat where [layout_defs]: "off_ip_tot_len = 16"
definition off_ip_id :: nat where [layout_defs]: "off_ip_id = 18"
definition off_ip_frag_off :: nat where [layout_defs]: "off_ip_frag_off = 20"
definition off_ip_ttl :: nat where [layout_defs]: "off_ip_ttl = 22"
definition off_ip_protocol :: nat where [layout_defs]: "off_ip_protocol = 23"
definition off_ip_check :: nat where [layout_defs]: "off_ip_check = 24"
definition off_ip_saddr :: nat where [layout_defs]: "off_ip_saddr = 26"
definition off_ip_daddr :: nat where [layout_defs]: "off_ip_daddr = 30"
definition off_udp_source :: nat where [layout_defs]: "off_udp_source = 34"
definition off_udp_dest :: nat where [layout_defs]: "off_udp_dest = 36"
definition off_udp_check :: nat where [layout_defs]: "off_udp_check = 40"

definition get16 :: "bytes \<Rightarrow> nat \<Rightarrow> u16" where "get16 buf off = word_of_bytes (mread buf off 2)"
definition put16 :: "bytes \<Rightarrow> nat \<Rightarrow> u16 \<Rightarrow> bytes" where "put16 buf off v = mwrite buf off (bytes_of_word 2 v)"
definition get32 :: "bytes \<Rightarrow> nat \<Rightarrow> u32" where "get32 buf off = word_of_bytes (mread buf off 4)"
definition put32 :: "bytes \<Rightarrow> nat \<Rightarrow> u32 \<Rightarrow> bytes" where "put32 buf off v = mwrite buf off (bytes_of_word 4 v)"
definition get8 :: "bytes \<Rightarrow> nat \<Rightarrow> u8" where "get8 buf off = buf ! off"
definition put8 :: "bytes \<Rightarrow> nat \<Rightarrow> u8 \<Rightarrow> bytes" where "put8 buf off v = mwrite buf off [v]"

text \<open>The payload of an Ethernet + IP packet (\<^verbatim>\<open>packet_payload\<close> in \<^verbatim>\<open>common/net.c\<close>).\<close>

definition packet_payload :: nat where
  "packet_payload = sizeof_ethhdr + sizeof_iphdr"

section \<open>Reads after writes\<close>

lemmas size_defs = sizeof_ethhdr_def sizeof_iphdr_def sizeof_udphdr_def payload_size_def ETH_ALEN_def

lemma packet_payload_eq: "packet_payload = 34"
  by (simp add: packet_payload_def size_defs)

lemma length_puts [simp]:
  "off + 1 \<le> length buf \<Longrightarrow> length (put8 buf off v) = length buf"
  "off + 2 \<le> length buf \<Longrightarrow> length (put16 buf off w) = length buf"
  "off + 4 \<le> length buf \<Longrightarrow> length (put32 buf off x) = length buf"
  by (simp_all add: put8_def put16_def put32_def)

lemma get_put_same [mem_simps]:
  "off + 2 \<le> length buf \<Longrightarrow> get16 (put16 buf off w) off = w"
  "off + 4 \<le> length buf \<Longrightarrow> get32 (put32 buf off x) off = x"
  unfolding get16_def put16_def get32_def put32_def by (rule c16.load_store, simp) (rule c32.load_store, simp)

lemma mread_puts [mem_simps]:
  "o' + n \<le> off \<or> off + 1 \<le> o' \<Longrightarrow> off + 1 \<le> length buf \<Longrightarrow> mread (put8 buf off v) o' n = mread buf o' n"
  "o' + n \<le> off \<or> off + 2 \<le> o' \<Longrightarrow> off + 2 \<le> length buf \<Longrightarrow> mread (put16 buf off w) o' n = mread buf o' n"
  "o' + n \<le> off \<or> off + 4 \<le> o' \<Longrightarrow> off + 4 \<le> length buf \<Longrightarrow> mread (put32 buf off x) o' n = mread buf o' n"
  by (auto simp: put8_def put16_def put32_def mem_simps)

lemma get8_mread: "off < length buf \<Longrightarrow> get8 buf off = hd (mread buf off 1)"
  by (simp add: get8_def mread_def take_Suc hd_drop_conv_nth)

lemma load_payload_cong:
  "mread buf off payload_size = mread buf' off payload_size \<Longrightarrow> load_payload buf off = load_payload buf' off"
  by (simp add: load_payload_def)

end
