(* ===== verification/Xdp_Race.thy ===== *)
theory Xdp_Race
  imports Xdp_Ring
begin

text \<open>
  The same ring, interleaved: the eBPF program on the receive path runs while user space polls, with no lock
  around the slots. Every access to shared memory is one step: the locked section on the index, the validity
  test of the slot, the copy of each struct field (in any order, as the compiler may choose), the commit of
  the magic number; on the other side the validity test of the busy-wait, the copy of each field out of the
  slot (\<^verbatim>\<open>memcpy\<close>, any order) and the zeroing of each field (\<^verbatim>\<open>memset\<close>, any order: the C library documents none).
  Steps take effect in program order (the target is x86). There is one producer at a time (one receive
  queue); the source marks the race of several producers as a TODO.

  The lists \<open>accepted\<close>, \<open>delivered\<close> and \<open>dropped\<close> are histories: what \<^verbatim>\<open>add_packet_to_map\<close> returned 0 for, what
  \<^verbatim>\<open>poll_next_payload\<close> returned, and what \<^verbatim>\<open>add_packet_to_map\<close> returned -1 for. The history flag \<open>collided\<close> is set when
  the producer tests the slot that the consumer is clearing at that moment: between its \<^verbatim>\<open>memcpy\<close> and the
  advance of its index. That can happen only when 128 payloads are outstanding (\<open>ring_drops_only_when_full\<close>),
  and then the ring is not a queue any more (\<open>full_ring_payload_torn\<close>): a store of \<^verbatim>\<open>memset\<close> that is late in its
  order overwrites the new payload. The theorems are therefore about the runs in which it has not happened.
\<close>

section \<open>Definitions\<close>

datatype fld = F_id | F_ts0 | F_ts1 | F_ts2 | F_ts3 | F_phase | F_magic

definition copy_fld :: "fld \<Rightarrow> pingpong_payload \<Rightarrow> pingpong_payload \<Rightarrow> pingpong_payload" where
  "copy_fld f src dst =
     (case f of F_id \<Rightarrow> dst\<lparr>pp_id := pp_id src\<rparr> | F_ts0 \<Rightarrow> dst\<lparr>ts0 := ts0 src\<rparr> | F_ts1 \<Rightarrow> dst\<lparr>ts1 := ts1 src\<rparr>
      | F_ts2 \<Rightarrow> dst\<lparr>ts2 := ts2 src\<rparr> | F_ts3 \<Rightarrow> dst\<lparr>ts3 := ts3 src\<rparr> | F_phase \<Rightarrow> dst\<lparr>phase := phase src\<rparr>
      | F_magic \<Rightarrow> dst\<lparr>magic := magic src\<rparr>)"

definition same_fld :: "fld \<Rightarrow> pingpong_payload \<Rightarrow> pingpong_payload \<Rightarrow> bool" where
  "same_fld f a b \<longleftrightarrow>
     (case f of F_id \<Rightarrow> pp_id a = pp_id b | F_ts0 \<Rightarrow> ts0 a = ts0 b | F_ts1 \<Rightarrow> ts1 a = ts1 b
      | F_ts2 \<Rightarrow> ts2 a = ts2 b | F_ts3 \<Rightarrow> ts3 a = ts3 b | F_phase \<Rightarrow> phase a = phase b | F_magic \<Rightarrow> magic a = magic b)"

datatype prod_pc =
    P_Idle
  | P_Look pingpong_payload u32
  | P_Reset pingpong_payload u32
  | P_Copy pingpong_payload nat "fld set"

datatype cons_pc = C_Poll | C_Read "fld set" | C_Clear "fld set"

record conc =
  maps :: xdp_maps
  ppc :: prod_pc
  cpc :: cons_pc
  next_index :: u32
  dest :: pingpong_payload
  accepted :: "pingpong_payload list"
  delivered :: "pingpong_payload list"
  dropped :: "pingpong_payload list"
  collided :: bool

definition is_clearing :: "cons_pc \<Rightarrow> bool" where
  "is_clearing pc = (case pc of C_Clear _ \<Rightarrow> True | _ \<Rightarrow> False)"

text \<open>The producer tests slot \<open>k\<close> while the consumer clears it.\<close>

definition collides :: "conc \<Rightarrow> u32 \<Rightarrow> bool" where
  "collides s k \<longleftrightarrow> is_clearing (cpc s) \<and> k = next_index s"

text \<open>The producer: \<^verbatim>\<open>add_packet_to_map\<close> on a payload that \<^verbatim>\<open>xdp_main\<close> found valid.\<close>

inductive prod_step :: "(nat \<Rightarrow> u32 \<Rightarrow> nat option) \<Rightarrow> conc \<Rightarrow> conc \<Rightarrow> bool" for lk where
  P_nolock: "ppc s = P_Idle \<Longrightarrow> valid_pingpong_payload p \<Longrightarrow> lk 1 0 = None \<Longrightarrow>
     prod_step lk s (s\<lparr>dropped := dropped s @ [p]\<rparr>)"
| P_take: "ppc s = P_Idle \<Longrightarrow> valid_pingpong_payload p \<Longrightarrow> lk 1 0 = Some z \<Longrightarrow> k = lck_index (maps s) \<Longrightarrow>
     prod_step lk s (s\<lparr>maps := (maps s)\<lparr>lck_index := next_slot k\<rparr>, ppc := P_Look p k\<rparr>)"
| P_miss: "ppc s = P_Look p k \<Longrightarrow> lk PACKETS_MAP_SIZE k = None \<Longrightarrow>
     prod_step lk s (s\<lparr>ppc := P_Idle, dropped := dropped s @ [p]\<rparr>)"
| P_full: "ppc s = P_Look p k \<Longrightarrow> lk PACKETS_MAP_SIZE k = Some i \<Longrightarrow> valid_pingpong_payload (slot (maps s) i) \<Longrightarrow>
     prod_step lk s (s\<lparr>ppc := P_Reset p k, collided := (collided s \<or> collides s k)\<rparr>)"
| P_free: "ppc s = P_Look p k \<Longrightarrow> lk PACKETS_MAP_SIZE k = Some i \<Longrightarrow> \<not> valid_pingpong_payload (slot (maps s) i) \<Longrightarrow>
     prod_step lk s (s\<lparr>ppc := P_Copy p i UNIV, collided := (collided s \<or> collides s k)\<rparr>)"
| P_reset: "ppc s = P_Reset p k \<Longrightarrow>
     prod_step lk s (s\<lparr>maps := (maps s)\<lparr>lck_index := k\<rparr>, ppc := P_Idle, dropped := dropped s @ [p]\<rparr>)"
| P_copy: "ppc s = P_Copy p i R \<Longrightarrow> f \<in> R \<Longrightarrow>
     prod_step lk s (s\<lparr>maps := put_slot i (copy_fld f (uncommitted p) (slot (maps s) i)) (maps s), ppc := P_Copy p i (R - {f})\<rparr>)"
| P_commit: "ppc s = P_Copy p i {} \<Longrightarrow>
     prod_step lk s (s\<lparr>maps := put_slot i (commit_magic (slot (maps s) i)) (maps s), ppc := P_Idle, accepted := accepted s @ [p]\<rparr>)"

text \<open>The consumer: \<^verbatim>\<open>poll_next_payload\<close>, called again and again; its last step advances the index and returns.\<close>

inductive cons_step :: "conc \<Rightarrow> conc \<Rightarrow> bool" where
  C_found: "cpc s = C_Poll \<Longrightarrow> valid_pingpong_payload (slot (maps s) (unat (next_index s))) \<Longrightarrow>
     cons_step s (s\<lparr>cpc := C_Read UNIV\<rparr>)"
| C_spin: "cpc s = C_Poll \<Longrightarrow> \<not> valid_pingpong_payload (slot (maps s) (unat (next_index s))) \<Longrightarrow> cons_step s s"
| C_read: "cpc s = C_Read R \<Longrightarrow> f \<in> R \<Longrightarrow>
     cons_step s (s\<lparr>dest := copy_fld f (slot (maps s) (unat (next_index s))) (dest s), cpc := C_Read (R - {f})\<rparr>)"
| C_copied: "cpc s = C_Read {} \<Longrightarrow> cons_step s (s\<lparr>cpc := C_Clear UNIV\<rparr>)"
| C_clear: "cpc s = C_Clear R \<Longrightarrow> f \<in> R \<Longrightarrow> i = unat (next_index s) \<Longrightarrow>
     cons_step s (s\<lparr>maps := put_slot i (copy_fld f zero_payload (slot (maps s) i)) (maps s), cpc := C_Clear (R - {f})\<rparr>)"
| C_return: "cpc s = C_Clear {} \<Longrightarrow>
     cons_step s (s\<lparr>next_index := next_slot (next_index s), delivered := delivered s @ [dest s], cpc := C_Poll\<rparr>)"

definition conc_start :: "pingpong_payload \<Rightarrow> conc" where
  "conc_start junk = \<lparr>maps = empty_maps, ppc = P_Idle, cpc = C_Poll, next_index = 0, dest = junk,
     accepted = [], delivered = [], dropped = [], collided = False\<rparr>"

inductive conc_reach :: "(nat \<Rightarrow> u32 \<Rightarrow> nat option) \<Rightarrow> conc \<Rightarrow> bool" for lk where
  reach_start: "conc_reach lk (conc_start junk)"
| reach_prod: "conc_reach lk s \<Longrightarrow> prod_step lk s s' \<Longrightarrow> conc_reach lk s'"
| reach_cons: "conc_reach lk s \<Longrightarrow> cons_step s s' \<Longrightarrow> conc_reach lk s'"

subsection \<open>The invariant\<close>

text \<open>While the consumer clears the head slot, its copy stands for the slot.\<close>

definition shown :: "conc \<Rightarrow> pingpong_payload list" where
  "shown s = (if is_clearing (cpc s) then (last_payload (maps s))[unat (next_index s) := dest s] else last_payload (maps s))"

definition prod_ok :: "conc \<Rightarrow> pingpong_payload list \<Rightarrow> bool" where
  "prod_ok s q \<longleftrightarrow>
     (let e = (unat (next_index s) + length q) mod PACKETS_MAP_SIZE; ix = lck_index (maps s) in
      case ppc s of
        P_Idle \<Rightarrow> unat ix = e
      | P_Look p k \<Rightarrow> valid_pingpong_payload p \<and> unat k = e \<and> ix = next_slot k
      | P_Reset p k \<Rightarrow> unat k = e
      | P_Copy p i R \<Rightarrow> valid_pingpong_payload p \<and> length q < PACKETS_MAP_SIZE \<and> i = e
          \<and> unat ix = Suc i mod PACKETS_MAP_SIZE \<and> (\<forall>f. f \<notin> R \<longrightarrow> same_fld f (slot (maps s) i) (uncommitted p)))"

definition cons_ok :: "conc \<Rightarrow> pingpong_payload list \<Rightarrow> bool" where
  "cons_ok s q \<longleftrightarrow>
     (case cpc s of
        C_Poll \<Rightarrow> True
      | C_Read R \<Rightarrow> q \<noteq> [] \<and> (\<forall>f. f \<notin> R \<longrightarrow> same_fld f (dest s) (hd q))
      | C_Clear R \<Rightarrow> q \<noteq> [] \<and> dest s = hd q
          \<and> (\<forall>f. f \<notin> R \<longrightarrow> same_fld f (slot (maps s) (unat (next_index s))) zero_payload))"

definition conc_inv :: "conc \<Rightarrow> pingpong_payload list \<Rightarrow> bool" where
  "conc_inv s q \<longleftrightarrow> accepted s = delivered s @ q \<and> length (last_payload (maps s)) = PACKETS_MAP_SIZE
     \<and> ring_at 0 (shown s) (unat (next_index s)) q \<and> prod_ok s q \<and> cons_ok s q"

section \<open>Fields\<close>

lemma same_fld_copy [simp]: "same_fld f (copy_fld g a b) c \<longleftrightarrow> (if f = g then same_fld f a c else same_fld f b c)"
  by (cases f; cases g) (simp_all add: same_fld_def copy_fld_def)

lemma same_fld_refl [simp]: "same_fld f a a"
  by (cases f) (simp_all add: same_fld_def)

lemma same_all_flds: "(\<forall>f. same_fld f a b) \<Longrightarrow> a = b"
proof -
  assume *: "\<forall>f. same_fld f a b"
  have "pp_id a = pp_id b" "ts0 a = ts0 b" "ts1 a = ts1 b" "ts2 a = ts2 b" "ts3 a = ts3 b" "phase a = phase b" "magic a = magic b"
    using * [rule_format, of F_id] * [rule_format, of F_ts0] * [rule_format, of F_ts1] * [rule_format, of F_ts2]
      * [rule_format, of F_ts3] * [rule_format, of F_phase] * [rule_format, of F_magic] by (simp_all add: same_fld_def)
  then show "a = b" by (cases a; cases b) simp
qed

lemma magic_copy_fld: "magic (copy_fld f a b) = (if f = F_magic then magic a else magic b)"
  by (cases f) (simp_all add: copy_fld_def)

lemma copy_uncommitted_invalid:
  "\<not> valid_pingpong_payload x \<Longrightarrow> \<not> valid_pingpong_payload (copy_fld f (uncommitted p) x)"
  using uncommitted_invalid [of p] by (auto simp: valid_pingpong_payload_def magic_copy_fld)

lemma zero_payload_invalid: "\<not> valid_pingpong_payload zero_payload"
  by (simp add: valid_pingpong_payload_def zero_payload_def PINGPONG_MAGIC_def)

lemma is_clearing_simps [simp]: "\<not> is_clearing C_Poll" "\<not> is_clearing (C_Read R)" "is_clearing (C_Clear R)"
  by (simp_all add: is_clearing_def)

section \<open>The invariant is inductive\<close>

lemma conc_inv_start: "conc_inv (conc_start junk) []"
  using ring_state_empty
  by (simp add: conc_inv_def conc_start_def prod_ok_def cons_ok_def ring_state_def shown_def Let_def ring_at_def)

lemma conc_inv_ring:
  assumes "conc_inv s q"
  shows "ring_at 0 (shown s) (unat (next_index s)) q" "unat (next_index s) < PACKETS_MAP_SIZE"
    "length (last_payload (maps s)) = PACKETS_MAP_SIZE" "length q \<le> PACKETS_MAP_SIZE"
  using assms by (simp_all add: conc_inv_def ring_at_def)

lemma cons_ok_append: "cons_ok s q \<Longrightarrow> cons_ok s (q @ [x])"
  by (auto simp: cons_ok_def split: cons_pc.splits)

text \<open>A slot other than the one being cleared is as it is shown.\<close>

lemma shown_slot:
  assumes "i < PACKETS_MAP_SIZE" and "length (last_payload (maps s)) = PACKETS_MAP_SIZE"
    and "is_clearing (cpc s) \<Longrightarrow> i \<noteq> unat (next_index s)"
  shows "shown s ! i = slot (maps s) i" "shown (s\<lparr>maps := put_slot i x (maps s)\<rparr>) = (shown s)[i := x]"
  using assms by (auto simp: shown_def slot_def put_slot_def list_update_swap)

lemma cons_ok_other_slot:
  "cons_ok s q \<Longrightarrow> (is_clearing (cpc s) \<Longrightarrow> i \<noteq> unat (next_index s)) \<Longrightarrow> i < length (last_payload (maps s)) \<Longrightarrow>
   cons_ok (s\<lparr>maps := put_slot i x (maps s)\<rparr>) q"
  by (auto simp: cons_ok_def split: cons_pc.splits)

text \<open>The slot the producer fills is free, so it is not the one being cleared.\<close>

lemma tail_not_head:
  assumes "conc_inv s q" and "length q < PACKETS_MAP_SIZE" and "is_clearing (cpc s)"
  shows "(unat (next_index s) + length q) mod PACKETS_MAP_SIZE \<noteq> unat (next_index s)"
proof -
  have "q \<noteq> []" using assms(1,3) by (auto simp: conc_inv_def cons_ok_def is_clearing_def split: cons_pc.splits)
  then show ?thesis
    using ring_index_inj [OF assms(2) map_size_pos, of "unat (next_index s)"] conc_inv_ring(2) [OF assms(1)] by simp
qed

lemma shown_frame [simp]:
  "shown (s\<lparr>ppc := pp\<rparr>) = shown s" "shown (s\<lparr>accepted := a\<rparr>) = shown s" "shown (s\<lparr>dropped := d\<rparr>) = shown s"
  "shown (s\<lparr>collided := b\<rparr>) = shown s" "shown (s\<lparr>maps := (maps s)\<lparr>lck_index := k\<rparr>\<rparr>) = shown s"
  by (simp_all add: shown_def)

lemma cons_ok_frame [simp]:
  "cons_ok (s\<lparr>ppc := pp\<rparr>) q = cons_ok s q" "cons_ok (s\<lparr>accepted := a\<rparr>) q = cons_ok s q"
  "cons_ok (s\<lparr>dropped := d\<rparr>) q = cons_ok s q" "cons_ok (s\<lparr>collided := b\<rparr>) q = cons_ok s q"
  "cons_ok (s\<lparr>maps := (maps s)\<lparr>lck_index := k\<rparr>\<rparr>) q = cons_ok s q"
  by (simp_all add: cons_ok_def split: cons_pc.split)

lemma look_finds_room:
  assumes "conc_inv s q" and "unat k = (unat (next_index s) + length q) mod PACKETS_MAP_SIZE"
    and "\<not> valid_pingpong_payload (slot (maps s) (unat k))" and "\<not> collides s k"
  shows "length q < PACKETS_MAP_SIZE"
proof (rule ccontr)
  assume "\<not> length q < PACKETS_MAP_SIZE"
  then have full: "length q = PACKETS_MAP_SIZE" using conc_inv_ring(4) [OF assms(1)] by simp
  then have k: "unat k = unat (next_index s)" using assms(2) conc_inv_ring(2) [OF assms(1)] by simp
  then have "\<not> is_clearing (cpc s)" using assms(4) by (auto simp: collides_def word_unat_eq_iff)
  then have "shown s ! unat k = slot (maps s) (unat k)"
    by (simp add: shown_def slot_def)
  moreover have "valid_pingpong_payload (shown s ! unat k)"
    using ring_at_next [OF conc_inv_ring(1) [OF assms(1)]] full assms(2) by simp
  ultimately show False using assms(3) by simp
qed

lemma conc_inv_prod:
  assumes "prod_step lk s s'" and "conc_inv s q" and "array_lookup_ok lk" and "\<not> collided s'"
  shows "\<exists>q'. conc_inv s' q'"
proof -
  let ?h = "unat (next_index s)" and ?e = "(unat (next_index s) + length q) mod PACKETS_MAP_SIZE"
  have acc: "accepted s = delivered s @ q" and prod: "prod_ok s q" and cons: "cons_ok s q"
    using assms(2) by (simp_all add: conc_inv_def)
  note ring = conc_inv_ring [OF assms(2)] and lk = lookup_ok [OF assms(3)]
  from assms(1) show ?thesis
  proof cases
    case (P_free p k i)
    then have k: "valid_pingpong_payload p" "unat k = ?e" "lck_index (maps s) = next_slot k"
      using prod by (simp_all add: prod_ok_def Let_def)
    then have u: "unat k < PACKETS_MAP_SIZE" by simp
    with P_free lk(2) [OF this] have i: "i = unat k" by simp
    have "length q < PACKETS_MAP_SIZE" using look_finds_room [OF assms(2) k(2)] P_free i assms(4) by simp
    with P_free k i acc ring cons unat_next_slot [OF u] show ?thesis
      by (intro exI [of _ q]) (simp add: conc_inv_def prod_ok_def Let_def)
  next
    case (P_copy p i R f)
    then have p: "valid_pingpong_payload p" "length q < PACKETS_MAP_SIZE" "i = ?e"
      "\<forall>f. f \<notin> R \<longrightarrow> same_fld f (slot (maps s) i) (uncommitted p)"
      using prod by (auto simp: prod_ok_def Let_def)
    then have i: "i < PACKETS_MAP_SIZE" "is_clearing (cpc s) \<Longrightarrow> i \<noteq> ?h" using tail_not_head [OF assms(2) p(2)] by simp_all
    have "\<not> valid_pingpong_payload (slot (maps s) i)"
      using ring_at_next [OF ring(1)] p(2,3) shown_slot(1) [OF i(1) ring(3) i(2)] by simp
    then have "ring_at 0 ((shown s)[i := copy_fld f (uncommitted p) (slot (maps s) i)]) ?h q"
      using ring_write_free [OF ring(1) p(2)] copy_uncommitted_invalid p(3) by simp
    moreover have "cons_ok (s\<lparr>maps := put_slot i x (maps s)\<rparr>) q" for x
      using cons_ok_other_slot [OF cons i(2)] i(1) ring(3) by simp
    ultimately show ?thesis
      using P_copy p i(1) acc prod ring(3) shown_slot(2) [OF i(1) ring(3) i(2)]
      by (intro exI [of _ q]) (auto simp: conc_inv_def prod_ok_def Let_def)
  next
    case (P_commit p i)
    then have p: "valid_pingpong_payload p" "length q < PACKETS_MAP_SIZE" "i = ?e"
      "slot (maps s) i = uncommitted p" "unat (lck_index (maps s)) = Suc i mod PACKETS_MAP_SIZE"
      using prod by (auto simp: prod_ok_def Let_def intro: same_all_flds)
    then have i: "i < PACKETS_MAP_SIZE" "is_clearing (cpc s) \<Longrightarrow> i \<noteq> ?h" using tail_not_head [OF assms(2) p(2)] by simp_all
    have "ring_at 0 ((shown s)[i := p]) ?h (q @ [p])" using ring_push [OF ring(1) p(2,1)] p(3) by simp
    moreover have "cons_ok (s\<lparr>maps := put_slot i p (maps s)\<rparr>) (q @ [p])"
      using cons_ok_append [OF cons_ok_other_slot [OF cons i(2)]] i(1) ring(3) by simp
    ultimately show ?thesis
      using P_commit p i(1) acc ring(3) shown_slot(2) [OF i(1) ring(3) i(2)]
      by (intro exI [of _ "q @ [p]"]) (simp add: conc_inv_def prod_ok_def Let_def mod_simps)
  qed (use prod acc ring cons lk assms(3) in
      \<open>auto intro!: exI [of _ q] simp: conc_inv_def prod_ok_def Let_def array_lookup_ok_def unat_next_slot split: if_splits\<close>)
qed

lemma prod_ok_frame [simp]:
  "prod_ok (s\<lparr>cpc := c\<rparr>) q = prod_ok s q" "prod_ok (s\<lparr>dest := d\<rparr>) q = prod_ok s q"
  by (simp_all add: prod_ok_def Let_def split: prod_pc.split)

text \<open>The consumer writes only the head slot, which the producer never looks at while it copies.\<close>

lemma prod_ok_head_write:
  assumes "conc_inv s q" and "is_clearing (cpc s)"
  shows "prod_ok (s\<lparr>maps := put_slot (unat (next_index s)) x (maps s)\<rparr>) q"
proof -
  have "prod_ok s q" using assms(1) by (simp add: conc_inv_def)
  with tail_not_head [OF assms(1) _ assms(2)] conc_inv_ring(2,3) [OF assms(1)] show ?thesis
    by (auto simp: prod_ok_def Let_def split: prod_pc.splits)
qed

lemma prod_ok_advance:
  assumes "prod_ok s (x # q)" and "unat (next_index s) < PACKETS_MAP_SIZE"
  shows "prod_ok (s\<lparr>next_index := next_slot (next_index s), delivered := d, cpc := c\<rparr>) q"
  using assms by (auto simp: prod_ok_def Let_def unat_next_slot mod_simps split: prod_pc.splits)

lemma shown_not_clearing: "\<not> is_clearing (cpc s) \<Longrightarrow> shown s = last_payload (maps s)"
  by (simp add: shown_def)

lemma conc_inv_cons:
  assumes "cons_step s s'" and "conc_inv s q"
  shows "\<exists>q'. conc_inv s' q'"
proof -
  let ?h = "unat (next_index s)" and ?sl = "last_payload (maps s)"
  have acc: "accepted s = delivered s @ q" and prod: "prod_ok s q" and cons: "cons_ok s q"
    using assms(2) by (simp_all add: conc_inv_def)
  note ring = conc_inv_ring [OF assms(2)]
  from assms(1) show ?thesis
  proof cases
    case C_found
    with ring_at_head [OF ring(1)] have "q \<noteq> []" by (simp add: shown_not_clearing slot_def)
    with C_found acc ring prod show ?thesis by (intro exI [of _ q]) (simp add: conc_inv_def cons_ok_def shown_def)
  next
    case C_spin
    with assms(2) show ?thesis by blast
  next
    case (C_read R f)
    then obtain x q' where q: "q = x # q'" using cons by (cases q) (simp_all add: cons_ok_def)
    then have "slot (maps s) ?h = x" using ring(1) C_read ring_at_head_eq [of ?sl ?h x q'] by (simp add: slot_def shown_def)
    with C_read acc ring prod cons q show ?thesis by (intro exI [of _ q]) (auto simp: conc_inv_def cons_ok_def shown_def)
  next
    case C_copied
    then have "dest s = hd q" "q \<noteq> []" using cons same_all_flds by (simp_all add: cons_ok_def)
    moreover from this have "?sl ! ?h = dest s" using ring(1) C_copied ring_at_head_eq [of ?sl ?h "hd q" "tl q"] by (simp add: shown_def)
    then have "?sl[?h := dest s] = ?sl" by (metis list_update_id)
    ultimately show ?thesis using C_copied acc prod ring by (intro exI [of _ q]) (simp add: conc_inv_def cons_ok_def shown_def)
  next
    case (C_clear R f i)
    with prod_ok_head_write [OF assms(2)] acc ring cons show ?thesis
      by (intro exI [of _ q]) (auto simp: conc_inv_def cons_ok_def shown_def)
  next
    case C_return
    then obtain x q' where q: "q = x # q'" "dest s = x" and z: "slot (maps s) ?h = zero_payload"
      using cons same_all_flds by (cases q) (simp_all add: cons_ok_def)
    have "ring_at 0 ((shown s)[?h := slot (maps s) ?h]) (Suc ?h mod PACKETS_MAP_SIZE) q'"
      using ring_pop [OF ring(1) [unfolded q(1)] _ zero_payload_invalid] z by simp
    moreover have "(shown s)[?h := slot (maps s) ?h] = ?sl" using C_return by (simp add: shown_def slot_def)
    ultimately show ?thesis using C_return acc q ring prod_ok_advance [OF prod [unfolded q(1)] ring(2)]
      by (intro exI [of _ q']) (simp add: conc_inv_def cons_ok_def shown_def unat_next_slot)
  qed
qed

lemma collided_stays: "prod_step lk s s' \<Longrightarrow> collided s \<Longrightarrow> collided s'"
  by (cases rule: prod_step.cases) auto

lemma cons_step_collided: "cons_step s s' \<Longrightarrow> collided s' = collided s"
  by (cases rule: cons_step.cases) auto

lemma conc_reach_inv:
  assumes "conc_reach lk s" and "array_lookup_ok lk" and "\<not> collided s"
  shows "\<exists>q. conc_inv s q"
  using assms(1,3)
proof induction
  case (reach_start junk)
  show ?case using conc_inv_start by blast
next
  case (reach_prod s s')
  then show ?case using conc_inv_prod [OF reach_prod(2) _ assms(2)] collided_stays by blast
next
  case (reach_cons s s')
  then show ?case using conc_inv_cons cons_step_collided by metis
qed

section \<open>Progress\<close>

lemma UNIV_fld: "(UNIV :: fld set) = {F_id, F_ts0, F_ts1, F_ts2, F_ts3, F_phase, F_magic}"
  using fld.exhaust by auto

lemma finite_fld [simp]: "finite (R :: fld set)"
  using finite_subset [OF subset_UNIV, of R] by (simp add: UNIV_fld)

lemma conc_reach_cons_runs: "cons_step\<^sup>*\<^sup>* s s' \<Longrightarrow> conc_reach lk s \<Longrightarrow> conc_reach lk s'"
  by (induction rule: rtranclp_induct) (auto intro: reach_cons)

lemma conc_reach_prod_runs: "(prod_step lk)\<^sup>*\<^sup>* s s' \<Longrightarrow> conc_reach lk s \<Longrightarrow> conc_reach lk s'"
  by (induction rule: rtranclp_induct) (auto intro: reach_prod)

text \<open>The consumer alone: clearing, and copying, in any order.\<close>

lemma cons_clears:
  assumes "finite R" and "cpc s = C_Clear R" and "unat (next_index s) < length (last_payload (maps s))"
    and "\<forall>f. f \<notin> R \<longrightarrow> same_fld f (slot (maps s) (unat (next_index s))) zero_payload"
  shows "cons_step\<^sup>*\<^sup>* s (s\<lparr>maps := put_slot (unat (next_index s)) zero_payload (maps s),
    next_index := next_slot (next_index s), delivered := delivered s @ [dest s], cpc := C_Poll\<rparr>)"
  using assms
proof (induction R arbitrary: s rule: finite_psubset_induct)
  case (psubset R)
  let ?h = "unat (next_index s)"
  show ?case
  proof (cases "R = {}")
    case True
    with psubset.prems have "slot (maps s) ?h = zero_payload" using same_all_flds by simp
    then have "put_slot ?h zero_payload (maps s) = maps s"
      using list_update_id [of "last_payload (maps s)" ?h] by (simp add: slot_def put_slot_def)
    with True psubset.prems(1) C_return [of s] show ?thesis by auto
  next
    case False
    then obtain f where f: "f \<in> R" by blast
    let ?s1 = "s\<lparr>maps := put_slot ?h (copy_fld f zero_payload (slot (maps s) ?h)) (maps s), cpc := C_Clear (R - {f})\<rparr>"
    have "R - {f} \<subset> R" using f by blast
    from psubset.IH [OF this, of ?s1] psubset.prems(2,3)
    have "cons_step\<^sup>*\<^sup>* ?s1 (s\<lparr>maps := put_slot ?h zero_payload (maps s),
        next_index := next_slot (next_index s), delivered := delivered s @ [dest s], cpc := C_Poll\<rparr>)" by auto
    with C_clear [OF psubset.prems(1) f refl] show ?thesis by (rule converse_rtranclp_into_rtranclp)
  qed
qed

lemma cons_reads:
  assumes "finite R" and "cpc s = C_Read R"
    and "\<forall>f. f \<notin> R \<longrightarrow> same_fld f (dest s) (slot (maps s) (unat (next_index s)))"
  shows "cons_step\<^sup>*\<^sup>* s (s\<lparr>dest := slot (maps s) (unat (next_index s)), cpc := C_Clear UNIV\<rparr>)"
  using assms
proof (induction R arbitrary: s rule: finite_psubset_induct)
  case (psubset R)
  show ?case
  proof (cases "R = {}")
    case True
    with psubset.prems have "dest s = slot (maps s) (unat (next_index s))" using same_all_flds by simp
    moreover have "cons_step s (s\<lparr>cpc := C_Clear UNIV\<rparr>)" using C_copied True psubset.prems by simp
    moreover have "s\<lparr>dest := dest s, cpc := C_Clear UNIV\<rparr> = s\<lparr>cpc := C_Clear UNIV\<rparr>" by simp
    ultimately show ?thesis by (metis r_into_rtranclp)
  next
    case False
    then obtain f where f: "f \<in> R" by blast
    note step = C_read [OF psubset.prems(1) f]
    have "R - {f} \<subset> R" using f by blast
    from psubset.IH [OF this, of "s\<lparr>dest := copy_fld f (slot (maps s) (unat (next_index s))) (dest s), cpc := C_Read (R - {f})\<rparr>"]
      psubset.prems(2) converse_rtranclp_into_rtranclp [of cons_step, OF step]
    show ?thesis by auto
  qed
qed

lemma cons_delivers:
  assumes "conc_inv s q" and "q \<noteq> []"
  shows "\<exists>s'. cons_step\<^sup>*\<^sup>* s s' \<and> accepted s' = accepted s \<and> delivered s' = delivered s @ [hd q]"
proof -
  let ?h = "unat (next_index s)"
  note ring = conc_inv_ring [OF assms(1)]
  have cons: "cons_ok s q" using assms(1) by (simp add: conc_inv_def)
  have clear: "\<exists>s'. cons_step\<^sup>*\<^sup>* t s' \<and> accepted s' = accepted t \<and> delivered s' = delivered t @ [dest t]"
    if "cpc t = C_Clear R" "unat (next_index t) < length (last_payload (maps t))"
      "\<forall>f. f \<notin> R \<longrightarrow> same_fld f (slot (maps t) (unat (next_index t))) zero_payload" for t R
    by (rule exI, intro conjI, rule cons_clears [OF finite_fld that]) simp_all
  have read: "\<exists>s'. cons_step\<^sup>*\<^sup>* t s' \<and> accepted s' = accepted t \<and> delivered s' = delivered t @ [slot (maps t) (unat (next_index t))]"
    if "cpc t = C_Read R" "unat (next_index t) < length (last_payload (maps t))"
      "\<forall>f. f \<notin> R \<longrightarrow> same_fld f (dest t) (slot (maps t) (unat (next_index t)))" for t R
    using cons_reads [OF finite_fld that(1,3)] clear [of "t\<lparr>dest := slot (maps t) (unat (next_index t)), cpc := C_Clear UNIV\<rparr>" UNIV] that(2)
    by (auto intro: rtranclp_trans)
  have hd: "slot (maps s) ?h = hd q" if "\<not> is_clearing (cpc s)"
    using ring_at_head_eq [of "shown s" ?h "hd q" "tl q"] ring(1) assms(2) that by (simp add: slot_def shown_not_clearing)
  show ?thesis
  proof (cases "cpc s")
    case C_Poll
    with hd ring_at_head [OF ring(1)] assms(2) have "valid_pingpong_payload (slot (maps s) ?h)" by (simp add: slot_def shown_not_clearing)
    with C_Poll have "cons_step s (s\<lparr>cpc := C_Read UNIV\<rparr>)" using C_found by blast
    with read [of "s\<lparr>cpc := C_Read UNIV\<rparr>" UNIV] hd C_Poll ring(2,3) show ?thesis
      by (auto intro: converse_rtranclp_into_rtranclp)
  next
    case (C_Read R)
    with read [OF C_Read] hd cons ring(2,3) show ?thesis by (auto simp: cons_ok_def)
  next
    case (C_Clear R)
    with clear [OF C_Clear] cons ring(2,3) show ?thesis by (auto simp: cons_ok_def)
  qed
qed

text \<open>The producer alone: copying, in any order.\<close>

lemma prod_copies:
  assumes "finite R" and "ppc s = P_Copy p i R" and "i < length (last_payload (maps s))"
    and "\<forall>f. f \<notin> R \<longrightarrow> same_fld f (slot (maps s) i) (uncommitted p)"
  shows "(prod_step lk)\<^sup>*\<^sup>* s (s\<lparr>maps := put_slot i (uncommitted p) (maps s), ppc := P_Copy p i {}\<rparr>)"
  using assms
proof (induction R arbitrary: s rule: finite_psubset_induct)
  case (psubset R)
  show ?case
  proof (cases "R = {}")
    case True
    then have "slot (maps s) i = uncommitted p" using psubset.prems same_all_flds by simp
    then have "put_slot i (uncommitted p) (maps s) = maps s"
      using list_update_id [of "last_payload (maps s)" i] by (simp add: slot_def put_slot_def)
    with True psubset.prems(1) have "s\<lparr>maps := put_slot i (uncommitted p) (maps s), ppc := P_Copy p i {}\<rparr> = s" by simp
    then show ?thesis by (metis rtranclp.rtrancl_refl)
  next
    case False
    then obtain f where f: "f \<in> R" by blast
    let ?s1 = "s\<lparr>maps := put_slot i (copy_fld f (uncommitted p) (slot (maps s) i)) (maps s), ppc := P_Copy p i (R - {f})\<rparr>"
    have "R - {f} \<subset> R" using f by blast
    from psubset.IH [OF this, of ?s1] psubset.prems(2,3)
    have "(prod_step lk)\<^sup>*\<^sup>* ?s1 (s\<lparr>maps := put_slot i (uncommitted p) (maps s), ppc := P_Copy p i {}\<rparr>)" by auto
    with P_copy [OF psubset.prems(1) f, of lk] show ?thesis by (rule converse_rtranclp_into_rtranclp)
  qed
qed

text \<open>Run without interference, the steps of the producer are \<^verbatim>\<open>add_packet_to_map\<close>.\<close>

lemma prod_accepts:
  assumes "array_lookup_ok lk" and "ppc s = P_Idle" and "valid_pingpong_payload p" and "k = lck_index (maps s)"
    and "unat k < PACKETS_MAP_SIZE" and "length (last_payload (maps s)) = PACKETS_MAP_SIZE"
    and "\<not> valid_pingpong_payload (slot (maps s) (unat k))"
  shows "(prod_step lk)\<^sup>*\<^sup>* s (s\<lparr>collided := (collided s \<or> collides s k),
     maps := put_slot (unat k) p ((maps s)\<lparr>lck_index := next_slot k\<rparr>), ppc := P_Idle, accepted := accepted s @ [p]\<rparr>)"
proof -
  let ?m1 = "(maps s)\<lparr>lck_index := next_slot k\<rparr>" and ?i = "unat k" and ?c = "collided s \<or> collides s k"
  let ?s1 = "s\<lparr>maps := ?m1, ppc := P_Look p k\<rparr>"
  let ?s2 = "s\<lparr>maps := ?m1, ppc := P_Copy p ?i UNIV, collided := ?c\<rparr>"
  let ?s3 = "s\<lparr>collided := ?c, maps := put_slot ?i (uncommitted p) ?m1, ppc := P_Copy p ?i {}\<rparr>"
  let ?s4 = "s\<lparr>collided := ?c, maps := put_slot ?i p ?m1, ppc := P_Idle, accepted := accepted s @ [p]\<rparr>"
  have s1: "prod_step lk s ?s1" using assms(2,3) lookup_ok(1) [OF assms(1)] assms(4) by (rule P_take)
  have "prod_step lk ?s1 (?s1\<lparr>ppc := P_Copy p ?i UNIV, collided := (collided ?s1 \<or> collides ?s1 k)\<rparr>)"
    by (rule P_free) (use assms(7) lookup_ok(2) [OF assms(1,5)] in simp_all)
  then have s2: "prod_step lk ?s1 ?s2" by (simp add: collides_def)
  have s3: "(prod_step lk)\<^sup>*\<^sup>* ?s2 ?s3"
    using prod_copies [of UNIV ?s2 p ?i lk] assms(5,6) by simp
  have "prod_step lk ?s3 (?s3\<lparr>maps := put_slot ?i (commit_magic (slot (maps ?s3) ?i)) (maps ?s3), ppc := P_Idle,
      accepted := accepted ?s3 @ [p]\<rparr>)" by (rule P_commit) simp
  then have "prod_step lk ?s3 ?s4" using assms(3,5,6) by simp
  with s1 s2 s3 show ?thesis
    by (meson converse_rtranclp_into_rtranclp rtranclp.rtrancl_into_rtrancl rtranclp_trans)
qed

lemma prod_refuses:
  assumes "array_lookup_ok lk" and "ppc s = P_Idle" and "valid_pingpong_payload p" and "k = lck_index (maps s)"
    and "unat k < PACKETS_MAP_SIZE" and "valid_pingpong_payload (slot (maps s) (unat k))"
  shows "(prod_step lk)\<^sup>*\<^sup>* s (s\<lparr>collided := (collided s \<or> collides s k), ppc := P_Idle, dropped := dropped s @ [p]\<rparr>)"
proof -
  let ?m1 = "(maps s)\<lparr>lck_index := next_slot k\<rparr>" and ?c = "collided s \<or> collides s k"
  let ?s1 = "s\<lparr>maps := ?m1, ppc := P_Look p k\<rparr>" and ?s2 = "s\<lparr>maps := ?m1, ppc := P_Reset p k, collided := ?c\<rparr>"
  have s1: "prod_step lk s ?s1" using assms(2,3) lookup_ok(1) [OF assms(1)] assms(4) by (rule P_take)
  have "prod_step lk ?s1 (?s1\<lparr>ppc := P_Reset p k, collided := (collided ?s1 \<or> collides ?s1 k)\<rparr>)"
    by (rule P_full) (use assms(6) lookup_ok(2) [OF assms(1,5)] in simp_all)
  then have s2: "prod_step lk ?s1 ?s2" by (simp add: collides_def)
  have "prod_step lk ?s2 (?s2\<lparr>maps := (maps ?s2)\<lparr>lck_index := k\<rparr>, ppc := P_Idle, dropped := dropped ?s2 @ [p]\<rparr>)"
    by (rule P_reset) simp
  then have "prod_step lk ?s2 (s\<lparr>collided := ?c, ppc := P_Idle, dropped := dropped s @ [p]\<rparr>)" using assms(4) by simp
  with s1 s2 show ?thesis by (meson converse_rtranclp_into_rtranclp r_into_rtranclp)
qed

lemma producer_steps_are_add_packet:
  assumes "conc_reach lk s" and "array_lookup_ok lk" and "\<not> collided s" and "ppc s = P_Idle"
    and "valid_pingpong_payload p" and "add_packet_to_map lk (Some p) (maps s) = (rc, p', m')"
  shows "\<exists>s'. (prod_step lk)\<^sup>*\<^sup>* s s' \<and> ppc s' = P_Idle \<and> maps s' = m'
    \<and> (if rc = 0 then accepted s' = accepted s @ [p] \<and> dropped s' = dropped s
       else rc = - 1 \<and> accepted s' = accepted s \<and> dropped s' = dropped s @ [p])"
proof -
  let ?k = "lck_index (maps s)"
  let ?c = "collided s \<or> collides s ?k"
  obtain q where "conc_inv s q" using conc_reach_inv [OF assms(1-3)] by blast
  then have i: "unat ?k < PACKETS_MAP_SIZE" and len: "length (last_payload (maps s)) = PACKETS_MAP_SIZE"
    using assms(4) by (simp_all add: conc_inv_def prod_ok_def Let_def)
  show ?thesis
  proof (cases "valid_pingpong_payload (slot (maps s) (unat ?k))")
    case True
    from add_packet_full [OF assms(2) i True, of p] assms(6) have "rc = - 1" "m' = maps s" by simp_all
    then show ?thesis
      by (intro exI [of _ "s\<lparr>collided := ?c, ppc := P_Idle, dropped := dropped s @ [p]\<rparr>"] conjI
          prod_refuses [OF assms(2,4,5) refl i True]) simp_all
  next
    case False
    from add_packet_room [OF assms(2) _ len assms(5) False] i len assms(6)
    have "rc = 0" "m' = put_slot (unat ?k) p ((maps s)\<lparr>lck_index := next_slot ?k\<rparr>)" by simp_all
    then show ?thesis
      by (intro exI [of _ "s\<lparr>collided := ?c, maps := m', ppc := P_Idle, accepted := accepted s @ [p]\<rparr>"] conjI)
        (use prod_accepts [OF assms(2,4,5) refl i len False] in simp_all)
  qed
qed

section \<open>Properties\<close>

text \<open>C2: the lock-free ring is a FIFO queue. In every reachable interleaving of the single accesses of the
  producer and the consumer in which the producer has not tested a slot in the middle of its clearing (which
  takes 128 outstanding payloads, C18), whatever the order of \<^verbatim>\<open>memcpy\<close> and \<^verbatim>\<open>memset\<close>, the payloads user
  space has received are a prefix, in order and bit for bit (no torn reads), of the payloads the eBPF side has
  accepted, and at most 128 accepted payloads are outstanding.\<close>

theorem ring_interleaving_fifo:
  assumes "conc_reach lk s" and "array_lookup_ok lk" and "\<not> collided s"
  shows "\<exists>q. accepted s = delivered s @ q \<and> length q \<le> PACKETS_MAP_SIZE"
  using conc_reach_inv [OF assms] by (auto simp: conc_inv_def ring_at_def)

definition demo_lookup :: "nat \<Rightarrow> u32 \<Rightarrow> nat option" where
  "demo_lookup n k = (if unat k < n then Some (unat k) else None)"

lemma demo_lookup_ok: "array_lookup_ok demo_lookup"
  by (simp add: array_lookup_ok_def demo_lookup_def)

lemma demo_run:
  "\<exists>s. conc_reach demo_lookup s \<and> accepted s = [new_pingpong_payload 1] \<and> delivered s = [] \<and> \<not> collided s"
proof -
  let ?s = "conc_start zero_payload" and ?p = "new_pingpong_payload 1"
  let ?s' = "?s\<lparr>collided := False, maps := put_slot 0 ?p ((maps ?s)\<lparr>lck_index := next_slot 0\<rparr>), ppc := P_Idle, accepted := [?p]\<rparr>"
  have "(prod_step demo_lookup)\<^sup>*\<^sup>* ?s ?s'"
    using prod_accepts [OF demo_lookup_ok, of ?s ?p 0]
    by (simp add: conc_start_def empty_maps_def slot_def collides_def zero_payload_invalid)
  from conc_reach_prod_runs [OF this reach_start] show ?thesis
    by (intro exI [of _ ?s'] conjI) (simp_all add: conc_start_def)
qed

theorem ring_interleaving_fifo_witness:
  "\<exists>s. conc_reach demo_lookup s \<and> accepted s = [new_pingpong_payload 1]
     \<and> (\<exists>q. accepted s = delivered s @ q \<and> length q \<le> PACKETS_MAP_SIZE)"
proof -
  obtain s where s: "conc_reach demo_lookup s" "accepted s = [new_pingpong_payload 1]" "\<not> collided s"
    using demo_run by blast
  with ring_interleaving_fifo [OF s(1) demo_lookup_ok s(3)] show ?thesis by blast
qed

text \<open>C18: what goes wrong takes a full ring. As long as the producer has not tested a slot being cleared: if its
  test of the slot makes it drop the packet, or if the slot it tests is the one being cleared, then 128
  accepted payloads have not been delivered yet; and no lookup ever fails.\<close>

theorem ring_drops_only_when_full:
  assumes "conc_reach lk s" and "array_lookup_ok lk" and "\<not> collided s"
    and "prod_step lk s s'" and "ppc s = P_Look p k" and "ppc s' = P_Reset p k \<or> ppc s' = P_Idle \<or> collided s'"
  shows "ppc s' \<noteq> P_Idle \<and> length (accepted s) = length (delivered s) + PACKETS_MAP_SIZE"
proof -
  obtain q where q: "conc_inv s q" using conc_reach_inv [OF assms(1-3)] by blast
  then have k: "unat k = (unat (next_index s) + length q) mod PACKETS_MAP_SIZE"
    using assms(5) by (simp add: conc_inv_def prod_ok_def Let_def)
  then have lk: "lk PACKETS_MAP_SIZE k = Some (unat k)" using lookup_ok(2) [OF assms(2), of k] by simp
  with assms(3-6) have out: "ppc s' \<noteq> P_Idle" "collides s k \<or> valid_pingpong_payload (slot (maps s) (unat k)) \<and> \<not> collides s k"
    by (auto elim: prod_step.cases)
  have "length q = PACKETS_MAP_SIZE"
  proof (rule ccontr)
    assume "length q \<noteq> PACKETS_MAP_SIZE"
    then have room: "length q < PACKETS_MAP_SIZE" using conc_inv_ring(4) [OF q] by simp
    then have other: "is_clearing (cpc s) \<Longrightarrow> unat k \<noteq> unat (next_index s)" using tail_not_head [OF q] k by simp
    then have "valid_pingpong_payload (shown s ! unat k)"
      using out(2) shown_slot(1) [OF _ conc_inv_ring(3) [OF q] other] k by (auto simp: collides_def)
    with ring_at_next [OF conc_inv_ring(1) [OF q]] room k show False by simp
  qed
  with q out(1) show ?thesis by (simp add: conc_inv_def)
qed

lemma fill_ring:
  "n \<le> PACKETS_MAP_SIZE \<Longrightarrow>
   \<exists>s. conc_reach demo_lookup s \<and> ppc s = P_Idle \<and> cpc s = C_Poll \<and> next_index s = 0 \<and> delivered s = []
     \<and> dropped s = [] \<and> \<not> collided s \<and> conc_inv s (replicate n (new_pingpong_payload 1))"
proof (induction n)
  case 0
  show ?case by (intro exI [of _ "conc_start zero_payload"] conjI reach_start)
    (simp_all add: conc_inv_start, simp_all add: conc_start_def)
next
  case (Suc n)
  let ?p = "new_pingpong_payload 1"
  obtain s where s: "conc_reach demo_lookup s" "ppc s = P_Idle" "cpc s = C_Poll" "next_index s = 0" "delivered s = []"
      "dropped s = []" "\<not> collided s" "conc_inv s (replicate n ?p)"
    using Suc.IH Suc.prems by auto
  let ?k = "lck_index (maps s)"
  let ?s' = "s\<lparr>collided := False, maps := put_slot (unat ?k) ?p ((maps s)\<lparr>lck_index := next_slot ?k\<rparr>),
      ppc := P_Idle, accepted := accepted s @ [?p]\<rparr>"
  have ix: "unat ?k = n" using s Suc.prems by (simp add: conc_inv_def prod_ok_def Let_def)
  note ring = conc_inv_ring [OF s(8)]
  have "\<not> valid_pingpong_payload (slot (maps s) (unat ?k))"
    using ring_at_next [OF ring(1)] ix s(3,4) Suc.prems by (simp add: slot_def shown_def)
  then have run: "(prod_step demo_lookup)\<^sup>*\<^sup>* s ?s'"
    using prod_accepts [OF demo_lookup_ok s(2) valid_new_payload refl, of 1] ix ring(3) Suc.prems s(3,7)
    by (simp add: collides_def)
  from conc_reach_prod_runs [OF run s(1)] have r: "conc_reach demo_lookup ?s'" .
  moreover obtain q where q: "conc_inv ?s' q" using conc_reach_inv [OF r demo_lookup_ok] by auto
  moreover have "q = replicate (Suc n) ?p"
    using q s(5,8) by (simp add: conc_inv_def replicate_append_same)
  ultimately show ?case using s by (intro exI [of _ ?s'] conjI) simp_all
qed

lemma full_ring:
  obtains s where "conc_reach demo_lookup s" "ppc s = P_Idle" "cpc s = C_Poll" "next_index s = 0" "delivered s = []"
    "dropped s = []" "\<not> collided s" "accepted s = replicate PACKETS_MAP_SIZE (new_pingpong_payload 1)" "lck_index (maps s) = 0"
    "last_payload (maps s) = replicate PACKETS_MAP_SIZE (new_pingpong_payload 1)"
proof -
  let ?q = "replicate PACKETS_MAP_SIZE (new_pingpong_payload 1)"
  obtain s where s: "conc_reach demo_lookup s" "ppc s = P_Idle" "cpc s = C_Poll" "next_index s = 0" "delivered s = []"
    "dropped s = []" "\<not> collided s" "conc_inv s ?q"
    using fill_ring [of PACKETS_MAP_SIZE] by auto
  have "unat (lck_index (maps s)) = 0" using s by (simp add: conc_inv_def prod_ok_def Let_def)
  moreover have "last_payload (maps s) = ?q"
    using conc_inv_ring(1,3) [OF s(8)] s(3,4) by (intro nth_equalityI) (auto simp: ring_at_def shown_def)
  ultimately show thesis using s by (intro that [of s]) (simp_all add: conc_inv_def unat_eq_zero)
qed

theorem ring_drops_only_when_full_witness:
  "\<exists>s s' p k. conc_reach demo_lookup s \<and> prod_step demo_lookup s s' \<and> ppc s' = P_Reset p k
     \<and> length (accepted s) = length (delivered s) + PACKETS_MAP_SIZE"
proof -
  let ?p = "new_pingpong_payload 2"
  obtain s where s: "conc_reach demo_lookup s" "ppc s = P_Idle" "\<not> collided s" "lck_index (maps s) = 0"
    "last_payload (maps s) = replicate PACKETS_MAP_SIZE (new_pingpong_payload 1)"
    by (rule full_ring)
  let ?s1 = "s\<lparr>maps := (maps s)\<lparr>lck_index := next_slot 0\<rparr>, ppc := P_Look ?p 0\<rparr>"
  let ?s2 = "?s1\<lparr>ppc := P_Reset ?p 0, collided := (collided ?s1 \<or> collides ?s1 0)\<rparr>"
  have "prod_step demo_lookup s ?s1" using s(2) valid_new_payload lookup_ok(1) [OF demo_lookup_ok] s(4) [symmetric] by (rule P_take)
  then have r1: "conc_reach demo_lookup ?s1" by (rule reach_prod [OF s(1)])
  have "valid_pingpong_payload (slot (maps ?s1) 0)" using s(5) map_size_pos by (simp add: slot_def)
  then have full: "prod_step demo_lookup ?s1 ?s2"
    using lookup_ok(2) [OF demo_lookup_ok, of 0] by (intro P_full [where i = 0]) simp_all
  have "length (accepted ?s1) = length (delivered ?s1) + PACKETS_MAP_SIZE"
    using ring_drops_only_when_full [OF r1 demo_lookup_ok _ full, of ?p 0] s(3) by simp
  with r1 full show ?thesis by (intro exI [of _ ?s1] exI [of _ ?s2] exI [of _ ?p] exI [of _ 0]) simp
qed

text \<open>C21: the consumer makes progress. From every reachable interleaving with an undelivered payload (in which the
  producer has not tested a slot being cleared), steps of the consumer alone, whatever the producer was doing,
  deliver the oldest one, exactly as it was accepted.\<close>

theorem ring_consumer_progress:
  assumes "conc_reach lk s" and "array_lookup_ok lk" and "\<not> collided s" and "accepted s \<noteq> delivered s"
  shows "\<exists>s'. cons_step\<^sup>*\<^sup>* s s' \<and> accepted s' = accepted s
     \<and> delivered s' = delivered s @ [accepted s ! length (delivered s)]"
proof -
  obtain q where q: "conc_inv s q" using conc_reach_inv [OF assms(1-3)] by blast
  then have "q \<noteq> []" and "accepted s = delivered s @ q" using assms(4) by (auto simp: conc_inv_def)
  with cons_delivers [OF q] show ?thesis by (simp add: nth_append hd_conv_nth)
qed

theorem ring_consumer_progress_witness:
  "\<exists>s s'. cons_step\<^sup>*\<^sup>* s s' \<and> delivered s = [] \<and> delivered s' = [new_pingpong_payload 1]"
proof -
  obtain s where s: "conc_reach demo_lookup s" "accepted s = [new_pingpong_payload 1]" "delivered s = []" "\<not> collided s"
    using demo_run by blast
  from ring_consumer_progress [OF s(1) demo_lookup_ok s(4)] s(2,3) show ?thesis by auto
qed

text \<open>C23: with a full ring the queue breaks. There is an interleaving in which 128 payloads are outstanding, the
  consumer is clearing the oldest one's slot, magic number first, and the packet that arrives is accepted into
  that slot and then overwritten by the rest of the clearing: \<^verbatim>\<open>add_packet_to_map\<close> has returned 0 for it, its
  payload is in no slot and in no local copy, and the slot holds a valid payload that no packet carried.\<close>

theorem full_ring_payload_torn:
  "\<exists>s. conc_reach demo_lookup s \<and> ppc s = P_Idle \<and> dropped s = [] \<and> delivered s = []
     \<and> accepted s = replicate PACKETS_MAP_SIZE (new_pingpong_payload 1) @ [new_pingpong_payload 2]
     \<and> dest s = new_pingpong_payload 1 \<and> new_pingpong_payload 2 \<notin> set (last_payload (maps s))
     \<and> valid_pingpong_payload (slot (maps s) 0) \<and> slot (maps s) 0 \<notin> set (accepted s)"
proof -
  let ?p = "new_pingpong_payload 2" and ?o = "new_pingpong_payload 1"
  obtain s where s: "conc_reach demo_lookup s" "ppc s = P_Idle" "cpc s = C_Poll" "next_index s = 0" "delivered s = []"
    "dropped s = []" "accepted s = replicate PACKETS_MAP_SIZE ?o" "lck_index (maps s) = 0"
    "last_payload (maps s) = replicate PACKETS_MAP_SIZE ?o"
    by (rule full_ring)
  have sl: "slot (maps s) 0 = ?o" "0 < length (last_payload (maps s))" using s(9) map_size_pos by (simp_all add: slot_def)
  let ?a = "copy_fld F_magic zero_payload ?o" and ?z = "commit_magic (copy_fld F_id zero_payload (uncommitted ?p))"
  let ?C = "C_Clear (UNIV - {F_magic})"
  let ?s1 = "s\<lparr>dest := ?o, cpc := C_Clear UNIV\<rparr>"
  let ?s2 = "s\<lparr>dest := ?o, maps := put_slot 0 ?a (maps s), cpc := ?C\<rparr>"
  let ?m3 = "(put_slot 0 ?a (maps s))\<lparr>lck_index := next_slot 0\<rparr>"
  let ?s3 = "?s2\<lparr>maps := ?m3, ppc := P_Look ?p 0\<rparr>"
  let ?s4 = "?s3\<lparr>ppc := P_Copy ?p 0 UNIV, collided := True\<rparr>"
  let ?s5 = "?s4\<lparr>maps := put_slot 0 (uncommitted ?p) ?m3, ppc := P_Copy ?p 0 {}\<rparr>"
  let ?s6 = "?s5\<lparr>maps := put_slot 0 (copy_fld F_id zero_payload (uncommitted ?p)) ?m3, cpc := C_Clear (UNIV - {F_magic} - {F_id})\<rparr>"
  let ?s7 = "?s6\<lparr>maps := put_slot 0 ?z ?m3, ppc := P_Idle, accepted := accepted s @ [?p]\<rparr>"
  have "cons_step s (s\<lparr>cpc := C_Read UNIV\<rparr>)" using s(3,4) sl by (intro C_found) simp_all
  moreover have "cons_step\<^sup>*\<^sup>* (s\<lparr>cpc := C_Read UNIV\<rparr>) ?s1"
    using cons_reads [of UNIV "s\<lparr>cpc := C_Read UNIV\<rparr>"] s(4) sl by simp
  ultimately have r1: "conc_reach demo_lookup ?s1" using reach_cons [OF s(1)] conc_reach_cons_runs by blast
  have "cons_step ?s1 ?s2" using C_clear [of ?s1 UNIV F_magic 0] s(4) sl by simp
  then have r2: "conc_reach demo_lookup ?s2" by (rule reach_cons [OF r1])
  have "prod_step demo_lookup ?s2 ?s3"
    using P_take [of ?s2 ?p demo_lookup 0 0] s(2,8) lookup_ok(1) [OF demo_lookup_ok] by simp
  then have r3: "conc_reach demo_lookup ?s3" by (rule reach_prod [OF r2])
  have inv: "\<not> valid_pingpong_payload ?a" by (simp add: valid_pingpong_payload_def magic_copy_fld zero_payload_def PINGPONG_MAGIC_def)
  have "prod_step demo_lookup ?s3 ?s4"
    using P_free [of ?s3 ?p 0 demo_lookup 0] lookup_ok(2) [OF demo_lookup_ok, of 0] inv s(4) sl
    by (simp add: collides_def)
  then have r4: "conc_reach demo_lookup ?s4" by (rule reach_prod [OF r3])
  have "(prod_step demo_lookup)\<^sup>*\<^sup>* ?s4 ?s5" using prod_copies [of UNIV ?s4 ?p 0 demo_lookup] sl by simp
  from conc_reach_prod_runs [OF this r4] have r5: "conc_reach demo_lookup ?s5" .
  have "cons_step ?s5 ?s6" using C_clear [of ?s5 "UNIV - {F_magic}" F_id 0] s(4) sl by simp
  then have r6: "conc_reach demo_lookup ?s6" by (rule reach_cons [OF r5])
  have "prod_step demo_lookup ?s6 ?s7" using P_commit [of ?s6 ?p 0 demo_lookup] sl by simp
  then have r7: "conc_reach demo_lookup ?s7" by (rule reach_prod [OF r6])
  have z: "pp_id ?z = 0" "pp_id ?o = 1" "pp_id ?p = 2" "valid_pingpong_payload ?z"
    by (simp_all add: commit_magic_def copy_fld_def uncommitted_def valid_pingpong_payload_def zero_payload_def new_pingpong_payload_def magic_commit)
  have ne: "pp_id a \<noteq> pp_id b \<Longrightarrow> a \<noteq> b" for a b :: pingpong_payload by auto
  have "?p \<noteq> ?z" by (rule ne) (simp only: z, simp)
  moreover have "?o \<noteq> ?z" by (rule ne) (simp only: z, simp)
  moreover have "?p \<noteq> ?o" by (rule ne) (simp only: z, simp)
  ultimately show ?thesis using r7 s sl z(4)
    by (intro exI [of _ ?s7] conjI) (auto simp: set_update_memI dest: set_update_subset_insert [THEN subsetD])
qed

end
