(* ===== verification/Utils.thy ===== *)
theory Utils
  imports Prelude
begin

text \<open>
  Time (\<^verbatim>\<open>common/utils.c\<close>) and the part of the operating system the programs talk to. The world is explicit:
  the \<open>n\<close>-th call of \<^verbatim>\<open>clock_gettime\<close> answers \<open>ticks w n\<close> (seconds and nanoseconds), the \<open>n\<close>-th call of
  \<^verbatim>\<open>sendto\<close> returns \<open>send_ret w n\<close>; the requests of \<^verbatim>\<open>nanosleep\<close> and the packets put on the wire are recorded.
  The record is extensible, so that a program can add its own state to it.

  The busy-wait of \<^verbatim>\<open>pp_sleep\<close> need not end when the clock stands still: it is a partial function whose value
  \<open>None\<close> means that it spins forever.
\<close>

section \<open>Definitions\<close>

record world =
  ticks :: "nat \<Rightarrow> int \<times> int"
  nread :: nat
  slept :: "(u64 \<times> u64) list"
  send_ret :: "nat \<Rightarrow> int"
  nsend :: nat
  sent :: "bytes list"

definition time_of :: "int \<times> int \<Rightarrow> int" where
  "time_of t = fst t * 1000000000 + snd t"

definition reading :: "'a world_scheme \<Rightarrow> nat \<Rightarrow> u64" where
  "reading w n = word_of_int (time_of (ticks w n))"

definition get_time_ns :: "'a world_scheme \<Rightarrow> u64 \<times> 'a world_scheme" where
  "get_time_ns w = (word_of_int (fst (ticks w (nread w)) * 1000000000 + snd (ticks w (nread w))), w\<lparr>nread := nread w + 1\<rparr>)"

partial_function (option) spin :: "u64 \<Rightarrow> u64 \<Rightarrow> 'a world_scheme \<Rightarrow> 'a world_scheme option" where
  "spin start ns w =
     (let r = get_time_ns w in if fst r - start < ns then spin start ns (snd r) else Some (snd r))"

definition pp_sleep :: "u64 \<Rightarrow> 'a world_scheme \<Rightarrow> 'a world_scheme option" where
  "pp_sleep ns w =
     (if ns \<le> 0 then Some w
      else if ns \<le> 1000000 then
        (let r = get_time_ns w in spin (fst r) ns (snd r))
      else Some (w\<lparr>slept := slept w @ [(ns div 1000000000, ns mod 1000000000)]\<rparr>))"

text \<open>\<^verbatim>\<open>sendto\<close> on the raw socket: the whole buffer goes out unless the call fails.\<close>

definition sys_sendto :: "bytes \<Rightarrow> 'a world_scheme \<Rightarrow> int \<times> 'a world_scheme" where
  "sys_sendto pkt w =
     (let r = send_ret w (nsend w) in
      (r, w\<lparr>nsend := nsend w + 1, sent := (if r < 0 then sent w else sent w @ [pkt])\<rparr>))"

text \<open>The clock never stands still for good: after any reading there is one at least \<open>d\<close> later, for the
  delays that are spun.\<close>

definition clock_advances :: "'a world_scheme \<Rightarrow> bool" where
  "clock_advances w \<longleftrightarrow> (\<forall>n d. d \<le> 1000000 \<longrightarrow> (\<exists>m>n. d \<le> reading w m - reading w n))"

definition link_up :: "'a world_scheme \<Rightarrow> bool" where
  "link_up w \<longleftrightarrow> (\<forall>n. 0 \<le> send_ret w n)"

section \<open>Clocks\<close>

lemma get_time_ns_eq: "get_time_ns w = (reading w (nread w), w\<lparr>nread := nread w + 1\<rparr>)"
  by (simp add: get_time_ns_def reading_def time_of_def)

lemma reading_cong [simp]:
  "reading (w\<lparr>nread := n\<rparr>) k = reading w k" "reading (w\<lparr>slept := l\<rparr>) k = reading w k"
  "reading (w\<lparr>nsend := n\<rparr>) k = reading w k" "reading (w\<lparr>sent := l'\<rparr>) k = reading w k"
  by (simp_all add: reading_def)

lemma clock_link_cong [simp]:
  "clock_advances (w\<lparr>nread := n\<rparr>) = clock_advances w" "clock_advances (w\<lparr>slept := l\<rparr>) = clock_advances w"
  "clock_advances (w\<lparr>nsend := n\<rparr>) = clock_advances w" "clock_advances (w\<lparr>sent := l'\<rparr>) = clock_advances w"
  "link_up (w\<lparr>nread := n\<rparr>) = link_up w" "link_up (w\<lparr>slept := l\<rparr>) = link_up w"
  "link_up (w\<lparr>nsend := n\<rparr>) = link_up w" "link_up (w\<lparr>sent := l'\<rparr>) = link_up w"
  by (simp_all add: clock_advances_def link_up_def)

text \<open>The busy-wait stops at the first reading that is late enough.\<close>

lemma spin_first:
  assumes "nread w \<le> m" and "ns \<le> reading w m - start"
    and "\<And>k. nread w \<le> k \<Longrightarrow> k < m \<Longrightarrow> reading w k - start < ns"
  shows "spin start ns w = Some (w\<lparr>nread := m + 1\<rparr>)"
  using assms
proof (induction "m - nread w" arbitrary: w)
  case 0
  then show ?case by (subst spin.simps) (auto simp: get_time_ns_eq Let_def dest: leD)
next
  case (Suc d)
  then have less: "nread w < m" by simp
  then have "reading w (nread w) - start < ns" using Suc.prems(3) by simp
  moreover have "spin start ns (w\<lparr>nread := nread w + 1\<rparr>) = Some (w\<lparr>nread := m + 1\<rparr>)"
    using Suc.hyps(1) [of "w\<lparr>nread := nread w + 1\<rparr>"] Suc.hyps(2) Suc.prems less by simp
  ultimately show ?case by (subst spin.simps) (simp add: get_time_ns_eq Let_def)
qed

lemma spin_returns:
  assumes "nread w \<le> m" and "ns \<le> reading w m - start"
  shows "\<exists>k\<ge>nread w. k \<le> m \<and> ns \<le> reading w k - start \<and> spin start ns w = Some (w\<lparr>nread := k + 1\<rparr>)"
proof -
  let ?P = "\<lambda>k. nread w \<le> k \<and> ns \<le> reading w k - start"
  have m: "?P m" using assms by simp
  have P: "?P (Least ?P)" using m by (rule LeastI)
  have le: "Least ?P \<le> m" using m by (rule Least_le)
  have least: "reading w k - start < ns" if "nread w \<le> k" "k < Least ?P" for k
    using not_less_Least [OF that(2)] that(1) by (simp add: not_le)
  have "spin start ns w = Some (w\<lparr>nread := Least ?P + 1\<rparr>)"
    using P least by (intro spin_first) simp_all
  with P le show ?thesis by blast
qed

lemma pp_sleep_zero: "pp_sleep 0 w = Some w"
  by (simp add: pp_sleep_def)

lemma pp_sleep_short:
  "0 < ns \<Longrightarrow> ns \<le> 1000000 \<Longrightarrow> pp_sleep ns w = spin (reading w (nread w)) ns (w\<lparr>nread := nread w + 1\<rparr>)"
  by (auto simp: pp_sleep_def get_time_ns_eq Let_def)

lemma pp_sleep_long:
  "\<not> ns \<le> 1000000 \<Longrightarrow> pp_sleep ns w = Some (w\<lparr>slept := slept w @ [(ns div 1000000000, ns mod 1000000000)]\<rparr>)"
  by (auto simp: pp_sleep_def)

lemma pp_sleep_returns:
  assumes "clock_advances w"
  shows "\<exists>n l. pp_sleep ns w = Some (w\<lparr>nread := n, slept := l\<rparr>)"
proof (cases "0 < ns \<and> ns \<le> 1000000")
  case True
  then obtain m where m: "nread w < m" "ns \<le> reading w m - reading w (nread w)"
    using assms by (auto simp: clock_advances_def)
  obtain k where "spin (reading w (nread w)) ns (w\<lparr>nread := nread w + 1\<rparr>) = Some (w\<lparr>nread := k + 1\<rparr>)"
    using spin_returns [of "w\<lparr>nread := nread w + 1\<rparr>" m ns "reading w (nread w)"] m by auto
  with True show ?thesis
    by (intro exI [of _ "k + 1"] exI [of _ "slept w"]) (simp add: pp_sleep_short)
next
  case False
  then consider "ns = 0" | "\<not> ns \<le> 1000000" by (auto simp: word_gt_0)
  then show ?thesis
  proof cases
    case 1
    show ?thesis unfolding 1 pp_sleep_zero by (intro exI [of _ "nread w"] exI [of _ "slept w"]) simp
  next
    case 2
    show ?thesis unfolding pp_sleep_long [OF 2] by (intro exI [of _ "nread w"] exI) simp
  qed
qed

section \<open>Properties\<close>

text \<open>\<^verbatim>\<open>pp_sleep\<close> returns and does not return early. On an advancing clock every call returns. A delay of up to
  one millisecond is spun: the reading that ends the wait is at least \<open>ns\<close> after the first one, and no reading
  between was. A longer delay is handed to \<^verbatim>\<open>nanosleep\<close> as a well-formed timespec of exactly \<open>ns\<close>.\<close>

theorem pp_sleep_waits:
  assumes "clock_advances w" and "0 < ns"
  shows "\<exists>w'. pp_sleep ns w = Some w' \<and>
    (if ns \<le> 1000000 then
       slept w' = slept w \<and> nread w + 1 < nread w' \<and> ns \<le> reading w (nread w' - 1) - reading w (nread w)
       \<and> (\<forall>k. nread w < k \<and> k < nread w' - 1 \<longrightarrow> reading w k - reading w (nread w) < ns)
     else
       (\<exists>s n. slept w' = slept w @ [(s, n)] \<and> unat n < 1000000000 \<and> unat s * 1000000000 + unat n = unat ns))"
proof (cases "ns \<le> 1000000")
  case True
  let ?P = "\<lambda>m. nread w < m \<and> ns \<le> reading w m - reading w (nread w)"
  obtain m where "?P m" using assms(1) True by (auto simp: clock_advances_def)
  then have P: "?P (Least ?P)" by (rule LeastI)
  have least: "reading w k - reading w (nread w) < ns" if "nread w < k" "k < Least ?P" for k
    using not_less_Least [OF that(2)] that(1) by (simp add: not_le)
  have "spin (reading w (nread w)) ns (w\<lparr>nread := nread w + 1\<rparr>) = Some (w\<lparr>nread := Least ?P + 1\<rparr>)"
    using spin_first [of "w\<lparr>nread := nread w + 1\<rparr>" "Least ?P"] P least by simp
  with True assms(2) P least show ?thesis
    by (intro exI [of _ "w\<lparr>nread := Least ?P + 1\<rparr>"]) (simp add: pp_sleep_short)
next
  case False
  have "unat (ns mod 1000000000) < 1000000000" by (simp add: unat_mod)
  moreover have "unat (ns div 1000000000) * 1000000000 + unat (ns mod 1000000000) = unat ns"
    by (simp add: unat_div unat_mod)
  ultimately show ?thesis using False by (simp add: pp_sleep_long)
qed

definition demo_world :: world where
  "demo_world = \<lparr>ticks = \<lambda>n. (0, int n * 1000000), nread = 0, slept = [], send_ret = \<lambda>_. 1024, nsend = 0, sent = []\<rparr>"

lemma demo_clock: "clock_advances demo_world" "link_up demo_world"
proof -
  have "\<exists>m>n. d \<le> reading demo_world m - reading demo_world n" if "d \<le> 1000000" for n d
    using that by (intro exI [of _ "Suc n"]) (simp add: reading_def demo_world_def time_of_def algebra_simps)
  then show "clock_advances demo_world" by (simp add: clock_advances_def)
  show "link_up demo_world" by (simp add: link_up_def demo_world_def)
qed

theorem pp_sleep_waits_witness:
  "\<exists>w'. pp_sleep 5000 demo_world = Some w' \<and> 5000 \<le> reading demo_world (nread w' - 1) - reading demo_world 0"
  using pp_sleep_waits [OF demo_clock(1), of 5000] by (auto simp: demo_world_def)

end
