(* ===== verification/Net.thy ===== *)
theory Net
  imports Headers Utils
begin

text \<open>
  \<^verbatim>\<open>common/net.c\<close>: the addresses of the local interface and their exchange with the peer, the construction of
  the base packet, and the sender thread. The operating system enters through records of the results of its
  calls: \<open>if_env\<close> for the interface queries, \<open>xchg_env\<close> for the UDP exchange (a received datagram is \<open>Some\<close> of
  its bytes, a failing call \<open>None\<close> or a negative number), \<open>world\<close> for time and the raw socket, \<open>cpu_env\<close> for the
  processor affinity.
\<close>

section \<open>Definitions\<close>

subsection \<open>Addresses\<close>

text \<open>\<^verbatim>\<open>inet_aton\<close> is a parameter: \<open>None\<close> for a malformed string.\<close>

definition convert_ip :: "(string \<Rightarrow> u32 option) \<Rightarrow> string option \<Rightarrow> u32 \<Rightarrow> int \<times> u32" where
  "convert_ip inet_aton ip ip_addr =
     (case ip of
        None \<Rightarrow> (0, 0)
      | Some s \<Rightarrow> (case inet_aton s of None \<Rightarrow> (- 1, ip_addr) | Some a \<Rightarrow> (0, a)))"

record if_env =
  ie_name :: "int \<Rightarrow> string option"
  ie_socket :: int
  ie_ioctl :: "string \<Rightarrow> u32 option"
  ie_file :: "string \<Rightarrow> string option"
  ie_fclose :: int

definition retrieve_local_ip :: "if_env \<Rightarrow> int \<Rightarrow> u32 \<Rightarrow> int \<times> u32" where
  "retrieve_local_ip env ifindex out_addr =
     (case ie_name env ifindex of
        None \<Rightarrow> (- 1, out_addr)
      | Some ifname \<Rightarrow>
          if ie_socket env < 0 then (- 1, out_addr)
          else (case ie_ioctl env ifname of None \<Rightarrow> (- 1, out_addr) | Some a \<Rightarrow> (0, a)))"

text \<open>\<^verbatim>\<open>fgets\<close>: up to \<open>n - 1\<close> characters, through the first newline; nothing at the end of the file.\<close>

fun line_of :: "nat \<Rightarrow> string \<Rightarrow> string" where
  "line_of 0 s = []"
| "line_of (Suc n) [] = []"
| "line_of (Suc n) (c # s) = (if c = CHR 0x0A then [c] else c # line_of n s)"

definition fgets :: "nat \<Rightarrow> string \<Rightarrow> string option" where
  "fgets n s = (if s = [] then None else Some (line_of (n - 1) s))"

text \<open>\<^verbatim>\<open>%hhx\<close>: blanks, an optional sign, an optional \<^verbatim>\<open>0x\<close>, hexadecimal digits; the value is cut to a byte.\<close>

definition hex_val :: "char \<Rightarrow> nat option" where
  "hex_val c =
     (let n = of_char c in
      if 48 \<le> n \<and> n \<le> 57 then Some (n - 48)
      else if 97 \<le> n \<and> n \<le> 102 then Some (n - 87)
      else if 65 \<le> n \<and> n \<le> 70 then Some (n - 55) else None)"

fun hex_digits :: "nat \<Rightarrow> string \<Rightarrow> nat \<times> string" where
  "hex_digits a [] = (a, [])"
| "hex_digits a (c # s) = (case hex_val c of None \<Rightarrow> (a, c # s) | Some d \<Rightarrow> hex_digits (16 * a + d) s)"

definition scan_hhx :: "string \<Rightarrow> (u8 \<times> string) option" where
  "scan_hhx s =
     (let s1 = dropWhile is_blank s;
          neg = (s1 \<noteq> [] \<and> hd s1 = CHR ''-'');
          s2 = (if s1 \<noteq> [] \<and> (hd s1 = CHR ''-'' \<or> hd s1 = CHR ''+'') then tl s1 else s1);
          s3 = (if take 2 s2 = ''0x'' \<or> take 2 s2 = ''0X'' then drop 2 s2 else s2) in
      if s3 = [] \<or> hex_val (hd s3) = None then None
      else (let (v, r) = hex_digits 0 s3; u = min v (2 ^ 64 - 1) in
            Some (if neg then - of_nat u else of_nat u, r)))"

text \<open>\<^verbatim>\<open>sscanf (s, "%hhx:%hhx:...")\<close> with \<open>n\<close> conversions: the bytes converted before the first mismatch.\<close>

fun scan_mac :: "nat \<Rightarrow> string \<Rightarrow> bytes" where
  "scan_mac 0 s = []"
| "scan_mac (Suc n) s =
     (case scan_hhx s of
        None \<Rightarrow> []
      | Some (b, r) \<Rightarrow>
          b # (if n = 0 then [] else (case r of [] \<Rightarrow> [] | c # r' \<Rightarrow> if c = CHR '':'' then scan_mac n r' else [])))"

definition address_path :: "string \<Rightarrow> string" where
  "address_path ifname = take 191 (''/sys/class/net/'' @ ifname @ ''/address'')"

definition retrieve_local_mac :: "if_env \<Rightarrow> int \<Rightarrow> bytes \<Rightarrow> int \<times> bytes" where
  "retrieve_local_mac env ifindex out_mac =
     (case ie_name env ifindex of
        None \<Rightarrow> (- 1, out_mac)
      | Some ifname \<Rightarrow>
          (case ie_file env (address_path ifname) of
             None \<Rightarrow> (- 1, out_mac)
           | Some f \<Rightarrow>
               (case fgets 18 f of
                  None \<Rightarrow> (- 1, out_mac)
                | Some mac_str \<Rightarrow>
                    if ie_fclose env \<noteq> 0 then (- 1, out_mac)
                    else
                      let bs = scan_mac 6 mac_str in
                      (if length bs \<noteq> 6 then - 1 else 0, mwrite out_mac 0 bs))))"

subsection \<open>The exchange of addresses\<close>

record xchg_env =
  x_socket :: int
  x_bind :: int
  x_sendto :: int
  x_recv :: "bytes option"

definition recv_into :: "bytes \<Rightarrow> nat \<Rightarrow> bytes \<Rightarrow> bytes" where
  "recv_into out n d = mwrite (mwrite out 0 (replicate n 0)) 0 (take n d)"

text \<open>The result: the return value, the output buffer and the datagram sent, if any.\<close>

definition exchange_data ::
  "xchg_env \<Rightarrow> bool \<Rightarrow> nat \<Rightarrow> bytes \<Rightarrow> bytes \<Rightarrow> int \<times> bytes \<times> bytes option" where
  "exchange_data env is_server packet_size buffer out_buffer =
     (if x_socket env < 0 then (- 1, out_buffer, None)
      else if x_bind env < 0 then (- 1, out_buffer, None)
      else if \<not> is_server then
        (if x_sendto env < 0 then (- 1, out_buffer, None)
         else
           let d = Some (take packet_size buffer) in
           (case x_recv env of
              None \<Rightarrow> (- 1, mwrite out_buffer 0 (replicate packet_size 0), d)
            | Some m \<Rightarrow> (0, recv_into out_buffer packet_size m, d)))
      else
        (case x_recv env of
           None \<Rightarrow> (- 1, mwrite out_buffer 0 (replicate packet_size 0), None)
         | Some m \<Rightarrow>
             if x_sendto env < 0 then (- 1, recv_into out_buffer packet_size m, None)
             else (0, recv_into out_buffer packet_size m, Some (take packet_size buffer))))"

definition ETH_IP_INFO_PACKET_SIZE :: nat where
  "ETH_IP_INFO_PACKET_SIZE = ETH_ALEN + 4"

record addrs =
  a_src_mac :: bytes
  a_dest_mac :: bytes
  a_src_ip :: u32
  a_dest_ip :: u32

definition exchange_eth_ip_addresses ::
  "if_env \<Rightarrow> xchg_env \<Rightarrow> int \<Rightarrow> bool \<Rightarrow> bytes \<Rightarrow> addrs \<Rightarrow> int \<times> addrs \<times> bytes option" where
  "exchange_eth_ip_addresses ienv xenv ifindex is_server junk a =
     (let mac = snd (retrieve_local_mac ienv ifindex (a_src_mac a));
          ip = snd (retrieve_local_ip ienv ifindex (a_src_ip a));
          buffer = mread mac 0 ETH_ALEN @ bytes_of_word 4 ip;
          a1 = a\<lparr>a_src_mac := mac, a_src_ip := ip\<rparr> in
      case exchange_data xenv is_server ETH_IP_INFO_PACKET_SIZE buffer junk of
        (ret, out_buffer, d) \<Rightarrow>
          if ret < 0 then (- 1, a1, d)
          else (0, a1\<lparr>a_dest_mac := mwrite (a_dest_mac a) 0 (mread out_buffer 0 ETH_ALEN),
                      a_dest_ip := word_of_bytes (mread out_buffer ETH_ALEN 4)\<rparr>, d))"

subsection \<open>Packets\<close>

fun write_macs :: "bytes \<Rightarrow> bytes \<Rightarrow> nat list \<Rightarrow> bytes \<Rightarrow> bytes" where
  "write_macs src dest [] buf = buf"
| "write_macs src dest (i # is) buf =
     write_macs src dest is (put8 (put8 buf (off_h_source + i) (src ! i)) (off_h_dest + i) (dest ! i))"

definition build_base_packet :: "bytes \<Rightarrow> bytes \<Rightarrow> bytes \<Rightarrow> u32 \<Rightarrow> u32 \<Rightarrow> int \<times> bytes" where
  "build_base_packet buf src_mac dest_mac src_ip dest_ip =
     (let b = write_macs src_mac dest_mac [0..<ETH_ALEN] buf;
          b = put16 b off_h_proto (htons ETH_P_PINGPONG);
          b = put8 b off_ip ((get8 b off_ip AND 0xF0) OR 5);
          b = put8 b off_ip ((get8 b off_ip AND 0x0F) OR push_bit 4 4);
          b = put8 b off_ip_tos 0;
          b = put16 b off_ip_tot_len (htons (of_nat (PACKET_SIZE - sizeof_ethhdr)));
          b = put16 b off_ip_id 0;
          b = put16 b off_ip_frag_off (htons 0);
          b = put8 b off_ip_ttl 64;
          b = put8 b off_ip_protocol IPPROTO_RAW;
          b = put16 b off_ip_check 0;
          b = put32 b off_ip_saddr src_ip;
          b = put32 b off_ip_daddr dest_ip
      in (0, b))"

record sockaddr_ll =
  sll_ifindex :: int
  sll_halen :: nat
  sll_addr :: bytes

definition build_sockaddr :: "sockaddr_ll \<Rightarrow> int \<Rightarrow> bytes \<Rightarrow> sockaddr_ll" where
  "build_sockaddr junk ifindex dest_mac =
     junk\<lparr>sll_ifindex := ifindex, sll_halen := ETH_ALEN,
          sll_addr := foldl (\<lambda>a i. a[i := dest_mac ! i]) (sll_addr junk) [0..<ETH_ALEN]\<rparr>"

definition send_pingpong_packet :: "bytes \<Rightarrow> 'a world_scheme \<Rightarrow> int \<times> 'a world_scheme" where
  "send_pingpong_packet buf w = sys_sendto (take PACKET_SIZE buf) w"

subsection \<open>The sender thread\<close>

record cpu_env =
  c_mask :: "nat set option"
  c_online :: int
  c_setaffinity :: "nat \<Rightarrow> int"

definition CPU_SETSIZE :: nat where "CPU_SETSIZE = 1024"
definition EINVAL :: int where "EINVAL = 22"

definition stick_this_thread_to_core :: "cpu_env \<Rightarrow> int \<Rightarrow> int" where
  "stick_this_thread_to_core env core_id =
     (if core_id < 0 \<or> core_id \<ge> c_online env then - EINVAL else c_setaffinity env (nat core_id))"

fun scan_mask :: "nat set \<Rightarrow> nat list \<Rightarrow> nat \<times> nat \<Rightarrow> nat \<times> nat" where
  "scan_mask m [] s = s"
| "scan_mask m (i # is) (core_id, cnt) = scan_mask m is (if i \<in> m then (i + 1, cnt + 1) else (core_id, cnt))"

type_synonym 'a send_packet_t = "bytes \<Rightarrow> u64 \<Rightarrow> 'a world_scheme \<Rightarrow> int \<times> bytes \<times> 'a world_scheme"

text \<open>The loop. Its counter is a 64-bit integer that wraps, so that it never ends for \<open>iters = 2 ^ 64 - 1\<close>. The
  flag of the result tells a complete run from an early return.\<close>

partial_function (option) send_loop ::
  "'a send_packet_t \<Rightarrow> u64 \<Rightarrow> u64 \<Rightarrow> u64 \<Rightarrow> bytes \<Rightarrow> 'a world_scheme \<Rightarrow> (bool \<times> bytes \<times> 'a world_scheme) option" where
  "send_loop send iters interval i buf w =
     (if i \<le> iters then
        (let t0 = get_time_ns w; r = send buf i (snd t0) in
         if fst r < 0 then Some (False, snd r)
         else
           (let t1 = get_time_ns (snd (snd r)); elapsed = fst t1 - fst t0 in
            Option.bind (if elapsed < interval then pp_sleep (interval - elapsed) (snd t1) else Some (snd t1))
              (\<lambda>w'. send_loop send iters interval (i + 1) (fst (snd r)) w')))
      else Some (True, buf, w))"

record sender_data =
  s_iters :: u64
  s_interval :: u64
  s_base_packet :: "bytes option"
  s_sock_addr :: "sockaddr_ll option"

definition thread_send_packets ::
  "cpu_env \<Rightarrow> 'a send_packet_t \<Rightarrow> sender_data \<Rightarrow> 'a world_scheme \<Rightarrow> (bool \<times> bytes \<times> 'a world_scheme) option" where
  "thread_send_packets env send d w =
     (let w1 = w\<lparr>slept := slept w @ [(2, 0)]\<rparr>; buf = (case s_base_packet d of None \<Rightarrow> [] | Some b \<Rightarrow> b) in
      case c_mask env of
        None \<Rightarrow> Some (False, buf, w1)
      | Some m \<Rightarrow>
          (case scan_mask m [0..<CPU_SETSIZE] (0, 0) of
             (core_id, cnt) \<Rightarrow>
               if cnt = 1 \<and> stick_this_thread_to_core env (int core_id) < 0 then Some (False, buf, w1)
               else send_loop send (s_iters d) (s_interval d) 1 buf w1))"

text \<open>\<^verbatim>\<open>start_sending_packets\<close>: the data handed to the new thread (\<open>None\<close> when the allocation fails), and the
  return value, given the result of \<^verbatim>\<open>pthread_create\<close>.\<close>

definition start_sending_packets ::
  "bool \<Rightarrow> int \<Rightarrow> u64 \<Rightarrow> u64 \<Rightarrow> bytes option \<Rightarrow> sockaddr_ll option \<Rightarrow> int \<times> sender_data option" where
  "start_sending_packets malloc_ok pthread_create iters interval base_packet sock_addr =
     (if \<not> malloc_ok then (- 1, None)
      else
        let data = \<lparr>s_iters = iters, s_interval = interval,
                    s_base_packet = map_option (take PACKET_SIZE) base_packet, s_sock_addr = sock_addr\<rparr> in
        (if pthread_create < 0 then - 1 else 0, if pthread_create = 0 then Some data else None))"

section \<open>MAC addresses as text\<close>

definition hex_char :: "nat \<Rightarrow> char" where
  "hex_char d = char_of (if d < 10 then 48 + d else 87 + d)"

text \<open>A byte as the kernel prints it in \<^verbatim>\<open>/sys/class/net/.../address\<close>: two lower-case digits.\<close>

definition show_hex8 :: "u8 \<Rightarrow> string" where
  "show_hex8 b = [hex_char (unat b div 16), hex_char (unat b mod 16)]"

definition show_mac :: "bytes \<Rightarrow> string" where
  "show_mac m = join_with CHR '':'' (map show_hex8 m)"

lemma of_char_hex_char: "d < 16 \<Longrightarrow> (of_char (hex_char d) :: nat) = (if d < 10 then 48 + d else 87 + d)"
  by (simp add: hex_char_def)

lemma hex_val_hex_char [simp]: "d < 16 \<Longrightarrow> hex_val (hex_char d) = Some d"
  by (simp add: hex_val_def of_char_hex_char Let_def)

lemma hex_val_sep [simp]: "hex_val CHR '':'' = None" "hex_val CHR 0x0A = None"
  by (simp_all add: hex_val_def)

lemma hex_char_neq [simp]:
  "d < 16 \<Longrightarrow> hex_char d \<noteq> CHR ''x''" "d < 16 \<Longrightarrow> hex_char d \<noteq> CHR ''X''"
  "d < 16 \<Longrightarrow> hex_char d \<noteq> CHR ''-''" "d < 16 \<Longrightarrow> hex_char d \<noteq> CHR ''+''" "d < 16 \<Longrightarrow> hex_char d \<noteq> CHR 0x0A"
  by (auto simp: hex_char_def dest!: arg_cong [of _ _ "of_char :: char \<Rightarrow> nat"] split: if_splits)

lemma not_blank_hex [simp]: "d < 16 \<Longrightarrow> \<not> is_blank (hex_char d)"
  by (auto simp: is_blank_def of_char_hex_char dest!: arg_cong [of _ _ "of_char :: char \<Rightarrow> nat"] split: if_splits)

lemma unat_u8_less [simp]: "unat (b :: u8) div 16 < 16" "unat (b :: u8) < 256"
proof -
  show "unat b < 256" using unsigned_less [of b, where 'a = nat] by simp
  then show "unat b div 16 < 16" by simp
qed

lemma scan_hhx_show:
  assumes "r = [] \<or> hex_val (hd r) = None"
  shows "scan_hhx (show_hex8 b @ r) = Some (b, r)"
proof -
  have d: "hex_digits 0 (show_hex8 b @ r) = (unat b, r)"
    using assms by (cases r) (auto simp: show_hex8_def)
  have blank: "dropWhile is_blank (show_hex8 b @ r) = show_hex8 b @ r" by (simp add: show_hex8_def)
  have "min (unat b) (2 ^ 64 - 1) = unat b" by (intro min_absorb1 order.trans [OF less_imp_le [OF unat_u8_less(2)]]) simp
  with d blank show ?thesis by (simp add: scan_hhx_def Let_def) (simp add: show_hex8_def)
qed

lemma scan_mac_show:
  "length m = Suc n \<Longrightarrow> r = [] \<or> hd r \<noteq> CHR '':'' \<and> hex_val (hd r) = None \<Longrightarrow> scan_mac (Suc n) (show_mac m @ r) = m"
proof (induction n arbitrary: m)
  case 0
  then obtain b where "m = [b]" by (cases m) auto
  with 0 scan_hhx_show [of "[]" b] show ?case by (auto simp: show_mac_def scan_hhx_show)
next
  case (Suc n)
  then obtain b c m' where m: "m = b # c # m'" by (cases m; cases "tl m") auto
  have "show_mac m = show_hex8 b @ CHR '':'' # show_mac (c # m')" by (simp add: show_mac_def m)
  moreover have "scan_mac (Suc n) (show_mac (c # m') @ r) = c # m'" using Suc.IH [of "c # m'"] Suc.prems m by simp
  ultimately show ?case by (simp add: scan_hhx_show m)
qed

lemma line_of_append:
  "CHR 0x0A \<notin> set xs \<Longrightarrow> length xs \<le> n \<Longrightarrow> line_of n (xs @ ys) = xs @ line_of (n - length xs) ys"
proof (induction xs arbitrary: n)
  case (Cons x xs)
  then show ?case by (cases n) auto
qed simp

lemma show_hex8_no_newline: "CHR 0x0A \<notin> set (show_hex8 b)"
proof -
  have "hex_char d \<noteq> CHR 0x0A" if "d < 16" for d using that by (rule hex_char_neq(5))
  from this [of "unat b div 16"] this [of "unat b mod 16"] show ?thesis
    by (auto simp: show_hex8_def eq_commute [of "CHR 0x0A"])
qed

lemma length_show_mac: "m \<noteq> [] \<Longrightarrow> length (show_mac m) + 1 = 3 * length m"
proof (induction m rule: induct_list012)
  case (3 x y zs)
  then show ?case by (simp add: show_mac_def) (simp add: show_hex8_def)
qed (simp_all add: show_mac_def show_hex8_def)

lemma show_mac_no_newline: "CHR 0x0A \<notin> set (show_mac m)"
proof (induction m rule: induct_list012)
  case (3 x y zs)
  then show ?case using show_hex8_no_newline [of x] by (simp add: show_mac_def)
qed (simp_all add: show_mac_def show_hex8_no_newline)

lemma local_mac_read:
  assumes "ie_name env ifindex = Some ifname" and "length m = 6" and "length out = 6" and "ie_fclose env = 0"
    and "ie_file env (address_path ifname) = Some (show_mac m @ rest)" and "rest = '''' \<or> rest = [CHR 0x0A]"
  shows "retrieve_local_mac env ifindex out = (0, m)"
proof -
  have "m \<noteq> []" using assms(2) by auto
  then have len: "length (show_mac m) = 17" using length_show_mac [of m] assms(2) by simp
  have "fgets 18 (show_mac m @ rest) = Some (show_mac m)"
    using line_of_append [OF show_mac_no_newline, of m 17 rest] len by (auto simp: fgets_def)
  moreover have "scan_mac 6 (show_mac m) = m"
    using scan_mac_show [of m 5 "[]"] assms(2) by simp
  ultimately show ?thesis
    using assms by (simp add: retrieve_local_mac_def mwrite_def)
qed

section \<open>Base packets\<close>

lemma list_of_length_6: "length xs = 6 \<Longrightarrow> xs = [xs ! 0, xs ! 1, xs ! 2, xs ! 3, xs ! 4, xs ! 5]"
  by (rule nth_equalityI) (auto simp: less_Suc_eq numeral_eq_Suc)

lemma write_macs_eq:
  assumes "length src = 6" and "length dest = 6" and "12 \<le> length buf"
  shows "write_macs src dest [0..<ETH_ALEN] buf = dest @ src @ drop 12 buf"
proof -
  have put: "put8 b i v = b[i := v]" if "i < length b" for b i v
    using that by (simp add: put8_def mwrite_def upd_conv_take_nth_drop)
  have "buf = take 12 buf @ drop 12 buf" by simp
  moreover have "take 12 buf = take 6 buf @ take 6 (drop 6 buf)" using take_add [of 6 6 buf] by simp
  moreover define a b where "a = take 6 buf" and "b = take 6 (drop 6 buf)"
  moreover have "length (take 6 buf) = 6" "length (take 6 (drop 6 buf)) = 6" using assms(3) by simp_all
  ultimately obtain c where buf: "buf = a @ b @ c" "drop 12 buf = c" "length a = 6" "length b = 6"
    by (metis append.assoc)
  have upt: "[0..<ETH_ALEN] = [0, 1, 2, 3, 4, 5]" by (simp add: ETH_ALEN_def upt_rec)
  show ?thesis
    unfolding buf(2) upt unfolding buf(1)
    by (subst list_of_length_6 [OF buf(3)], subst list_of_length_6 [OF buf(4)],
        subst (2) list_of_length_6 [OF assms(1)], subst (2) list_of_length_6 [OF assms(2)])
      (simp add: put off_h_source_def off_h_dest_def)
qed

lemma get_put_disjoint [mem_simps]:
  "o' + 2 \<le> off \<or> off + 1 \<le> o' \<Longrightarrow> off + 1 \<le> length buf \<Longrightarrow> get16 (put8 buf off v) o' = get16 buf o'"
  "o' + 2 \<le> off \<or> off + 2 \<le> o' \<Longrightarrow> off + 2 \<le> length buf \<Longrightarrow> get16 (put16 buf off w) o' = get16 buf o'"
  "o' + 2 \<le> off \<or> off + 4 \<le> o' \<Longrightarrow> off + 4 \<le> length buf \<Longrightarrow> get16 (put32 buf off x) o' = get16 buf o'"
  "o' + 4 \<le> off \<or> off + 1 \<le> o' \<Longrightarrow> off + 1 \<le> length buf \<Longrightarrow> get32 (put8 buf off v) o' = get32 buf o'"
  "o' + 4 \<le> off \<or> off + 2 \<le> o' \<Longrightarrow> off + 2 \<le> length buf \<Longrightarrow> get32 (put16 buf off w) o' = get32 buf o'"
  "o' + 4 \<le> off \<or> off + 4 \<le> o' \<Longrightarrow> off + 4 \<le> length buf \<Longrightarrow> get32 (put32 buf off x) o' = get32 buf o'"
  unfolding get16_def get32_def by (subst mread_puts; simp)+

lemma get8_cong:
  "off < length b \<Longrightarrow> length b = length c \<Longrightarrow> mread b off 1 = mread c off 1 \<Longrightarrow> get8 b off = get8 c off"
  by (simp add: get8_mread)

lemma get8_put8_other [mem_simps]:
  "o' \<noteq> off \<Longrightarrow> off < length buf \<Longrightarrow> o' < length buf \<Longrightarrow> get8 (put8 buf off v) o' = get8 buf o'"
  by (rule get8_cong) (simp, simp, rule mread_puts(1), linarith, simp)

lemma get8_put8_same [mem_simps]: "off < length buf \<Longrightarrow> get8 (put8 buf off v) off = v"
  by (simp add: get8_def put8_def mwrite_def nth_append min_def)

lemma get8_put16_other [mem_simps]:
  "o' < off \<or> off + 2 \<le> o' \<Longrightarrow> off + 2 \<le> length buf \<Longrightarrow> o' < length buf \<Longrightarrow> get8 (put16 buf off w) o' = get8 buf o'"
  by (rule get8_cong) (auto simp: mread_puts)

lemma get8_put32_other [mem_simps]:
  "o' < off \<or> off + 4 \<le> o' \<Longrightarrow> off + 4 \<le> length buf \<Longrightarrow> o' < length buf \<Longrightarrow> get8 (put32 buf off x) o' = get8 buf o'"
  by (rule get8_cong) (auto simp: mread_puts)

lemma version_byte: "((x AND 0xF0 OR 5) AND 0x0F) OR push_bit 4 4 = (0x45 :: u8)"
proof (rule bit_word_eqI)
  fix n assume "n < LENGTH(8)"
  then consider "n = 0" | "n = 1" | "n = 2" | "n = 3" | "n = 4" | "n = 5" | "n = 6" | "n = 7" by fastforce
  then show "bit (((x AND 0xF0 OR 5) AND 0x0F) OR push_bit 4 4) n = bit (0x45 :: u8) n"
    by cases (simp_all add: bit_simps)
qed

lemma base_packet_fields:
  assumes "length src = 6" and "length dest = 6" and "34 \<le> length buf"
    and b_def: "b = snd (build_base_packet buf src dest sip dip)"
  shows "length b = length buf" and "mread b off_h_dest 6 = dest" and "mread b off_h_source 6 = src"
    and "get16 b off_h_proto = htons ETH_P_PINGPONG" and "get8 b off_ip = 0x45"
    and "get16 b off_ip_tot_len = htons 1010" and "get8 b off_ip_ttl = 64" and "get8 b off_ip_protocol = IPPROTO_RAW"
    and "get32 b off_ip_saddr = sip" and "get32 b off_ip_daddr = dip"
    and "34 \<le> off \<Longrightarrow> mread b off n = mread buf off n"
proof -
  define m where "m = write_macs src dest [0..<ETH_ALEN] buf"
  have m: "m = dest @ src @ drop 12 buf" unfolding m_def using assms by (intro write_macs_eq) simp_all
  then have len: "length m = length buf" using assms by simp
  have len34: "34 \<le> length m" using len assms(3) by simp
  have dest: "mread m 0 6 = dest" and src: "mread m 6 6 = src" using assms(1,2) by (simp_all add: m mread_def)
  have rest: "mread m off n = mread buf off n" if "34 \<le> off" using that assms(1,2) by (simp add: m mread_def)
  define m1 where "m1 = put16 m off_h_proto (htons ETH_P_PINGPONG)"
  define c where "c = put8 (put8 m1 off_ip ((get8 m1 off_ip AND 0xF0) OR 5)) off_ip
      ((get8 (put8 m1 off_ip ((get8 m1 off_ip AND 0xF0) OR 5)) off_ip AND 0x0F) OR push_bit 4 4)"
  have m1: "length m1 = length m" using len34 by (simp add: m1_def layout_defs)
  have c: "length c = length m" "get8 c off_ip = 0x45" "get16 c off_h_proto = htons ETH_P_PINGPONG"
    using len34 m1 version_byte by (simp_all add: c_def m1_def layout_defs mem_simps)
  have c_rest: "mread c k l = mread m k l" if "k + l \<le> 12 \<or> 15 \<le> k" for k l
    using that len34 m1 by (elim disjE) (simp_all add: c_def m1_def layout_defs mread_puts)
  have b: "b = (let b = put8 c off_ip_tos 0;
          b = put16 b off_ip_tot_len (htons 1010); b = put16 b off_ip_id 0;
          b = put16 b off_ip_frag_off (htons 0); b = put8 b off_ip_ttl 64;
          b = put8 b off_ip_protocol IPPROTO_RAW; b = put16 b off_ip_check 0;
          b = put32 b off_ip_saddr sip in put32 b off_ip_daddr dip)"
    unfolding b_def build_base_packet_def Let_def c_def m1_def m_def by (simp add: PACKET_SIZE_def sizeof_ethhdr_def)
  have len34: "34 \<le> length c" using c(1) len34 by simp
  note simps = b Let_def layout_defs mem_simps
  show "length b = length buf" using len34 c(1) by (simp add: simps len)
  show "mread b off_h_dest 6 = dest" "mread b off_h_source 6 = src"
    using len34 dest src c_rest [of 0 6] c_rest [of 6 6] by (simp_all add: simps)
  show "get16 b off_h_proto = htons ETH_P_PINGPONG" "get16 b off_ip_tot_len = htons 1010" "get8 b off_ip_ttl = 64"
    "get8 b off_ip_protocol = IPPROTO_RAW" "get32 b off_ip_saddr = sip" "get32 b off_ip_daddr = dip"
    using len34 c(3) by (simp_all add: simps)
  show "get8 b off_ip = 0x45" using len34 c(2) by (simp add: simps)
  assume off: "34 \<le> off"
  with len34 rest [OF off] c_rest [of off n] show "mread b off n = mread buf off n" by (simp add: simps)
qed

section \<open>The sender thread\<close>

text \<open>
  What the sender thread relies on of a program's \<^verbatim>\<open>send_packet\<close> callback: while the link is up it succeeds,
  puts one packet on the wire that carries the identifier it was given, keeps the buffer usable and leaves
  the rest of the world alone. The loop is treated once, for every program.
\<close>

locale packet_sender =
  fixes send :: "'a send_packet_t" and buf_ok :: "bytes \<Rightarrow> bool" and packet_id :: "bytes \<Rightarrow> u64"
  assumes send_one: "buf_ok buf \<Longrightarrow> link_up w \<Longrightarrow> clock_advances w \<Longrightarrow>
    \<exists>r buf' w' pkt. send buf i w = (r, buf', w') \<and> 0 \<le> r \<and> buf_ok buf' \<and> sent w' = sent w @ [pkt] \<and> packet_id pkt = i
      \<and> link_up w' \<and> clock_advances w'"
begin

lemma loop_sends:
  assumes "buf_ok buf" and "link_up w" and "clock_advances w" and "unat i + n = unat iters + 1" and "iters < - 1"
  shows "\<exists>buf' w' ps. send_loop send iters interval i buf w = Some (True, buf', w')
    \<and> sent w' = sent w @ ps \<and> map packet_id ps = map (\<lambda>k. i + of_nat k) [0..<n]"
  using assms(1-4)
proof (induction n arbitrary: i buf w)
  case 0
  then have "\<not> i \<le> iters" by (simp add: word_le_nat_alt)
  then show ?case by (subst send_loop.simps) (simp add: exI [of _ buf])
next
  case (Suc n)
  have le: "i \<le> iters" using Suc.prems(4) by (simp add: word_le_nat_alt)
  have "unat iters < 2 ^ 64 - 1"
    using assms(5) by (simp add: word_less_nat_alt unsigned_minus_1_eq_mask mask_eq_exp_minus_1)
  then have i1: "unat (i + 1) = unat i + 1" using le
    by (subst unat_add_lem [THEN iffD1]) (auto simp: word_le_nat_alt)
  let ?w1 = "snd (get_time_ns w)"
  have w1: "link_up ?w1" "clock_advances ?w1" "sent ?w1 = sent w"
    using Suc.prems by (simp_all add: get_time_ns_eq)
  obtain r buf2 w2 pkt where s: "send buf i ?w1 = (r, buf2, w2)" "0 \<le> r" "buf_ok buf2"
    "sent w2 = sent w @ [pkt]" "packet_id pkt = i" "link_up w2" "clock_advances w2"
    using send_one [OF Suc.prems(1) w1(1,2), of i] w1(3) by auto
  define e where "e = fst (get_time_ns w2) - fst (get_time_ns w)"
  obtain w4 where w4: "(if e < interval then pp_sleep (interval - e) (snd (get_time_ns w2)) else Some (snd (get_time_ns w2))) = Some w4"
    "link_up w4" "clock_advances w4" "sent w4 = sent w2"
  proof (cases "e < interval")
    case True
    have "clock_advances (snd (get_time_ns w2))" using s(7) by (simp add: get_time_ns_eq)
    from pp_sleep_returns [OF this] obtain m l where "pp_sleep (interval - e) (snd (get_time_ns w2)) = Some ((snd (get_time_ns w2))\<lparr>nread := m, slept := l\<rparr>)"
      by blast
    with True that s(6,7) show thesis by (simp add: get_time_ns_eq)
  next
    case False
    with that s(6,7) show thesis by (simp add: get_time_ns_eq)
  qed
  obtain buf' w' ps where IH: "send_loop send iters interval (i + 1) buf2 w4 = Some (True, buf', w')"
    "sent w' = sent w4 @ ps" "map packet_id ps = map (\<lambda>k. i + 1 + of_nat k) [0..<n]"
    using Suc.IH [OF s(3) w4(2,3), of "i + 1"] Suc.prems(4) i1 by auto
  have "send_loop send iters interval i buf w = Some (True, buf', w')"
    using le s(1,2) w4(1) IH(1)
    by (subst send_loop.simps, cases "e < interval") (simp_all add: Let_def e_def [symmetric])
  moreover have "map packet_id (pkt # ps) = map (\<lambda>k. i + of_nat k) [0..<Suc n]"
    using IH(3) s(5) by (simp add: upt_conv_Cons map_Suc_upt [symmetric] comp_def algebra_simps del: upt_Suc)
  ultimately show ?case using IH(2) w4(4) s(4) by (intro exI [of _ buf'] exI [of _ w'] exI [of _ "pkt # ps"]) simp
qed

lemma sends_all:
  assumes "buf_ok buf" and "link_up w" and "clock_advances w" and "iters < - 1"
  shows "\<exists>buf' w' ps. send_loop send iters interval 1 buf w = Some (True, buf', w')
    \<and> sent w' = sent w @ ps \<and> map packet_id ps = map of_nat [1..<unat iters + 1]"
proof -
  have "[1..<unat iters + 1] = map Suc [0..<unat iters]" by (simp add: map_Suc_upt del: upt_Suc)
  then have "map (\<lambda>k. 1 + of_nat k :: u64) [0..<unat iters] = map of_nat [1..<unat iters + 1]" by simp
  with loop_sends [OF assms(1-3) _ assms(4), of 1 "unat iters" interval] show ?thesis by simp
qed

end

section \<open>Properties\<close>

text \<open>the interface address is read correctly. When the system knows the interface and its address file
  holds the six bytes as the kernel prints them (with the newline, or without), \<^verbatim>\<open>retrieve_local_mac\<close> returns 0
  and exactly these bytes.\<close>

theorem mac_address_roundtrip:
  assumes "ie_name env ifindex = Some ifname" and "length m = 6" and "length out = 6" and "ie_fclose env = 0"
    and "ie_file env (address_path ifname) = Some (show_mac m @ rest)" and "rest = '''' \<or> rest = [CHR 0x0A]"
  shows "retrieve_local_mac env ifindex out = (0, m)"
  using assms by (rule local_mac_read)

definition demo_if :: if_env where
  "demo_if = \<lparr>ie_name = \<lambda>i. if i = 2 then Some ''eth0'' else None, ie_socket = 3, ie_ioctl = \<lambda>_. Some 0x0100000A,
     ie_file = \<lambda>_. Some (show_mac [0x52, 0x54, 0, 0x12, 0x34, 0xff] @ [CHR 0x0A]), ie_fclose = 0\<rparr>"

theorem mac_address_roundtrip_witness:
  "retrieve_local_mac demo_if 2 (replicate 6 0) = (0, [0x52, 0x54, 0, 0x12, 0x34, 0xff])"
  by (rule mac_address_roundtrip [where ifname = "''eth0''" and rest = "[CHR 0x0A]"]) (simp_all add: demo_if_def)

text \<open>the address exchange is symmetric. If both ends run \<^verbatim>\<open>exchange_eth_ip_addresses\<close>, one as client and one
  as server, no call fails and each receives the datagram the other sent, then each end's view of its peer is
  the other end's own addresses.\<close>

theorem address_exchange_symmetric:
  assumes "exchange_eth_ip_addresses cif cx ci False cj ca = (crc, c, cd)"
    and "exchange_eth_ip_addresses sif sx si True sj sa = (src, s, sd)"
    and "crc = 0" and "src = 0" and "x_recv cx = sd" and "x_recv sx = cd"
    and "length cj = ETH_IP_INFO_PACKET_SIZE" and "length sj = ETH_IP_INFO_PACKET_SIZE"
    and "length (a_src_mac c) = 6" and "length (a_src_mac s) = 6" and "length (a_dest_mac ca) = 6" and "length (a_dest_mac sa) = 6"
  shows "a_dest_mac c = a_src_mac s \<and> a_dest_ip c = a_src_ip s \<and> a_dest_mac s = a_src_mac c \<and> a_dest_ip s = a_src_ip c"
proof -
  let ?buf = "\<lambda>a :: addrs. a_src_mac a @ bytes_of_word 4 (a_src_ip a)"
  have size: "ETH_IP_INFO_PACKET_SIZE = 10" "ETH_ALEN = 6" by (simp_all add: ETH_IP_INFO_PACKET_SIZE_def ETH_ALEN_def)
  have recv: "recv_into j 10 (?buf a) = ?buf a" if "length j = 10" "length (a_src_mac a) = 6" for j a
    using that by (simp add: recv_into_def mwrite_def)
  have peer: "mwrite m 0 (mread (?buf a) 0 6) = a_src_mac a" "word_of_bytes (mread (?buf a) 6 4) = a_src_ip a"
    if "length m = 6" "length (a_src_mac a) = 6" for m a
    using that by (simp_all add: mwrite_def mread_append)
  have c: "cd = Some (?buf c)" "\<exists>m. x_recv cx = Some m \<and> a_dest_mac c = mwrite (a_dest_mac ca) 0 (mread (recv_into cj 10 m) 0 6)
      \<and> a_dest_ip c = word_of_bytes (mread (recv_into cj 10 m) 6 4)"
    using assms(1,3,9) size by (auto simp: exchange_eth_ip_addresses_def exchange_data_def Let_def mread_all split: if_splits option.splits)
  have s: "sd = Some (?buf s)" "\<exists>m. x_recv sx = Some m \<and> a_dest_mac s = mwrite (a_dest_mac sa) 0 (mread (recv_into sj 10 m) 0 6)
      \<and> a_dest_ip s = word_of_bytes (mread (recv_into sj 10 m) 6 4)"
    using assms(2,4,10) size by (auto simp: exchange_eth_ip_addresses_def exchange_data_def Let_def mread_all split: if_splits option.splits)
  have j: "length cj = 10" "length sj = 10" using assms(7,8) size(1) by simp_all
  have "a_dest_mac c = a_src_mac s" "a_dest_ip c = a_src_ip s"
    using c(2) s(1) assms(5) recv [OF j(1) assms(10)] peer [OF assms(11,10)] by auto
  moreover have "a_dest_mac s = a_src_mac c" "a_dest_ip s = a_src_ip c"
    using s(2) c(1) assms(6) recv [OF j(2) assms(9)] peer [OF assms(12,9)] by auto
  ultimately show ?thesis by simp
qed

definition demo_xchg :: "bytes \<Rightarrow> xchg_env" where
  "demo_xchg d = \<lparr>x_socket = 3, x_bind = 0, x_sendto = 10, x_recv = Some d\<rparr>"

definition demo_addrs :: addrs where
  "demo_addrs = \<lparr>a_src_mac = replicate 6 0, a_dest_mac = replicate 6 0, a_src_ip = 0, a_dest_ip = 0\<rparr>"

definition demo_info :: bytes where
  "demo_info = [0x52, 0x54, 0, 0x12, 0x34, 0xff] @ bytes_of_word 4 (0x0100000A :: u32)"

lemma demo_exchange:
  "exchange_eth_ip_addresses demo_if (demo_xchg demo_info) 2 srv (replicate 10 0) demo_addrs
   = (0, \<lparr>a_src_mac = [0x52, 0x54, 0, 0x12, 0x34, 0xff], a_dest_mac = [0x52, 0x54, 0, 0x12, 0x34, 0xff],
          a_src_ip = 0x0100000A, a_dest_ip = 0x0100000A\<rparr>, Some demo_info)"
proof -
  have "retrieve_local_mac demo_if 2 (replicate 6 0) = (0, [0x52, 0x54, 0, 0x12, 0x34, 0xff])"
    by (rule local_mac_read [where ifname = "''eth0''" and rest = "[CHR 0x0A]"]) (simp_all add: demo_if_def)
  then show ?thesis
    by (simp add: exchange_eth_ip_addresses_def exchange_data_def demo_xchg_def demo_addrs_def demo_info_def Let_def
        retrieve_local_ip_def demo_if_def ETH_IP_INFO_PACKET_SIZE_def ETH_ALEN_def mread_def recv_into_def mwrite_def)
qed

theorem address_exchange_symmetric_witness:
  "\<exists>c s cd sd. exchange_eth_ip_addresses demo_if (demo_xchg demo_info) 2 False (replicate 10 0) demo_addrs = (0, c, cd)
     \<and> exchange_eth_ip_addresses demo_if (demo_xchg demo_info) 2 True (replicate 10 0) demo_addrs = (0, s, sd)
     \<and> a_dest_mac c = a_src_mac s \<and> a_dest_ip s = a_src_ip c"
  using address_exchange_symmetric [OF demo_exchange [of False] demo_exchange [of True] refl refl]
  unfolding demo_exchange by (simp add: demo_xchg_def demo_addrs_def ETH_IP_INFO_PACKET_SIZE_def ETH_ALEN_def)

text \<open>the base packet is a well-formed Ethernet and IPv4 header for the given addresses: addresses at both
  layers, the ping-pong Ethernet type, version 4 with five header words, total length 1010 and time to live 64;
  the 990 bytes of payload are left alone.\<close>

theorem base_packet_wellformed:
  assumes "length src = 6" and "length dest = 6" and "length buf = PACKET_SIZE"
    and "build_base_packet buf src dest sip dip = (rc, b)"
  shows "rc = 0 \<and> length b = PACKET_SIZE \<and> mread b off_h_dest 6 = dest \<and> mread b off_h_source 6 = src
    \<and> get16 b off_h_proto = htons ETH_P_PINGPONG \<and> get8 b off_ip = 0x45 \<and> get16 b off_ip_tot_len = htons 1010
    \<and> get8 b off_ip_ttl = 64 \<and> get8 b off_ip_protocol = IPPROTO_RAW
    \<and> get32 b off_ip_saddr = sip \<and> get32 b off_ip_daddr = dip
    \<and> mread b packet_payload 990 = mread buf packet_payload 990"
proof -
  have b: "b = snd (build_base_packet buf src dest sip dip)" and rc: "rc = 0"
    using assms(4) by (simp, simp add: build_base_packet_def Let_def)
  have len: "34 \<le> length buf" using assms(3) by (simp add: PACKET_SIZE_def)
  show ?thesis
    using base_packet_fields(1-10) [OF assms(1,2) len b] base_packet_fields(11) [OF assms(1,2) len b, of packet_payload 990]
      rc assms(3) by (simp add: packet_payload_eq)
qed

theorem base_packet_wellformed_witness:
  "get16 (snd (build_base_packet (replicate 1024 0) (replicate 6 1) (replicate 6 2) 5 6)) off_h_proto = htons 0x2002"
  using base_packet_wellformed [of "replicate 6 1" "replicate 6 2" "replicate 1024 0" 5 6]
  by (simp add: PACKET_SIZE_def ETH_P_PINGPONG_def prod_eq_iff)

text \<open>pinned to the last processor, nothing is ever sent. If the sender starts with an affinity mask of one
  core and that core is the last online one, the core it picks for itself does not exist; the thread returns
  silently and no packet leaves.\<close>

theorem sender_last_core_sends_nothing:
  assumes "c_mask env = Some {c}" and "c < CPU_SETSIZE" and "c_online env = int c + 1"
  shows "\<exists>buf w'. thread_send_packets env send d w = Some (False, buf, w') \<and> sent w' = sent w"
proof -
  have scan: "scan_mask {c} is (k, n) = (if c \<in> set is then (c + 1, n + 1) else (k, n))" if "distinct is" for "is" k n
    using that by (induction "is" arbitrary: k n) auto
  have "scan_mask {c} [0..<CPU_SETSIZE] (0, 0) = (c + 1, 1)" using scan [of "[0..<CPU_SETSIZE]" 0 0] assms(2) by simp
  with assms(1,3) show ?thesis
    by (simp add: thread_send_packets_def Let_def stick_this_thread_to_core_def EINVAL_def)
qed

theorem sender_last_core_sends_nothing_witness:
  "\<exists>buf w'. thread_send_packets \<lparr>c_mask = Some {3}, c_online = 4, c_setaffinity = \<lambda>_. 0\<rparr>
      (\<lambda>buf i w. (0, buf, w)) \<lparr>s_iters = 10, s_interval = 1000, s_base_packet = None, s_sock_addr = None\<rparr> demo_world
    = Some (False, buf, w') \<and> sent w' = []"
  using sender_last_core_sends_nothing [of "\<lparr>c_mask = Some {3}, c_online = 4, c_setaffinity = \<lambda>_. 0\<rparr>" 3
      "\<lambda>buf i w. (0, buf, w)" "\<lparr>s_iters = 10, s_interval = 1000, s_base_packet = None, s_sock_addr = None\<rparr>" demo_world]
  by (simp add: CPU_SETSIZE_def demo_world_def)

end
