(* ===== verification/Pp_Poll.thy ===== *)
theory Pp_Poll
  imports Net Xdp_Ring Persistence "HOL-Library.Sublist"
begin

text \<open>
  The user-space side of the polling XDP program (\<^verbatim>\<open>xdp/pp_poll.c\<close>). The client loop and the server loop are
  step machines, because they share the packet ring with the eBPF program and the exit flag with the signal
  handler: a schedule is any list of events, where \<open>Packet\<close> is the eBPF program handling an arriving packet,
  \<open>Sigint\<close> the signal handler, and \<open>Tick\<close> one step of the loop (the loop condition, or one test of the busy-wait
  with, when it succeeds, the rest of the loop body). A schedule decides how long the loop spins.
  The test of the exit flag that follows a successful poll belongs to the same step; a signal between the two
  has the effect of one just before the step.

  \<open>L_Undef\<close> marks a call into the persistence agent that has no defined result.
\<close>

section \<open>Definitions\<close>

definition poll_send_packet :: "'a send_packet_t" where
  "poll_send_packet buf packet_id w =
     (let b = put16 buf off_ip_id (htons (ucast packet_id));
          b = store_payload b packet_payload (new_pingpong_payload packet_id);
          t = get_time_ns w;
          b = store_ts b packet_payload 0 (fst t);
          r = send_pingpong_packet b (snd t)
      in (fst r, b, snd r))"

datatype loop_pc = L_Head | L_Poll | L_Done | L_Undef
datatype sys_event = Packet bytes | Sigint | Tick

subsection \<open>The client\<close>

record poll_client =
  cl_maps :: xdp_maps
  cl_next :: u32
  cl_id :: u64
  cl_exit :: bool
  cl_agent :: persistence_agent
  cl_world :: world
  cl_pc :: loop_pc
  cl_written :: "pingpong_payload list"

definition client_start :: "persistence_agent \<Rightarrow> world \<Rightarrow> poll_client" where
  "client_start ag w = \<lparr>cl_maps = empty_maps, cl_next = 0, cl_id = 0, cl_exit = False, cl_agent = ag, cl_world = w,
     cl_pc = L_Head, cl_written = []\<rparr>"

text \<open>The loop body after \<^verbatim>\<open>poll_next_payload\<close> returned the payload \<open>p\<close>.\<close>

definition client_body :: "pingpong_payload \<Rightarrow> poll_client \<Rightarrow> poll_client" where
  "client_body p c =
     (if cl_exit c then c\<lparr>cl_pc := L_Done\<rparr>
      else if phase p \<noteq> 2 then c\<lparr>cl_pc := L_Head\<rparr>
      else
        let t = get_time_ns (cl_world c); p' = set_ts 3 (fst t) p in
        (case agent_write (cl_agent c) p' of
           None \<Rightarrow> c\<lparr>cl_pc := L_Undef\<rparr>
         | Some (_, ag) \<Rightarrow>
             c\<lparr>cl_agent := ag, cl_id := max (cl_id c) (pp_id p'), cl_world := snd t, cl_pc := L_Head,
               cl_written := cl_written c @ [p']\<rparr>))"

definition client_tick :: "u64 \<Rightarrow> poll_client \<Rightarrow> poll_client" where
  "client_tick iters c =
     (case cl_pc c of
        L_Head \<Rightarrow> c\<lparr>cl_pc := (if cl_id c < iters \<and> \<not> cl_exit c then L_Poll else L_Done)\<rparr>
      | L_Poll \<Rightarrow>
          (case poll_next_payload (cl_exit c) (cl_next c) (cl_maps c) of
             None \<Rightarrow> c
           | Some (p, m, n) \<Rightarrow> client_body p (c\<lparr>cl_maps := m, cl_next := n\<rparr>))
      | _ \<Rightarrow> c)"

definition client_step ::
  "(nat \<Rightarrow> u32 \<Rightarrow> nat option) \<Rightarrow> u64 \<Rightarrow> poll_client \<Rightarrow> sys_event \<Rightarrow> poll_client" where
  "client_step lk iters c ev =
     (case ev of
        Packet pkt \<Rightarrow> c\<lparr>cl_maps := snd (snd (xdp_main lk pkt (cl_maps c)))\<rparr>
      | Sigint \<Rightarrow> c\<lparr>cl_exit := True\<rparr>
      | Tick \<Rightarrow> client_tick iters c)"

subsection \<open>The server\<close>

text \<open>The server build installs no signal handler, so its exit flag is never set. \<open>sv_buf\<close> is the packet buffer,
  with the payload that \<^verbatim>\<open>poll_next_payload\<close> fills.\<close>

record poll_server =
  sv_maps :: xdp_maps
  sv_next :: u32
  sv_id :: u64
  sv_buf :: bytes
  sv_world :: world
  sv_pc :: loop_pc

definition server_start :: "bytes \<Rightarrow> world \<Rightarrow> poll_server" where
  "server_start buf w = \<lparr>sv_maps = empty_maps, sv_next = 0, sv_id = 0, sv_buf = buf, sv_world = w, sv_pc = L_Head\<rparr>"

definition server_body :: "u64 \<Rightarrow> pingpong_payload \<Rightarrow> poll_server \<Rightarrow> poll_server" where
  "server_body iters p s =
     (let buf = store_payload (sv_buf s) packet_payload p in
      if phase p \<noteq> 0 then s\<lparr>sv_buf := buf, sv_pc := L_Done\<rparr>
      else
        let t1 = get_time_ns (sv_world s);
            buf = store_ts buf packet_payload 1 (fst t1);
            current_id = max (sv_id s) (pp_id p);
            buf = store_payload buf packet_payload ((load_payload buf packet_payload)\<lparr>phase := 2\<rparr>);
            t2 = get_time_ns (snd t1);
            buf = store_ts buf packet_payload 2 (fst t2);
            r = send_pingpong_packet buf (snd t2)
        in s\<lparr>sv_buf := buf, sv_id := current_id, sv_world := snd r,
             sv_pc := (if fst r < 0 then L_Done else if current_id \<ge> iters then L_Done else L_Head)\<rparr>)"

definition server_tick :: "u64 \<Rightarrow> poll_server \<Rightarrow> poll_server" where
  "server_tick iters s =
     (case sv_pc s of
        L_Head \<Rightarrow> s\<lparr>sv_pc := (if sv_id s < iters then L_Poll else L_Done)\<rparr>
      | L_Poll \<Rightarrow>
          (case poll_next_payload False (sv_next s) (sv_maps s) of
             None \<Rightarrow> s
           | Some (p, m, n) \<Rightarrow> server_body iters p (s\<lparr>sv_maps := m, sv_next := n\<rparr>))
      | _ \<Rightarrow> s)"

definition server_step ::
  "(nat \<Rightarrow> u32 \<Rightarrow> nat option) \<Rightarrow> u64 \<Rightarrow> poll_server \<Rightarrow> sys_event \<Rightarrow> poll_server" where
  "server_step lk iters s ev =
     (case ev of
        Packet pkt \<Rightarrow> s\<lparr>sv_maps := snd (snd (xdp_main lk pkt (sv_maps s)))\<rparr>
      | Sigint \<Rightarrow> s
      | Tick \<Rightarrow> server_tick iters s)"

subsection \<open>What arrives, what the ring accepts, what the loop takes\<close>

fun arrivals :: "sys_event list \<Rightarrow> pingpong_payload list" where
  "arrivals [] = []"
| "arrivals (Packet pkt # es) = (case pingpong_of pkt of None \<Rightarrow> arrivals es | Some p \<Rightarrow> p # arrivals es)"
| "arrivals (e # es) = arrivals es"

text \<open>What a run puts out, event by event.\<close>

primrec history :: "('s \<Rightarrow> 'e \<Rightarrow> 's) \<Rightarrow> ('s \<Rightarrow> 'e \<Rightarrow> 'a list) \<Rightarrow> 's \<Rightarrow> 'e list \<Rightarrow> 'a list" where
  "history step out s [] = []"
| "history step out s (e # es) = out s e @ history step out (step s e) es"

text \<open>The payload of the packet, when \<^verbatim>\<open>add_packet_to_map\<close> returns 0 for it.\<close>

definition ring_accepts :: "(nat \<Rightarrow> u32 \<Rightarrow> nat option) \<Rightarrow> xdp_maps \<Rightarrow> sys_event \<Rightarrow> pingpong_payload list" where
  "ring_accepts lk m e =
     (case e of
        Packet pkt \<Rightarrow>
          (case pingpong_of pkt of
             None \<Rightarrow> []
           | Some p \<Rightarrow> if fst (add_packet_to_map lk (Some p) m) = 0 then [p] else [])
      | _ \<Rightarrow> [])"

text \<open>The payload that \<^verbatim>\<open>poll_next_payload\<close> hands to the loop body.\<close>

definition poll_takes :: "loop_pc \<Rightarrow> bool \<Rightarrow> u32 \<Rightarrow> xdp_maps \<Rightarrow> sys_event \<Rightarrow> pingpong_payload list" where
  "poll_takes pc exiting n m e =
     (case e of
        Tick \<Rightarrow>
          (if pc = L_Poll \<and> \<not> exiting
           then (case poll_next_payload False n m of None \<Rightarrow> [] | Some (p, _) \<Rightarrow> [p]) else [])
      | _ \<Rightarrow> [])"

definition client_accepted where
  "client_accepted lk iters = history (client_step lk iters) (\<lambda>c. ring_accepts lk (cl_maps c))"

definition client_taken where
  "client_taken lk iters =
     history (client_step lk iters) (\<lambda>c. poll_takes (cl_pc c) (cl_exit c) (cl_next c) (cl_maps c))"

definition server_accepted where
  "server_accepted lk iters = history (server_step lk iters) (\<lambda>s. ring_accepts lk (sv_maps s))"

definition server_taken where
  "server_taken lk iters =
     history (server_step lk iters) (\<lambda>s. poll_takes (sv_pc s) False (sv_next s) (sv_maps s))"

section \<open>Sending\<close>

lemma poll_send_packet_eq:
  assumes "length buf = PACKET_SIZE"
  shows "\<exists>b. poll_send_packet buf i w = (send_ret w (nsend w), b,
      w\<lparr>nread := nread w + 1, nsend := nsend w + 1, sent := (if send_ret w (nsend w) < 0 then sent w else sent w @ [b])\<rparr>)
    \<and> length b = PACKET_SIZE \<and> load_payload b packet_payload = (new_pingpong_payload i)\<lparr>ts0 := reading w (nread w)\<rparr>
    \<and> get16 b off_h_proto = get16 buf off_h_proto"
proof -
  define b where "b = store_ts (store_payload (put16 buf off_ip_id (htons (ucast i))) packet_payload (new_pingpong_payload i))
      packet_payload 0 (reading w (nread w))"
  have off: "packet_payload + payload_size \<le> length buf"
    using assms by (simp add: packet_payload_eq payload_size_def PACKET_SIZE_def)
  have l1: "length (put16 buf off_ip_id (htons (ucast i))) = length buf" using off by (simp add: packet_payload_eq off_ip_id_def)
  have l2: "length (store_payload (put16 buf off_ip_id (htons (ucast i))) packet_payload (new_pingpong_payload i)) = length buf"
    using off l1 by simp
  have "length b = PACKET_SIZE" using off l1 l2 assms by (simp add: b_def)
  moreover have "load_payload b packet_payload = (new_pingpong_payload i)\<lparr>ts0 := reading w (nread w)\<rparr>"
    using off l1 l2 by (simp add: b_def load_store_ts load_store_payload)
  moreover have "get16 b off_h_proto = get16 buf off_h_proto"
    unfolding get16_def using off l1 l2
    by (simp add: b_def store_ts_before store_payload_before mread_puts packet_payload_eq off_h_proto_def off_ip_id_def)
  moreover have "take PACKET_SIZE b = b" using calculation(1) by simp
  ultimately show ?thesis
    by (intro exI [of _ b])
      (simp add: poll_send_packet_def Let_def get_time_ns_eq send_pingpong_packet_def sys_sendto_def b_def [symmetric])
qed

interpretation poll_sender: packet_sender poll_send_packet "\<lambda>b. length b = PACKET_SIZE"
  "\<lambda>p. pp_id (load_payload p packet_payload)"
proof unfold_locales
  fix buf :: bytes and w :: "'a world_scheme" and i
  assume *: "length buf = PACKET_SIZE" "link_up w" "clock_advances w"
  obtain b where b: "poll_send_packet buf i w = (send_ret w (nsend w), b,
      w\<lparr>nread := nread w + 1, nsend := nsend w + 1, sent := (if send_ret w (nsend w) < 0 then sent w else sent w @ [b])\<rparr>)"
    "length b = PACKET_SIZE" "load_payload b packet_payload = (new_pingpong_payload i)\<lparr>ts0 := reading w (nread w)\<rparr>"
    using poll_send_packet_eq [OF *(1), of i w] by blast
  have "0 \<le> send_ret w (nsend w)" using *(2) by (simp add: link_up_def)
  with b * show "\<exists>r buf' w' pkt. poll_send_packet buf i w = (r, buf', w') \<and> 0 \<le> r \<and> length buf' = PACKET_SIZE
      \<and> sent w' = sent w @ [pkt] \<and> pp_id (load_payload pkt packet_payload) = i \<and> link_up w' \<and> clock_advances w'"
    by simp
qed

section \<open>The ring along a schedule\<close>

lemma history_snoc: "history step out s (es @ [e]) = history step out s es @ out (foldl step s es) e"
  by (induction es arbitrary: s) simp_all

lemma arrivals_append: "arrivals (es @ fs) = arrivals es @ arrivals fs"
  by (induction es rule: arrivals.induct) (auto split: option.splits)

lemma accepts_arrive: "subseq (ring_accepts lk m e) (arrivals [e])"
  by (cases e) (auto simp: ring_accepts_def split: option.splits)

lemma accepted_arrived: "subseq (history step (\<lambda>s. ring_accepts lk (f s)) s es) (arrivals es)"
proof (induction es arbitrary: s)
  case Nil
  then show ?case by simp
next
  case (Cons e es)
  have "arrivals (e # es) = arrivals [e] @ arrivals es" using arrivals_append [of "[e]" es] by simp
  with list_emb_append_mono [OF accepts_arrive Cons.IH] show ?case by simp
qed

text \<open>A packet that arrives at a ring that stands for \<open>q\<close> is appended to \<open>q\<close> exactly when there is room.\<close>

lemma packet_flows:
  assumes "array_lookup_ok lk" and "ring_state (m, n) q"
  shows "ring_state (snd (snd (xdp_main lk pkt m)), n) (q @ ring_accepts lk m (Packet pkt))"
    and "ring_accepts lk m (Packet pkt) = (case pingpong_of pkt of None \<Rightarrow> [] | Some p \<Rightarrow> if length q < PACKETS_MAP_SIZE then [p] else [])"
proof -
  have "ring_state (snd (snd (xdp_main lk pkt m)), n) (q @ ring_accepts lk m (Packet pkt))
    \<and> ring_accepts lk m (Packet pkt) = (case pingpong_of pkt of None \<Rightarrow> [] | Some p \<Rightarrow> if length q < PACKETS_MAP_SIZE then [p] else [])"
  proof (cases "pingpong_of pkt")
    case None
    with assms(2) show ?thesis by (simp add: xdp_main_pass ring_accepts_def)
  next
    case (Some p)
    obtain s' where s': "ring_add lk p (m, n) = (fst (queue_push PACKETS_MAP_SIZE p q), s')"
      "ring_state s' (snd (queue_push PACKETS_MAP_SIZE p q))"
      using xring.push_refines [of lk "(m, n)" q p] assms pingpong_of_valid [OF Some] by blast
    then have "(fst (add_packet_to_map lk (Some p) m) = 0) = fst (queue_push PACKETS_MAP_SIZE p q)"
      "s' = (snd (snd (xdp_main lk pkt m)), n)"
      using xdp_main_take [OF Some, of lk m] by (auto simp: ring_add_def case_prod_beta)
    with s'(2) Some show ?thesis by (simp add: ring_accepts_def split: if_splits)
  qed
  then show "ring_state (snd (snd (xdp_main lk pkt m)), n) (q @ ring_accepts lk m (Packet pkt))"
    "ring_accepts lk m (Packet pkt) = (case pingpong_of pkt of None \<Rightarrow> [] | Some p \<Rightarrow> if length q < PACKETS_MAP_SIZE then [p] else [])"
    by blast+
qed

text \<open>A poll takes the oldest payload, and finds none only in an empty ring.\<close>

lemma poll_flows:
  assumes "ring_state (m, n) q"
  shows "case q of [] \<Rightarrow> poll_next_payload False n m = None
    | p # q' \<Rightarrow> \<exists>m' n'. poll_next_payload False n m = Some (p, m', n') \<and> ring_state (m', n') q'"
proof -
  have lk: "array_lookup_ok (\<lambda>n k. if unat k < n then Some (unat k) else None)" by (simp add: array_lookup_ok_def)
  show ?thesis
  proof (cases q)
    case Nil
    with xring.pop_empty [of _ "(m, n)"] assms lk show ?thesis by (auto simp: ring_poll_def)
  next
    case (Cons p q')
    with xring.pop_head [of _ "(m, n)" p q'] assms lk show ?thesis by (auto simp: ring_poll_def)
  qed
qed

lemma poll_takes_eq:
  assumes "ring_state (m, n) q"
  shows "poll_takes pc ex n m Tick = (if pc = L_Poll \<and> \<not> ex then take 1 q else [])"
  using poll_flows [OF assms] by (auto simp: poll_takes_def split: list.splits)

lemma poll_takes_other [simp]: "e \<noteq> Tick \<Longrightarrow> poll_takes pc ex n m e = []" "pc \<noteq> L_Poll \<Longrightarrow> poll_takes pc ex n m e = []"
  "poll_takes pc True n m e = []"
  by (cases e; simp add: poll_takes_def)+

lemma ring_accepts_other [simp]: "ring_accepts lk m Tick = []" "ring_accepts lk m Sigint = []"
  by (simp_all add: ring_accepts_def)

lemma subseq_front: "subseq (xs @ ys) zs \<Longrightarrow> subseq xs zs"
  using subseq_order.trans [OF list_emb_prefix [OF subseq_order.refl]] by blast

section \<open>The client loop\<close>

definition pong :: "pingpong_payload \<Rightarrow> bool" where
  "pong p \<longleftrightarrow> phase p = 2"

text \<open>The pongs among the payloads taken, stamped with the clock's readings in the order they were taken.\<close>

definition stamped_pongs :: "world \<Rightarrow> pingpong_payload list \<Rightarrow> pingpong_payload list" where
  "stamped_pongs w tk = map (\<lambda>(j, p). p\<lparr>ts3 := reading w j\<rparr>) (enumerate (nread w) (filter pong tk))"

definition recorded_as :: "pingpong_payload \<Rightarrow> pingpong_payload \<Rightarrow> bool" where
  "recorded_as w p \<longleftrightarrow> (\<exists>t. w = p\<lparr>ts3 := t\<rparr>)"

lemma stamped_pongs_snoc:
  "stamped_pongs w (tk @ [p]) = stamped_pongs w tk @ (if pong p then [p\<lparr>ts3 := reading w (nread w + length (filter pong tk))\<rparr>] else [])"
  by (simp add: stamped_pongs_def enumerate_append_eq)

lemma stamped_pongs_recorded: "list_all2 recorded_as (stamped_pongs w tk) (filter pong tk)"
  by (auto simp: stamped_pongs_def list_all2_conv_all_nth recorded_as_def nth_enumerate_eq)

definition client_inv ::
  "persistence_agent \<Rightarrow> u64 \<Rightarrow> world \<Rightarrow> poll_client \<Rightarrow> pingpong_payload list \<Rightarrow> pingpong_payload list \<Rightarrow> bool" where
  "client_inv ag iters w c acc tk \<longleftrightarrow>
     (\<exists>q. acc = tk @ q \<and> (cl_pc c \<noteq> L_Done \<longrightarrow> ring_state (cl_maps c, cl_next c) q))
     \<and> cl_written c = stamped_pongs w tk
     \<and> reading (cl_world c) = reading w \<and> nread (cl_world c) = nread w + length (filter pong tk)
     \<and> agent_writes ag (cl_written c) = Some (cl_agent c)
     \<and> cl_id c = foldl max 0 (map pp_id (cl_written c))
     \<and> cl_pc c \<noteq> L_Undef \<and> (cl_pc c = L_Done \<longrightarrow> cl_exit c \<or> iters \<le> cl_id c) \<and> (cl_pc c = L_Poll \<longrightarrow> cl_id c < iters)"

lemma client_inv_packet:
  assumes "client_inv ag iters w c acc tk" and "array_lookup_ok lk"
  shows "client_inv ag iters w (client_step lk iters c (Packet pkt)) (acc @ ring_accepts lk (cl_maps c) (Packet pkt)) tk"
proof -
  obtain q where q: "acc = tk @ q" "cl_pc c \<noteq> L_Done \<Longrightarrow> ring_state (cl_maps c, cl_next c) q"
    using assms(1) by (auto simp: client_inv_def)
  let ?q = "q @ ring_accepts lk (cl_maps c) (Packet pkt)"
  have "cl_pc c \<noteq> L_Done \<longrightarrow> ring_state (snd (snd (xdp_main lk pkt (cl_maps c))), cl_next c) ?q"
    using packet_flows(1) [OF assms(2) q(2)] by blast
  with q(1) assms(1) show ?thesis
    by (auto simp: client_inv_def client_step_def intro!: exI [of _ ?q])
qed

text \<open>One pass through the body on a payload taken while no signal is pending.\<close>

lemma client_inv_body:
  assumes "client_inv ag iters w c (tk @ p # q) tk" and "ring_state (m, n) q" and "\<not> cl_exit c" and "cl_pc c = L_Poll"
    and "agent_total ag"
  shows "client_inv ag iters w (client_body p (c\<lparr>cl_maps := m, cl_next := n\<rparr>)) (tk @ p # q) (tk @ [p])"
proof (cases "phase p = 2")
  case False
  with assms show ?thesis
    by (auto simp: client_body_def client_inv_def stamped_pongs_snoc pong_def)
next
  case True
  let ?p = "p\<lparr>ts3 := reading w (nread w + length (filter pong tk))\<rparr>"
  obtain rc ag' where "agent_write (cl_agent c) ?p = Some (rc, ag')" "agent_writes ag (cl_written c @ [?p]) = Some ag'"
    using agent_total_next [OF assms(5), of "cl_written c" "cl_agent c" ?p] assms(1) by (auto simp: client_inv_def)
  with True assms show ?thesis
    by (auto simp: client_body_def client_inv_def stamped_pongs_snoc pong_def Let_def get_time_ns_eq)
qed

lemma client_inv_tick:
  assumes "client_inv ag iters w c acc tk" and "agent_total ag"
  shows "client_inv ag iters w (client_tick iters c) acc (tk @ poll_takes (cl_pc c) (cl_exit c) (cl_next c) (cl_maps c) Tick)"
proof (cases "cl_pc c")
  case L_Poll
  obtain q where q: "acc = tk @ q" "ring_state (cl_maps c, cl_next c) q" using assms(1) L_Poll by (auto simp: client_inv_def)
  show ?thesis
  proof (cases "cl_exit c")
    case True
    then obtain p m n where "poll_next_payload (cl_exit c) (cl_next c) (cl_maps c) = Some (p, m, n)"
      by (simp add: poll_next_payload_def Let_def)
    then have "client_tick iters c = c\<lparr>cl_maps := m, cl_next := n, cl_pc := L_Done\<rparr>"
      using L_Poll True by (simp add: client_tick_def client_body_def)
    with assms(1) True q(1) show ?thesis by (auto simp: client_inv_def)
  next
    case False
    show ?thesis
    proof (cases q)
      case Nil
      then have "poll_next_payload False (cl_next c) (cl_maps c) = None" using poll_flows [OF q(2)] by simp
      with L_Poll False assms(1) show ?thesis by (simp add: client_tick_def poll_takes_def)
    next
      case (Cons p q')
      then obtain m n where p: "poll_next_payload False (cl_next c) (cl_maps c) = Some (p, m, n)" "ring_state (m, n) q'"
        using poll_flows [OF q(2)] by auto
      have "client_tick iters c = client_body p (c\<lparr>cl_maps := m, cl_next := n\<rparr>)" "poll_takes (cl_pc c) (cl_exit c) (cl_next c) (cl_maps c) Tick = [p]"
        using p(1) L_Poll False by (simp_all add: client_tick_def poll_takes_def)
      moreover have "client_inv ag iters w (client_body p (c\<lparr>cl_maps := m, cl_next := n\<rparr>)) (tk @ p # q') (tk @ [p])"
        using assms(1) q(1) Cons by (intro client_inv_body [OF _ p(2) False L_Poll assms(2)]) simp
      ultimately show ?thesis using q(1) Cons by simp
    qed
  qed
qed (use assms in \<open>auto simp: client_tick_def client_inv_def not_less\<close>)

lemma client_run_inv:
  assumes "array_lookup_ok lk" and "agent_total ag"
  shows "client_inv ag iters w (foldl (client_step lk iters) (client_start ag w) es)
    (client_accepted lk iters (client_start ag w) es) (client_taken lk iters (client_start ag w) es)"
proof (induction es rule: rev_induct)
  case Nil
  show ?case
    using ring_state_empty
    by (simp add: client_inv_def client_start_def client_accepted_def client_taken_def stamped_pongs_def)
next
  case (snoc e es)
  show ?case
  proof (cases e)
    case (Packet pkt)
    with client_inv_packet [OF snoc assms(1), of pkt] show ?thesis
      by (simp add: client_accepted_def client_taken_def history_snoc)
  next
    case Sigint
    have "client_inv ag iters w (client_step lk iters c Sigint) acc tk" if "client_inv ag iters w c acc tk" for c acc tk
      using that by (auto simp: client_inv_def client_step_def)
    from this [OF snoc] Sigint show ?thesis by (simp add: client_accepted_def client_taken_def history_snoc)
  next
    case Tick
    have "client_step lk iters c Tick = client_tick iters c" for c by (simp add: client_step_def)
    with client_inv_tick [OF snoc assms(2)] Tick show ?thesis
      by (simp add: client_accepted_def client_taken_def history_snoc)
  qed
qed

section \<open>The server loop\<close>

text \<open>The packet \<open>pkt\<close> answers the ping \<open>p\<close>: the server's header, and the ping's payload with only the phase and
  the two server time stamps replaced.\<close>

definition answers :: "bytes \<Rightarrow> u64 \<Rightarrow> u64 \<Rightarrow> bytes \<Rightarrow> pingpong_payload \<Rightarrow> bool" where
  "answers hdr t1 t2 pkt p \<longleftrightarrow> length pkt = PACKET_SIZE \<and> mread pkt 0 packet_payload = hdr
     \<and> load_payload pkt packet_payload = p\<lparr>ts1 := t1, phase := 2, ts2 := t2\<rparr>"

definition ping :: "pingpong_payload \<Rightarrow> bool" where
  "ping p \<longleftrightarrow> phase p = 0"

text \<open>The packets answer the pings among the payloads taken, one for one, the \<open>j\<close>-th with the clock's readings \<open>2 j\<close>
  and \<open>2 j + 1\<close>.\<close>

definition answered :: "bytes \<Rightarrow> world \<Rightarrow> bytes list \<Rightarrow> pingpong_payload list \<Rightarrow> bool" where
  "answered hdr w pkts tk \<longleftrightarrow>
     list_all2 (\<lambda>pkt (j, p). answers hdr (reading w (nread w + 2 * j)) (reading w (nread w + 2 * j + 1)) pkt p)
       pkts (enumerate 0 (filter ping tk))"

lemma answered_snoc:
  "answered hdr w pkts tk \<Longrightarrow> ping p \<Longrightarrow>
   answers hdr (reading w (nread w + 2 * length (filter ping tk))) (reading w (nread w + 2 * length (filter ping tk) + 1)) pkt p \<Longrightarrow>
   answered hdr w (pkts @ [pkt]) (tk @ [p])"
  by (simp add: answered_def enumerate_append_eq list_all2_appendI)

lemma answered_other: "\<not> ping p \<Longrightarrow> answered hdr w pkts (tk @ [p]) = answered hdr w pkts tk"
  by (simp add: answered_def)

text \<open>Everything the loop has taken is a ping, but for a last payload that ended it.\<close>

definition stops_at_other :: "loop_pc \<Rightarrow> pingpong_payload list \<Rightarrow> bool" where
  "stops_at_other pc tk \<longleftrightarrow> (\<forall>p\<in>set (if pc = L_Done then butlast tk else tk). ping p)"

definition server_inv :: "bytes \<Rightarrow> u64 \<Rightarrow> world \<Rightarrow> poll_server \<Rightarrow> pingpong_payload list \<Rightarrow> pingpong_payload list \<Rightarrow> bool" where
  "server_inv hdr iters w s acc tk \<longleftrightarrow> length (sv_buf s) = PACKET_SIZE \<and> mread (sv_buf s) 0 packet_payload = hdr
     \<and> link_up (sv_world s) \<and> reading (sv_world s) = reading w \<and> nread (sv_world s) = nread w + 2 * length (filter ping tk)
     \<and> sv_pc s \<noteq> L_Undef
     \<and> (\<exists>q. acc = tk @ q \<and> ring_state (sv_maps s, sv_next s) q)
     \<and> (\<exists>pkts. sent (sv_world s) = sent w @ pkts \<and> answered hdr w pkts tk)
     \<and> sv_id s = foldl max 0 (map pp_id (filter ping tk)) \<and> stops_at_other (sv_pc s) tk
     \<and> (sv_pc s = L_Done \<longrightarrow> iters \<le> sv_id s \<or> tk \<noteq> [] \<and> \<not> ping (last tk)) \<and> (sv_pc s = L_Poll \<longrightarrow> sv_id s < iters)"

text \<open>One pass through the body on a ping: one packet is sent, and it answers the ping with the next two readings of
  the clock.\<close>

lemma server_body_ping:
  assumes "phase p = 0" and "length (sv_buf s) = PACKET_SIZE" and "mread (sv_buf s) 0 packet_payload = hdr" and "link_up (sv_world s)"
  shows "\<exists>buf. server_body iters p s = s\<lparr>sv_buf := buf, sv_id := max (sv_id s) (pp_id p),
      sv_world := (sv_world s)\<lparr>nread := nread (sv_world s) + 2, nsend := nsend (sv_world s) + 1, sent := sent (sv_world s) @ [buf]\<rparr>,
      sv_pc := (if iters \<le> max (sv_id s) (pp_id p) then L_Done else L_Head)\<rparr>
    \<and> answers hdr (reading (sv_world s) (nread (sv_world s))) (reading (sv_world s) (nread (sv_world s) + 1)) buf p"
proof -
  let ?w = "sv_world s"
  have off: "packet_payload + payload_size \<le> length (sv_buf s)"
    using assms(2) by (simp add: packet_payload_eq payload_size_def PACKET_SIZE_def)
  define b1 where "b1 = store_payload (sv_buf s) packet_payload p"
  define b2 where "b2 = store_ts b1 packet_payload (Suc 0) (reading ?w (nread ?w))"
  define b3 where "b3 = store_payload b2 packet_payload ((load_payload b2 packet_payload)\<lparr>phase := 2\<rparr>)"
  define b4 where "b4 = store_ts b3 packet_payload 2 (reading ?w (Suc (nread ?w)))"
  have len: "length b1 = length (sv_buf s)" "length b2 = length (sv_buf s)" "length b3 = length (sv_buf s)" "length b4 = length (sv_buf s)"
    using off by (simp_all add: b1_def b2_def b3_def b4_def)
  have "load_payload b2 packet_payload = p\<lparr>ts1 := reading ?w (nread ?w)\<rparr>"
    using off len by (simp add: b2_def b1_def load_store_ts load_store_payload)
  then have load: "load_payload b4 packet_payload = p\<lparr>ts1 := reading ?w (nread ?w), phase := 2, ts2 := reading ?w (nread ?w + 1)\<rparr>"
    using off len by (simp add: b4_def b3_def load_store_ts load_store_payload)
  have hdr: "mread b4 0 packet_payload = hdr"
    using off len assms(3) by (simp add: b4_def b3_def b2_def b1_def store_ts_before store_payload_before)
  have ok: "0 \<le> send_ret ?w (nsend ?w)" using assms(4) by (simp add: link_up_def)
  have take: "take PACKET_SIZE b4 = b4" using len(4) assms(2) by simp
  have "server_body iters p s = s\<lparr>sv_buf := b4, sv_id := max (sv_id s) (pp_id p),
      sv_world := ?w\<lparr>nread := nread ?w + 2, nsend := nsend ?w + 1, sent := sent ?w @ [b4]\<rparr>,
      sv_pc := (if iters \<le> max (sv_id s) (pp_id p) then L_Done else L_Head)\<rparr>"
    using assms(1) ok take
    by (simp add: server_body_def Let_def get_time_ns_eq send_pingpong_packet_def sys_sendto_def
        b1_def [symmetric] b2_def [symmetric] b3_def [symmetric] b4_def [symmetric])
  with load hdr len assms(2) show ?thesis by (intro exI [of _ b4]) (simp add: answers_def)
qed

lemma server_inv_body:
  assumes "server_inv hdr iters w s (tk @ p # q) tk" and "ring_state (m, n) q" and "sv_pc s = L_Poll"
  shows "server_inv hdr iters w (server_body iters p (s\<lparr>sv_maps := m, sv_next := n\<rparr>)) (tk @ p # q) (tk @ [p])"
proof (cases "ping p")
  case False
  have "length (store_payload (sv_buf s) packet_payload p) = PACKET_SIZE"
    "mread (store_payload (sv_buf s) packet_payload p) 0 packet_payload = hdr"
    using assms(1) by (simp_all add: server_inv_def store_payload_before packet_payload_eq payload_size_def PACKET_SIZE_def)
  with False assms show ?thesis
    by (simp add: server_body_def server_inv_def ping_def [of p] stops_at_other_def answered_other)
next
  case True
  let ?s = "s\<lparr>sv_maps := m, sv_next := n\<rparr>"
  obtain buf where b: "server_body iters p ?s = ?s\<lparr>sv_buf := buf, sv_id := max (sv_id ?s) (pp_id p),
      sv_world := (sv_world ?s)\<lparr>nread := nread (sv_world ?s) + 2, nsend := nsend (sv_world ?s) + 1, sent := sent (sv_world ?s) @ [buf]\<rparr>,
      sv_pc := (if iters \<le> max (sv_id ?s) (pp_id p) then L_Done else L_Head)\<rparr>"
    "answers hdr (reading (sv_world ?s) (nread (sv_world ?s))) (reading (sv_world ?s) (nread (sv_world ?s) + 1)) buf p"
    using server_body_ping [of p ?s hdr iters] True assms(1) by (auto simp: server_inv_def ping_def)
  obtain pkts where pk: "sent (sv_world s) = sent w @ pkts" "answered hdr w pkts tk" using assms(1) by (auto simp: server_inv_def)
  have "answered hdr w (pkts @ [buf]) (tk @ [p])"
    using b(2) assms(1) by (intro answered_snoc [OF pk(2) True]) (simp add: server_inv_def)
  moreover have "mread buf 0 packet_payload = hdr" "length buf = PACKET_SIZE" using b(2) by (simp_all add: answers_def)
  ultimately show ?thesis
    using b(1) assms pk(1) True by (auto simp: server_inv_def stops_at_other_def not_le)
qed

lemma server_inv_tick:
  assumes "server_inv hdr iters w s acc tk"
  shows "server_inv hdr iters w (server_tick iters s) acc (tk @ poll_takes (sv_pc s) False (sv_next s) (sv_maps s) Tick)"
proof (cases "sv_pc s")
  case L_Poll
  obtain q where q: "acc = tk @ q" "ring_state (sv_maps s, sv_next s) q" using assms by (auto simp: server_inv_def)
  show ?thesis
  proof (cases q)
    case Nil
    then have "poll_next_payload False (sv_next s) (sv_maps s) = None" using poll_flows [OF q(2)] by simp
    with L_Poll assms show ?thesis by (simp add: server_tick_def poll_takes_def)
  next
    case (Cons p q')
    then obtain m n where p: "poll_next_payload False (sv_next s) (sv_maps s) = Some (p, m, n)" "ring_state (m, n) q'"
      using poll_flows [OF q(2)] by auto
    have "server_tick iters s = server_body iters p (s\<lparr>sv_maps := m, sv_next := n\<rparr>)" "poll_takes (sv_pc s) False (sv_next s) (sv_maps s) Tick = [p]"
      using p(1) L_Poll by (simp_all add: server_tick_def poll_takes_def)
    moreover have "server_inv hdr iters w (server_body iters p (s\<lparr>sv_maps := m, sv_next := n\<rparr>)) (tk @ p # q') (tk @ [p])"
      using assms q(1) Cons by (intro server_inv_body [OF _ p(2) L_Poll]) simp
    ultimately show ?thesis using q(1) Cons by simp
  qed
next
  case L_Head
  with assms show ?thesis
    by (auto simp: server_tick_def server_inv_def stops_at_other_def not_less dest: in_set_butlastD)
qed (use assms in \<open>auto simp: server_tick_def server_inv_def\<close>)

lemma server_inv_packet:
  assumes "server_inv hdr iters w s acc tk" and "array_lookup_ok lk"
  shows "server_inv hdr iters w (server_step lk iters s (Packet pkt)) (acc @ ring_accepts lk (sv_maps s) (Packet pkt)) tk"
proof -
  obtain q where q: "acc = tk @ q" "ring_state (sv_maps s, sv_next s) q" using assms(1) by (auto simp: server_inv_def)
  with packet_flows(1) [OF assms(2) q(2)] assms(1) show ?thesis
    by (auto simp: server_inv_def server_step_def intro!: exI [of _ "q @ ring_accepts lk (sv_maps s) (Packet pkt)"])
qed

lemma server_run_inv:
  assumes "array_lookup_ok lk" and "length buf = PACKET_SIZE" and "link_up w"
  shows "server_inv (mread buf 0 packet_payload) iters w (foldl (server_step lk iters) (server_start buf w) es)
    (server_accepted lk iters (server_start buf w) es) (server_taken lk iters (server_start buf w) es)"
proof (induction es rule: rev_induct)
  case Nil
  show ?case
    using ring_state_empty assms
    by (simp add: server_inv_def server_start_def server_accepted_def server_taken_def answered_def stops_at_other_def)
next
  case (snoc e es)
  show ?case
  proof (cases e)
    case (Packet pkt)
    with server_inv_packet [OF snoc assms(1), of pkt] show ?thesis
      by (simp add: server_accepted_def server_taken_def history_snoc)
  next
    case Sigint
    have "server_step lk iters s Sigint = s" for s by (simp add: server_step_def)
    with snoc Sigint show ?thesis by (simp add: server_accepted_def server_taken_def history_snoc)
  next
    case Tick
    have "server_step lk iters s Tick = server_tick iters s" for s by (simp add: server_step_def)
    with server_inv_tick [OF snoc] Tick show ?thesis
      by (simp add: server_accepted_def server_taken_def history_snoc)
  qed
qed

section \<open>Properties\<close>

text \<open>C7: the client takes every queued packet once, in order, and records every pong it takes. For every schedule of
  arriving packets, loop steps and a signal: the payloads the ring has accepted are arrived ones, a ping-pong
  packet is accepted unless 128 payloads wait; the payloads the loop has taken are exactly the oldest accepted ones,
  and while the loop runs the next step of its busy-wait takes the oldest waiting one; what the client has
  written to its persistence agent is exactly the taken payloads of phase 2, each with only its fourth
  timestamp replaced, by the clock's reading of its turn; the agent is in the state these writes lead to; the
  progress counter is the greatest identifier written; and the loop ends only on the signal or when a pong
  with the last identifier was recorded.\<close>

theorem client_records_pongs:
  assumes "array_lookup_ok lk" and "agent_total ag" and "c = foldl (client_step lk iters) (client_start ag w) es"
    and "acc = client_accepted lk iters (client_start ag w) es" and "tk = client_taken lk iters (client_start ag w) es"
  shows "subseq acc (arrivals es)
    \<and> (\<exists>q. acc = tk @ q \<and> (cl_pc c \<noteq> L_Done \<longrightarrow>
         (\<forall>pkt p. pingpong_of pkt = Some p \<longrightarrow> client_accepted lk iters (client_start ag w) (es @ [Packet pkt])
            = acc @ (if length q < PACKETS_MAP_SIZE then [p] else []))
       \<and> (\<not> cl_exit c \<and> cl_pc c = L_Poll \<longrightarrow> client_taken lk iters (client_start ag w) (es @ [Tick]) = tk @ take 1 q)))
    \<and> cl_written c = map (\<lambda>(j, p). p\<lparr>ts3 := reading w j\<rparr>) (enumerate (nread w) (filter pong tk))
    \<and> agent_writes ag (cl_written c) = Some (cl_agent c)
    \<and> cl_id c = foldl max 0 (map pp_id (cl_written c))
    \<and> cl_pc c \<noteq> L_Undef \<and> (cl_pc c = L_Done \<longrightarrow> cl_exit c \<or> iters \<le> cl_id c)"
proof -
  let ?run = "\<lambda>fs. client_accepted lk iters (client_start ag w) (es @ fs)"
  have inv: "client_inv ag iters w c acc tk" unfolding assms(3-5) by (rule client_run_inv [OF assms(1,2)])
  then obtain q where q: "acc = tk @ q" "cl_pc c \<noteq> L_Done \<Longrightarrow> ring_state (cl_maps c, cl_next c) q"
    by (auto simp: client_inv_def)
  have "?run [Packet pkt] = acc @ (if length q < PACKETS_MAP_SIZE then [p] else [])"
    if "cl_pc c \<noteq> L_Done" "pingpong_of pkt = Some p" for pkt p
    using packet_flows(2) [OF assms(1) q(2), of pkt] that
    by (simp add: assms(4) client_accepted_def history_snoc assms(3) [symmetric])
  moreover have "client_taken lk iters (client_start ag w) (es @ [Tick]) = tk @ take 1 q" if "cl_pc c = L_Poll" "\<not> cl_exit c"
    using poll_takes_eq [OF q(2), of L_Poll False] that
    by (simp add: assms(5) client_taken_def history_snoc assms(3) [symmetric])
  moreover have "subseq acc (arrivals es)" unfolding assms(4) client_accepted_def by (rule accepted_arrived)
  ultimately show ?thesis using inv q(1) by (auto simp: client_inv_def stamped_pongs_def)
qed

definition demo_slot :: "nat \<Rightarrow> u32 \<Rightarrow> nat option" where
  "demo_slot n k = (if unat k < n then Some (unat k) else None)"

lemma demo_slot_ok: "array_lookup_ok demo_slot"
  by (simp add: array_lookup_ok_def demo_slot_def)

text \<open>A pong that arrives while the client polls is recorded.\<close>

definition demo_pong_packet :: "u64 \<Rightarrow> bytes" where
  "demo_pong_packet i = store_payload (demo_packet i) packet_payload ((new_pingpong_payload i)\<lparr>phase := 2\<rparr>)"

lemma pingpong_of_store:
  assumes "pingpong_of pkt = Some p" and "valid_pingpong_payload p'"
  shows "pingpong_of (store_payload pkt packet_payload p') = Some p'"
  using assms
  by (simp add: pingpong_of_def get16_def store_payload_before load_store_payload off_h_proto_def packet_payload_eq split: if_splits)

lemma demo_pong_packet_pingpong: "pingpong_of (demo_pong_packet i) = Some ((new_pingpong_payload i)\<lparr>phase := 2\<rparr>)"
  unfolding demo_pong_packet_def
  by (rule pingpong_of_store [OF demo_packet_pingpong]) (simp add: valid_pingpong_payload_def)

theorem client_records_pongs_witness:
  "cl_written (foldl (client_step demo_slot 3) (client_start (demo_agent 4 0) demo_world) [Tick, Packet (demo_pong_packet 1), Tick])
     = [(new_pingpong_payload 1)\<lparr>phase := 2, ts3 := reading demo_world 0\<rparr>]"
proof -
  let ?c = "client_start (demo_agent 4 0) demo_world" and ?P = "Packet (demo_pong_packet 1)"
  let ?p = "(new_pingpong_payload 1)\<lparr>phase := 2\<rparr>"
  note run = client_records_pongs [OF demo_slot_ok demo_agent_total refl refl refl, where iters = 3 and w = demo_world]
  have pc: "cl_pc (foldl (client_step demo_slot 3) ?c [Tick]) = L_Poll" "cl_pc (foldl (client_step demo_slot 3) ?c [Tick, ?P]) = L_Poll"
    "\<not> cl_exit (foldl (client_step demo_slot 3) ?c [Tick, ?P])"
    by (simp_all add: client_start_def client_step_def client_tick_def)
  have none: "client_accepted demo_slot 3 ?c [Tick] = []" "client_taken demo_slot 3 ?c [Tick, ?P] = []"
    by (simp_all add: client_accepted_def client_taken_def client_start_def client_step_def client_tick_def)
  have "client_accepted demo_slot 3 ?c [Tick, ?P] = [?p]"
    using run [of "[Tick]"] pc(1) none(1) demo_pong_packet_pingpong [of 1] by auto
  then have "client_taken demo_slot 3 ?c [Tick, ?P, Tick] = [?p]"
    using run [of "[Tick, ?P]"] pc(2,3) none(2) by auto
  then show ?thesis using run [of "[Tick, ?P, Tick]"] by (auto simp: pong_def demo_world_def)
qed

text \<open>C8: the server takes every queued packet once, in order, and answers every ping it takes. For every schedule, while
  the link is up: the payloads the ring has accepted are arrived ones, a ping-pong packet is accepted unless 128
  payloads wait; the payloads the loop has taken are exactly the oldest accepted ones, and the next step of its
  busy-wait takes the oldest waiting one; all of them are pings, but for a last one that ended the loop; and
  the packets sent answer the taken pings one for one: a full-size packet with the server's header and the
  ping's payload in which only the phase and the two server timestamps are replaced, by the next two readings
  of the clock. The loop ends only on a payload that is no ping or once the last identifier is answered.\<close>

theorem server_answers_pings:
  assumes "array_lookup_ok lk" and "length buf = PACKET_SIZE" and "link_up w"
    and "s = foldl (server_step lk iters) (server_start buf w) es"
    and "acc = server_accepted lk iters (server_start buf w) es" and "tk = server_taken lk iters (server_start buf w) es"
  shows "subseq acc (arrivals es)
    \<and> (\<exists>q. acc = tk @ q
       \<and> (\<forall>pkt p. pingpong_of pkt = Some p \<longrightarrow> server_accepted lk iters (server_start buf w) (es @ [Packet pkt])
            = acc @ (if length q < PACKETS_MAP_SIZE then [p] else []))
       \<and> (sv_pc s = L_Poll \<longrightarrow> server_taken lk iters (server_start buf w) (es @ [Tick]) = tk @ take 1 q))
    \<and> (\<forall>p\<in>set (if sv_pc s = L_Done then butlast tk else tk). ping p)
    \<and> (\<exists>pkts. sent (sv_world s) = sent w @ pkts
       \<and> list_all2 (\<lambda>pkt (j, p). answers (mread buf 0 packet_payload) (reading w (nread w + 2 * j)) (reading w (nread w + 2 * j + 1)) pkt p)
           pkts (enumerate 0 (filter ping tk)))
    \<and> sv_id s = foldl max 0 (map pp_id (filter ping tk))
    \<and> (sv_pc s = L_Done \<longrightarrow> iters \<le> sv_id s \<or> tk \<noteq> [] \<and> \<not> ping (last tk))"
proof -
  have inv: "server_inv (mread buf 0 packet_payload) iters w s acc tk"
    unfolding assms(4-6) by (rule server_run_inv [OF assms(1-3)])
  then obtain q where q: "acc = tk @ q" "ring_state (sv_maps s, sv_next s) q" by (auto simp: server_inv_def)
  have "server_accepted lk iters (server_start buf w) (es @ [Packet pkt]) = acc @ (if length q < PACKETS_MAP_SIZE then [p] else [])"
    if "pingpong_of pkt = Some p" for pkt p
    using packet_flows(2) [OF assms(1) q(2), of pkt] that
    by (simp add: assms(5) server_accepted_def history_snoc assms(4) [symmetric])
  moreover have "server_taken lk iters (server_start buf w) (es @ [Tick]) = tk @ take 1 q" if "sv_pc s = L_Poll"
    using poll_takes_eq [OF q(2), of L_Poll False] that
    by (simp add: assms(6) server_taken_def history_snoc assms(4) [symmetric])
  moreover have "subseq acc (arrivals es)" unfolding assms(5) server_accepted_def by (rule accepted_arrived)
  ultimately show ?thesis using inv q(1) unfolding server_inv_def stops_at_other_def answered_def by blast
qed

theorem server_answers_pings_witness:
  "\<exists>pkt. sent (sv_world (foldl (server_step demo_slot 3) (server_start (replicate 1024 0) demo_world) [Tick, Packet (demo_packet 1), Tick])) = [pkt]
     \<and> answers (replicate 34 0) (reading demo_world 0) (reading demo_world 1) pkt (new_pingpong_payload 1)"
proof -
  let ?s = "server_start (replicate 1024 0) demo_world" and ?P = "Packet (demo_packet 1)"
  let ?p = "new_pingpong_payload 1"
  have buf: "length (replicate 1024 (0 :: u8)) = PACKET_SIZE" "mread (replicate 1024 (0 :: u8)) 0 packet_payload = replicate 34 0"
    by (simp_all add: PACKET_SIZE_def mread_def packet_payload_eq)
  note run = server_answers_pings [OF demo_slot_ok buf(1) demo_clock(2) refl refl refl, where iters = 3, unfolded buf(2)]
  have pc: "sv_pc (foldl (server_step demo_slot 3) ?s [Tick, ?P]) = L_Poll"
    by (simp add: server_start_def server_step_def server_tick_def)
  have none: "server_accepted demo_slot 3 ?s [Tick] = []" "server_taken demo_slot 3 ?s [Tick, ?P] = []"
    by (simp_all add: server_accepted_def server_taken_def server_start_def server_step_def server_tick_def)
  have "server_accepted demo_slot 3 ?s [Tick, ?P] = [?p]"
    using run [of "[Tick]"] none(1) demo_packet_pingpong [of 1] by auto
  then have tk: "server_taken demo_slot 3 ?s [Tick, ?P, Tick] = [?p]"
    using run [of "[Tick, ?P]"] pc none(2) by auto
  have w: "sent demo_world = []" "nread demo_world = 0" by (simp_all add: demo_world_def)
  have "enumerate 0 (filter ping [?p]) = [(0, ?p)]" by (simp add: ping_def new_pingpong_payload_def)
  with run [of "[Tick, ?P, Tick]"] show ?thesis unfolding tk w
    by (auto simp: list_all2_Cons2)
qed

text \<open>C30: the sender thread sends every packet of the experiment. On an advancing clock and with the link up, the
  thread's loop with the polling program's \<^verbatim>\<open>send_packet\<close> ends, for any iteration count below \<open>2 ^ 64 - 1\<close>, having
  put on the wire exactly one packet for each identifier from 1 to \<open>iters\<close>, in this order.\<close>

theorem poll_sender_sends_all:
  assumes "length buf = PACKET_SIZE" and "link_up w" and "clock_advances w" and "iters < - 1"
  shows "\<exists>buf' w' ps. send_loop poll_send_packet iters interval 1 buf w = Some (True, buf', w')
    \<and> sent w' = sent w @ ps \<and> map (\<lambda>p. pp_id (load_payload p packet_payload)) ps = map of_nat [1..<unat iters + 1]"
  using assms by (rule poll_sender.sends_all)

theorem poll_sender_sends_all_witness:
  "\<exists>buf' w' ps. send_loop poll_send_packet 3 2000000 1 (replicate 1024 0) demo_world = Some (True, buf', w')
    \<and> sent w' = ps \<and> map (\<lambda>p. pp_id (load_payload p packet_payload)) ps = [1, 2, 3]"
  using poll_sender_sends_all [OF _ demo_clock(2,1), of "replicate 1024 0" 3 2000000]
  by (simp add: PACKET_SIZE_def demo_world_def upt_rec)

end
