(* ===== verification/Poll_Typing.thy ===== *)
theory Poll_Typing
  imports Pp_Poll
begin

text \<open>
  Well-formed states of the polling variant: the shape of the shared maps, of the indices and of the packet buffer that every access of
  \<^verbatim>\<open>xdp/pingpong.c\<close> and \<^verbatim>\<open>xdp/pp_poll.c\<close> relies on. Every event preserves it from every well-formed state, whatever bytes arrive, whether or not the
  link is up and whatever the kernel's lookup answers.
\<close>

section \<open>Definitions\<close>

definition maps_typed :: "xdp_maps \<Rightarrow> bool" where
  "maps_typed m \<longleftrightarrow> length (last_payload m) = PACKETS_MAP_SIZE \<and> unat (lck_index m) < PACKETS_MAP_SIZE"

definition client_typed :: "poll_client \<Rightarrow> bool" where
  "client_typed c \<longleftrightarrow> maps_typed (cl_maps c) \<and> unat (cl_next c) < length (last_payload (cl_maps c)) \<and> agent_total (cl_agent c) \<and> cl_pc c \<noteq> L_Undef"

definition server_typed :: "poll_server \<Rightarrow> bool" where
  "server_typed s \<longleftrightarrow> maps_typed (sv_maps s) \<and> unat (sv_next s) < length (last_payload (sv_maps s)) \<and> length (sv_buf s) = PACKET_SIZE
     \<and> (\<forall>p\<in>set (sent (sv_world s)). length p = PACKET_SIZE) \<and> sv_pc s \<noteq> L_Undef"

section \<open>Preservation\<close>

lemma maps_typed_put [simp]: "maps_typed (put_slot i p m) = maps_typed m"
  by (simp add: maps_typed_def put_slot_def)

lemma maps_typed_next: "maps_typed m \<Longrightarrow> maps_typed (m\<lparr>lck_index := next_slot k\<rparr>)"
  by (simp add: maps_typed_def)

lemma maps_typed_same [simp]: "maps_typed (m\<lparr>lck_index := k, lck_index := lck_index m\<rparr>) = maps_typed m"
  by (simp add: maps_typed_def)

lemma length_put_slot [simp]: "length (last_payload (put_slot i p m)) = length (last_payload m)"
  by (simp add: put_slot_def)

lemma add_packet_typed:
  assumes "maps_typed m" and "add_packet_to_map lk p m = (r, p', m')"
  shows "maps_typed m'" and "length (last_payload m') = length (last_payload m)"
  using assms maps_typed_next [OF assms(1)]
  by (auto simp: add_packet_to_map_def Let_def maps_typed_def split: option.splits if_splits)

lemma xdp_main_typed:
  assumes "maps_typed m" and "xdp_main lk pkt m = (a, pkt', m')"
  shows "maps_typed m'" and "length (last_payload m') = length (last_payload m)" and "length pkt' = length pkt"
proof -
  let ?off = "sizeof_ethhdr + sizeof_iphdr"
  obtain r p n where q: "add_packet_to_map lk (Some (load_payload pkt ?off)) m = (r, p, n)" by (rule prod_cases3)
  show "maps_typed m'" "length (last_payload m') = length (last_payload m)" "length pkt' = length pkt"
    using assms q add_packet_typed [OF assms(1) q]
    by (auto simp: xdp_main_def Let_def split: if_splits option.splits)
qed

lemma poll_typed:
  assumes "maps_typed m" and "poll_next_payload ex k m = Some (p, m', k')"
  shows "maps_typed m'" and "unat k' < length (last_payload m')"
  using assms by (auto simp: poll_next_payload_def Let_def maps_typed_def put_slot_def split: if_splits)

lemma agent_total_step:
  assumes "agent_total ag"
  shows "\<exists>rc ag'. agent_write ag p = Some (rc, ag') \<and> agent_total ag'"
proof -
  have w: "agent_writes ag (p # ps) \<noteq> None" for ps using assms unfolding agent_total_def by blast
  obtain rc ag' where a: "agent_write ag p = Some (rc, ag')" using w [of "[]"] by (auto split: option.splits)
  moreover have "agent_writes ag' ps \<noteq> None" for ps using w [of ps] a by simp
  ultimately show ?thesis by (simp add: agent_total_def)
qed

lemma client_body_typed:
  assumes "client_typed c"
  shows "client_typed (client_body p c)"
proof -
  let ?p = "p\<lparr>ts3 := reading (cl_world c) (nread (cl_world c))\<rparr>"
  obtain rc ag' where "agent_write (cl_agent c) ?p = Some (rc, ag')" "agent_total ag'"
    using agent_total_step [of "cl_agent c" ?p] assms by (auto simp: client_typed_def)
  with assms show ?thesis by (simp add: client_body_def client_typed_def get_time_ns_eq Let_def)
qed

lemma server_body_typed:
  assumes "server_typed s"
  shows "server_typed (server_body iters p s)"
proof -
  have off: "packet_payload + payload_size \<le> length (sv_buf s)"
    using assms by (simp add: server_typed_def packet_payload_eq payload_size_def PACKET_SIZE_def)
  show ?thesis
    using assms off
    by (auto simp: server_body_def server_typed_def Let_def get_time_ns_eq send_pingpong_packet_def sys_sendto_def)
qed

lemma client_step_typed: "client_typed c \<Longrightarrow> client_typed (client_step lk iters c ev)"
proof (cases ev)
  case (Packet pkt)
  obtain a q m where x: "xdp_main lk pkt (cl_maps c) = (a, q, m)" by (rule prod_cases3)
  assume "client_typed c"
  with Packet x xdp_main_typed(1,2) [OF _ x] show ?thesis by (simp add: client_step_def client_typed_def)
next
  case Tick
  assume c: "client_typed c"
  have body: "client_typed (client_body p (c\<lparr>cl_maps := m, cl_next := n\<rparr>))"
    if "poll_next_payload (cl_exit c) (cl_next c) (cl_maps c) = Some (p, m, n)" for p m n
    using c poll_typed [OF _ that] by (intro client_body_typed) (simp add: client_typed_def)
  show ?thesis
    using c Tick body by (auto simp: client_step_def client_tick_def client_typed_def split: loop_pc.splits option.splits)
qed (simp add: client_step_def client_typed_def)

lemma server_step_typed: "server_typed s \<Longrightarrow> server_typed (server_step lk iters s ev)"
proof (cases ev)
  case (Packet pkt)
  obtain a q m where x: "xdp_main lk pkt (sv_maps s) = (a, q, m)" by (rule prod_cases3)
  assume "server_typed s"
  with Packet x xdp_main_typed(1,2) [OF _ x] show ?thesis by (simp add: server_step_def server_typed_def)
next
  case Tick
  assume s: "server_typed s"
  have body: "server_typed (server_body iters p (s\<lparr>sv_maps := m, sv_next := n\<rparr>))"
    if "poll_next_payload False (sv_next s) (sv_maps s) = Some (p, m, n)" for p m n
    using s poll_typed [OF _ that] by (intro server_body_typed) (simp add: server_typed_def)
  show ?thesis
    using s Tick body by (auto simp: server_step_def server_tick_def server_typed_def split: loop_pc.splits option.splits)
qed (simp add: server_step_def)

section \<open>Properties\<close>

text \<open>C19: the polling variant keeps its state well formed. From any well-formed state and for any schedule of arriving packets with any content, loop
  steps and signals, with the link up or not: the map keeps its 128 slots and both sides' indices stay inside it, the server's buffer and
  every packet it has sent have the full size, no call into the agent is undefined, and the eBPF program leaves a packet its length.
  The programs start in a well-formed state.\<close>

theorem poll_states_typed:
  assumes "client_typed c" and "server_typed s"
  shows "client_typed (foldl (client_step lk iters) c es) \<and> server_typed (foldl (server_step lk iters) s es)
    \<and> length (fst (snd (xdp_main lk pkt (cl_maps (foldl (client_step lk iters) c es))))) = length pkt
    \<and> (agent_total ag \<longrightarrow> client_typed (client_start ag w)) \<and> (length buf = PACKET_SIZE \<and> sent w = [] \<longrightarrow> server_typed (server_start buf w))"
proof -
  let ?c = "foldl (client_step lk iters) c es"
  have c: "client_typed ?c" by (induction es rule: rev_induct) (simp_all add: assms(1) client_step_typed)
  have s: "server_typed (foldl (server_step lk iters) s es)"
    by (induction es rule: rev_induct) (simp_all add: assms(2) server_step_typed)
  obtain a q m where x: "xdp_main lk pkt (cl_maps ?c) = (a, q, m)" by (rule prod_cases3)
  have "length q = length pkt" using c xdp_main_typed(3) [OF _ x] by (simp add: client_typed_def)
  with c s x show ?thesis
    by (simp add: client_start_def server_start_def client_typed_def server_typed_def maps_typed_def empty_maps_def)
qed

theorem poll_states_typed_witness:
  "client_typed (foldl (client_step demo_slot 3) (client_start (demo_agent 4 0) demo_world) [Tick, Packet (demo_packet 1), Sigint, Tick])
   \<and> server_typed (foldl (server_step demo_slot 3) (server_start (replicate 1024 0) (demo_world\<lparr>send_ret := \<lambda>_. - 1\<rparr>))
       [Tick, Packet (demo_packet 1), Sigint, Tick])"
proof -
  have c: "client_typed (client_start (demo_agent 4 0) demo_world)"
    using demo_agent_total by (simp add: client_start_def client_typed_def maps_typed_def empty_maps_def)
  have s: "server_typed (server_start (replicate 1024 0) (demo_world\<lparr>send_ret := \<lambda>_. - 1\<rparr>))"
    by (simp add: server_start_def server_typed_def maps_typed_def empty_maps_def PACKET_SIZE_def demo_world_def)
  show ?thesis using poll_states_typed [OF c s] by blast
qed

end
