(* ===== verification/Xdp_Pure.thy ===== *)
theory Xdp_Pure
  imports Headers
begin

text \<open>
  The eBPF program of the variant that answers pings inside the driver (\<^verbatim>\<open>xdp/pingpong_pure.c\<close>), in its two
  builds: the server's turns a UDP ping around (swapped addresses, new header checksum, two timestamps) and
  transmits it from the same interface; the client's stamps the arrival time and passes the packet on.

  Two kernel helpers are parameters: \<open>ktime n\<close> is what the \<open>n\<close>-th call of \<^verbatim>\<open>bpf_ktime_get_ns\<close> returns, and
  \<open>csum_diff to seed\<close> is \<^verbatim>\<open>bpf_csum_diff (0, 0, to, sizeof (to), seed)\<close>. The program relies on the documented
  meaning of the second, \<open>csum_diff_ok\<close>: a 32-bit one's complement sum of the 16-bit words of the buffer and the seed.
\<close>

section \<open>Definitions\<close>

definition csum_fold_step :: "u64 \<Rightarrow> u64" where
  "csum_fold_step csum = (if drop_bit 16 csum \<noteq> 0 then (csum AND 0xffff) + drop_bit 16 csum else csum)"

definition csum_fold_helper :: "u64 \<Rightarrow> u16" where
  "csum_fold_helper csum = ucast (NOT ((csum_fold_step ^^ 4) csum))"

definition ipv4_csum :: "(bytes \<Rightarrow> u64 \<Rightarrow> u64) \<Rightarrow> bytes \<Rightarrow> u64 \<Rightarrow> u64" where
  "ipv4_csum csum_diff data csum = (let csum = csum_diff data csum in ucast (csum_fold_helper csum))"

definition pure_payload :: nat where
  "pure_payload = sizeof_ethhdr + sizeof_iphdr + sizeof_udphdr"

text \<open>The guards that both builds share; \<open>None\<close> means that the program returns \<^verbatim>\<open>XDP_PASS\<close> at one of them.\<close>

definition pure_accepts :: "bytes \<Rightarrow> bool" where
  "pure_accepts pkt \<longleftrightarrow>
     \<not> sizeof_ethhdr + sizeof_iphdr + sizeof_udphdr + payload_size > length pkt
     \<and> \<not> (get16 pkt off_h_proto \<noteq> htons ETH_P_IP \<or> get8 pkt off_ip_protocol \<noteq> IPPROTO_UDP
          \<or> get16 pkt off_udp_dest \<noteq> htons XDP_UDP_PORT)
     \<and> valid_pingpong_payload (load_payload pkt pure_payload)"

definition pure_main_client :: "(nat \<Rightarrow> u64) \<Rightarrow> bytes \<Rightarrow> xdp_action \<times> bytes" where
  "pure_main_client ktime pkt =
     (let ts = ktime 0 in
      if \<not> pure_accepts pkt then (XDP_PASS, pkt)
      else (XDP_PASS, store_ts pkt pure_payload 3 ts))"

definition swap_macs :: "bytes \<Rightarrow> bytes" where
  "swap_macs b =
     (let tmp = mread b off_h_dest ETH_ALEN;
          b = mwrite b off_h_dest (mread b off_h_source ETH_ALEN)
      in mwrite b off_h_source tmp)"

definition swap_ips :: "bytes \<Rightarrow> bytes" where
  "swap_ips b =
     (let tmp_ip = get32 b off_ip_daddr;
          b = put32 b off_ip_daddr (get32 b off_ip_saddr)
      in put32 b off_ip_saddr tmp_ip)"

definition pure_main_server :: "(bytes \<Rightarrow> u64 \<Rightarrow> u64) \<Rightarrow> (nat \<Rightarrow> u64) \<Rightarrow> bytes \<Rightarrow> xdp_action \<times> bytes" where
  "pure_main_server csum_diff ktime pkt =
     (let ts = ktime 0 in
      if \<not> pure_accepts pkt then (XDP_PASS, pkt)
      else
        let b = store_ts pkt pure_payload 1 ts;
            b = swap_macs b;
            b = swap_ips b;
            b = put16 b off_ip_check 0;
            csum = ipv4_csum csum_diff (mread b off_ip sizeof_iphdr) 0;
            b = put16 b off_ip_check (ucast csum);
            b = put8 b off_ip_ttl 64;
            b = put16 b off_udp_source (htons XDP_UDP_PORT);
            b = put16 b off_udp_dest (htons XDP_UDP_PORT);
            b = put16 b off_udp_check 0;
            b = store_ts b pure_payload 2 (ktime 1)
        in (XDP_TX, b))"

subsection \<open>The Internet checksum\<close>

fun sum16 :: "bytes \<Rightarrow> nat" where
  "sum16 (a # b # r) = unat a + 256 * unat b + sum16 r"
| "sum16 [a] = unat a"
| "sum16 [] = 0"

text \<open>What a receiver tests: the one's complement sum of the whole header, the checksum field included, is all ones.\<close>

definition ip_header_ok :: "bytes \<Rightarrow> bool" where
  "ip_header_ok hdr \<longleftrightarrow> 0 < sum16 hdr \<and> sum16 hdr mod 65535 = 0"

definition csum_diff_ok :: "(bytes \<Rightarrow> u64 \<Rightarrow> u64) \<Rightarrow> bool" where
  "csum_diff_ok csum_diff \<longleftrightarrow>
     (\<forall>to seed. unat (csum_diff to seed) < 2 ^ 32
        \<and> unat (csum_diff to seed) mod 65535 = (sum16 to + unat seed) mod 65535
        \<and> (csum_diff to seed = 0 \<longleftrightarrow> sum16 to + unat seed = 0))"

section \<open>Folding\<close>

lemma unat_csum_fold_step:
  "unat (csum_fold_step c) = (if unat c < 2 ^ 16 then unat c else unat c mod 2 ^ 16 + unat c div 2 ^ 16)"
proof -
  have low: "unat (c AND 0xffff) = unat c mod 2 ^ 16"
  proof -
    have "c AND 0xffff = take_bit 16 c" by (simp add: take_bit_eq_mask mask_eq_exp_minus_1)
    then show ?thesis by (simp add: unsigned_take_bit_eq take_bit_nat_def)
  qed
  have high: "unat (drop_bit 16 c) = unat c div 2 ^ 16" by (simp add: drop_bit_eq_div unat_div)
  then have zero: "drop_bit 16 c = 0 \<longleftrightarrow> unat c < 2 ^ 16" by (simp add: unat_eq_0 [symmetric] div_eq_0_iff)
  have "unat c < 2 ^ 64" using unsigned_less [of c, where 'a = nat] by simp
  moreover have "unat c mod 2 ^ 16 + unat c div 2 ^ 16 \<le> unat c" using div_mult_mod_eq [of "unat c" "2 ^ 16"] by simp
  ultimately have "unat c mod 2 ^ 16 + unat c div 2 ^ 16 < 2 ^ 64" by linarith
  then have "unat ((c AND 0xffff) + drop_bit 16 c) = unat c mod 2 ^ 16 + unat c div 2 ^ 16"
    using low high by (simp add: unat_word_ariths)
  then show ?thesis by (simp add: csum_fold_step_def zero not_less)
qed

definition fold16 :: "nat \<Rightarrow> nat" where
  "fold16 n = (if n < 65536 then n else n mod 65536 + n div 65536)"

lemma unat_csum_folds: "unat ((csum_fold_step ^^ k) c) = (fold16 ^^ k) (unat c)"
  by (induction k) (simp_all add: unat_csum_fold_step fold16_def)

lemma fold16_eq: "fold16 n = n mod 65536 + n div 65536"
  by (simp add: fold16_def)

lemma fold16_mod: "fold16 n mod 65535 = n mod 65535"
proof -
  have "(n mod 65536 + n div 65536) mod 65535 = (n mod 65536 + n div 65536 + 65535 * (n div 65536)) mod 65535"
    by (rule mod_mult_self2 [symmetric])
  also have "n mod 65536 + n div 65536 + 65535 * (n div 65536) = n" using div_mult_mod_eq [of n 65536] by linarith
  finally show ?thesis unfolding fold16_eq .
qed

lemma fold16_pos: "0 < n \<Longrightarrow> 0 < fold16 n"
  by (auto simp: fold16_def div_greater_zero_iff)

lemma folds_mod: "(fold16 ^^ k) n mod 65535 = n mod 65535"
  by (induction k) (simp_all add: fold16_mod)

lemma folds_pos: "0 < n \<Longrightarrow> 0 < (fold16 ^^ k) n"
  by (induction k) (simp_all add: fold16_pos)

text \<open>Four rounds are enough for every 64-bit sum.\<close>

lemma fold16_bound:
  assumes "n < 65536 * q + 65535" shows "fold16 n < 65535 + q"
proof -
  have n: "n = 65536 * (n div 65536) + n mod 65536" and m: "n mod 65536 < 65536" by simp_all
  show ?thesis
  proof (cases "n div 65536 < q")
    case True
    then show ?thesis using m assms unfolding fold16_eq by linarith
  next
    case False
    then have "n div 65536 = q" using n assms by linarith
    then show ?thesis using n assms unfolding fold16_eq by linarith
  qed
qed

lemma folds_less: assumes "n < 18446744073709551616" shows "(fold16 ^^ 4) n < 65536"
proof -
  have "fold16 n < 65535 + 281474976710656" using assms by (intro fold16_bound) simp
  then have "fold16 (fold16 n) < 65535 + 4294967296" by (intro fold16_bound) simp
  then have "fold16 (fold16 (fold16 n)) < 65535 + 65536" by (intro fold16_bound) simp
  then have "fold16 (fold16 (fold16 (fold16 n))) < 65535 + 1" by (intro fold16_bound) simp
  moreover have "(4 :: nat) = Suc (Suc (Suc (Suc 0)))" by simp
  ultimately show ?thesis by (simp only: funpow.simps o_apply id_apply)
qed

lemma unat_csum_fold_helper: "unat (csum_fold_helper c) = 65535 - (fold16 ^^ 4) (unat c)"
proof -
  let ?x = "(csum_fold_step ^^ 4) c"
  have "unat ?x < 65536"
    unfolding unat_csum_folds using unsigned_less [of c, where 'a = nat] by (intro folds_less) simp
  then have "unat (ucast ?x :: u16) = unat ?x" by (simp add: unsigned_ucast_eq take_bit_nat_def)
  moreover have "unat (NOT y) = 65535 - unat y" for y :: u16
  proof -
    have "NOT y = - 1 - y" by (simp add: not_eq_complement)
    then have "unat (NOT y) = unat (- 1 :: u16) - unat y" by (simp only: unat_sub [OF word_order.extremum])
    then show ?thesis by (simp add: unsigned_minus_1_eq_mask mask_eq_exp_minus_1)
  qed
  moreover have "(ucast (NOT ?x) :: u16) = NOT (ucast ?x)" by (rule bit_word_eqI) (simp add: bit_simps)
  ultimately show ?thesis by (simp add: csum_fold_helper_def unat_csum_folds)
qed

section \<open>Sums over the header\<close>

lemma sum16_append: "even (length xs) \<Longrightarrow> sum16 (xs @ ys) = sum16 xs + sum16 ys"
  by (induction xs rule: sum16.induct) simp_all

lemma sum16_u16: "sum16 (bytes_of_word 2 (w :: u16)) = unat w"
proof -
  have "bytes_of_word 2 w = [ucast w, ucast (drop_bit 8 w)]"
    by (simp only: numeral_2_eq_2 bytes_of_word.simps)
  moreover have "unat (ucast w :: u8) = unat w mod 256" by (simp add: unsigned_ucast_eq take_bit_nat_def)
  moreover have "unat (ucast (drop_bit 8 w) :: u8) = unat w div 256"
  proof -
    have "unat w < 256 * 256" using unsigned_less [of w, where 'a = nat] by simp
    then have "unat w div 256 < 256" by (rule less_mult_imp_div_less)
    then show ?thesis by (simp add: unsigned_ucast_eq take_bit_nat_def drop_bit_eq_div unat_div)
  qed
  ultimately show ?thesis by simp
qed

text \<open>Clearing the field, summing, folding and storing gives a header that verifies.\<close>

lemma csum_valid_field:
  assumes "csum_diff_ok csum_diff" and "even (length h1)" and "0 < sum16 (h1 @ [0, 0] @ h2)"
    and "c = csum_fold_helper (csum_diff (h1 @ [0, 0] @ h2) 0)"
  shows "ip_header_ok (h1 @ bytes_of_word 2 c @ h2)"
proof -
  let ?h = "h1 @ [0, 0] @ h2"
  define f where "f = (fold16 ^^ 4) (unat (csum_diff ?h 0))"
  have cd: "unat (csum_diff ?h 0) mod 65535 = sum16 ?h mod 65535" "0 < unat (csum_diff ?h 0)"
    using assms(1,3) unfolding csum_diff_ok_def by (simp_all add: unat_gt_0 del: sum16.simps)
  have "f mod 65535 = sum16 ?h mod 65535" unfolding f_def folds_mod using cd(1) .
  moreover have f: "0 < f" "f < 65536"
    using cd(2) unsigned_less [of "csum_diff ?h 0", where 'a = nat]
    by (simp_all add: f_def folds_pos folds_less)
  moreover have c: "unat c = 65535 - f" by (simp add: assms(4) unat_csum_fold_helper f_def)
  ultimately have "(sum16 ?h + unat c) mod 65535 = (f + (65535 - f)) mod 65535"
    by (metis mod_add_left_eq)
  then have "(sum16 ?h + unat c) mod 65535 = 0" using f by simp
  moreover have "sum16 (h1 @ bytes_of_word 2 c @ h2) = sum16 ?h + unat c"
    using assms(2) by (simp add: sum16_append sum16_u16)
  ultimately show ?thesis using assms(3) by (simp add: ip_header_ok_def)
qed

section \<open>Turning a packet around\<close>

lemma swap_macs_fields:
  assumes "12 \<le> length b"
  shows "length (swap_macs b) = length b" and "mread (swap_macs b) 0 6 = mread b 6 6"
    and "mread (swap_macs b) 6 6 = mread b 0 6" and "12 \<le> off \<Longrightarrow> mread (swap_macs b) off n = mread b off n"
  using assms by (simp_all add: swap_macs_def Let_def layout_defs ETH_ALEN_def mem_simps)

lemma get32_bytes: "off + 4 \<le> length b \<Longrightarrow> bytes_of_word 4 (get32 b off) = mread b off 4"
  unfolding get32_def by (rule bytes_of_mread) simp_all

lemma swap_ips_fields:
  assumes "34 \<le> length b"
  shows "length (swap_ips b) = length b" and "mread (swap_ips b) 26 4 = mread b 30 4"
    and "mread (swap_ips b) 30 4 = mread b 26 4" and "34 \<le> off \<or> off + n \<le> 26 \<Longrightarrow> mread (swap_ips b) off n = mread b off n"
  using assms by (auto simp: swap_ips_def Let_def layout_defs put32_def get32_bytes mem_simps)

text \<open>The packet just before the checksum is computed.\<close>

lemma turned_fields:
  assumes "90 \<le> length pkt" and "b = put16 (swap_ips (swap_macs (store_ts pkt pure_payload 1 t))) off_ip_check 0"
  shows "length b = length pkt" and "mread b 0 6 = mread pkt 6 6" and "mread b 6 6 = mread pkt 0 6"
    and "mread b 26 4 = mread pkt 30 4" and "mread b 30 4 = mread pkt 26 4" and "mread b 24 2 = [0, 0]"
    and "12 \<le> off \<and> off + n \<le> 24 \<or> 34 \<le> off \<and> off + n \<le> 42 \<or> 90 \<le> off \<Longrightarrow> mread b off n = mread pkt off n"
    and "load_payload b pure_payload = (load_payload pkt pure_payload)\<lparr>ts1 := t\<rparr>"
proof -
  define c where "c = store_ts pkt pure_payload 1 t"
  have pay: "pure_payload = 42" by (simp add: pure_payload_def size_defs)
  have off: "pure_payload + payload_size \<le> length pkt" using assms(1) by (simp add: pay payload_size_def)
  have c: "length c = length pkt" "load_payload c 42 = (load_payload pkt 42)\<lparr>ts1 := t\<rparr>"
    using off by (simp_all add: c_def load_store_ts pay)
  have c_rest: "mread c k l = mread pkt k l" if "k + l \<le> 42 \<or> 90 \<le> k" for k l
    using that assms(1) off by (auto simp: c_def pay store_ts_before payload_size_def) (simp add: store_ts_def mem_simps)
  have b: "b = put16 (swap_ips (swap_macs c)) 24 0" by (simp add: assms(2) c_def off_ip_check_def)
  have len: "length (swap_macs c) = length pkt" "length (swap_ips (swap_macs c)) = length pkt"
    using assms(1) c(1) by (simp_all add: swap_macs_fields swap_ips_fields)
  note simps = b mread_puts swap_macs_fields swap_ips_fields c_rest c len
  show "length b = length pkt" "mread b 0 6 = mread pkt 6 6" "mread b 6 6 = mread pkt 0 6"
    "mread b 26 4 = mread pkt 30 4" "mread b 30 4 = mread pkt 26 4"
    using assms(1) by (simp_all add: simps)
  show "mread b 24 2 = [0, 0]" using assms(1) len by (simp add: b put16_def mem_simps numeral_2_eq_2)
  show "mread b off n = mread pkt off n"
    if "12 \<le> off \<and> off + n \<le> 24 \<or> 34 \<le> off \<and> off + n \<le> 42 \<or> 90 \<le> off"
    using that assms(1) by (elim disjE conjE) (simp_all add: simps)
  have "mread b 42 payload_size = mread c 42 payload_size" using assms(1) by (simp add: simps)
  then show "load_payload b pure_payload = (load_payload pkt pure_payload)\<lparr>ts1 := t\<rparr>"
    using c(2) load_payload_cong [of b 42 c] by (simp add: pay)
qed

lemma pure_server_fields:
  assumes acc: "pure_accepts pkt" and res: "pure_main_server csum_diff ktime pkt = (act, r)"
  shows "act = XDP_TX" and "length r = length pkt"
    and "mread r 0 6 = mread pkt 6 6" and "mread r 6 6 = mread pkt 0 6"
    and "mread r 26 4 = mread pkt 30 4" and "mread r 30 4 = mread pkt 26 4"
    and "mread r 12 2 = mread pkt 12 2" and "mread r 14 8 = mread pkt 14 8" and "mread r 22 1 = [64]"
    and "mread r 23 1 = mread pkt 23 1" and "mread r 38 2 = mread pkt 38 2"
    and "mread r 24 2 = bytes_of_word 2 (csum_fold_helper (csum_diff (mread pkt 14 10 @ [0, 0] @ mread pkt 30 4 @ mread pkt 26 4) 0))"
    and "get16 r off_udp_source = htons XDP_UDP_PORT" and "get16 r off_udp_dest = htons XDP_UDP_PORT" and "get16 r off_udp_check = 0"
    and "load_payload r pure_payload = (load_payload pkt pure_payload)\<lparr>ts1 := ktime 0, ts2 := ktime 1\<rparr>"
    and "90 \<le> off \<Longrightarrow> mread r off n = mread pkt off n"
proof -
  have pay: "pure_payload = 42" by (simp add: pure_payload_def size_defs)
  have len: "90 \<le> length pkt" using acc by (simp add: pure_accepts_def size_defs)
  define b where "b = put16 (swap_ips (swap_macs (store_ts pkt pure_payload 1 (ktime 0)))) off_ip_check 0"
  define cs where "cs = csum_fold_helper (csum_diff (mread b off_ip sizeof_iphdr) 0)"
  define d where "d = put16 (put16 (put16 (put8 (put16 b 24 cs) 22 64) 34 (htons XDP_UDP_PORT)) 36 (htons XDP_UDP_PORT)) 40 0"
  note t = turned_fields [OF len b_def]
  have ucast: "(ucast (ucast w :: u64) :: u16) = w" for w :: u16 by (rule bit_word_eqI) (auto simp: bit_simps)
  have r: "act = XDP_TX" "r = store_ts d 42 2 (ktime 1)"
    using res acc
    by (auto simp: pure_main_server_def Let_def d_def cs_def b_def ipv4_csum_def ucast pay layout_defs)
  have ld: "length d = length pkt" using len t(1) by (simp add: d_def)
  have off: "42 + payload_size \<le> length d" using len ld by (simp add: payload_size_def)
  have r_d: "mread r k l = mread d k l" if "k + l \<le> 42 \<or> 90 \<le> k" for k l
    using that len off ld by (auto simp: r(2) store_ts_before) (simp add: store_ts_def mem_simps)
  have d_b: "mread d k l = mread b k l" if "k + l \<le> 22 \<or> 23 \<le> k \<and> k + l \<le> 24 \<or> 26 \<le> k \<and> k + l \<le> 34 \<or> 38 \<le> k \<and> k + l \<le> 40 \<or> 42 \<le> k" for k l
    using that len t(1) by (elim disjE conjE) (simp_all add: d_def mread_puts)
  show "act = XDP_TX" "length r = length pkt" using r off ld by simp_all
  show "mread r 0 6 = mread pkt 6 6" "mread r 6 6 = mread pkt 0 6" "mread r 26 4 = mread pkt 30 4" "mread r 30 4 = mread pkt 26 4"
    "mread r 12 2 = mread pkt 12 2" "mread r 14 8 = mread pkt 14 8" "mread r 23 1 = mread pkt 23 1" "mread r 38 2 = mread pkt 38 2"
    by (simp_all add: r_d d_b t)
  show "mread r 22 1 = [64]" using len t(1) by (simp add: r_d d_def mread_puts) (simp add: put8_def mem_simps)
  have hdr: "mread b off_ip sizeof_iphdr = mread pkt 14 10 @ [0, 0] @ mread pkt 30 4 @ mread pkt 26 4"
    using mread_split [of 10 20 b 14] mread_split [of 2 10 b 24] mread_split [of 4 8 b 26]
    by (simp add: off_ip_def sizeof_iphdr_def t)
  show "mread r 24 2 = bytes_of_word 2 (csum_fold_helper (csum_diff (mread pkt 14 10 @ [0, 0] @ mread pkt 30 4 @ mread pkt 26 4) 0))"
    using len t(1) unfolding hdr [symmetric] cs_def [symmetric]
    by (simp add: r_d d_def mread_puts) (simp add: put16_def mem_simps)
  show "get16 r off_udp_source = htons XDP_UDP_PORT" "get16 r off_udp_dest = htons XDP_UDP_PORT" "get16 r off_udp_check = 0"
    using len t(1) by (simp_all add: get16_def layout_defs r_d d_def mread_puts get_put_same [unfolded get16_def])
  have "mread d 42 payload_size = mread b 42 payload_size" by (rule d_b) simp
  then have "load_payload d 42 = (load_payload pkt 42)\<lparr>ts1 := ktime 0\<rparr>"
    using load_payload_cong [of d 42 b] t(8) by (simp add: pay)
  then show "load_payload r pure_payload = (load_payload pkt pure_payload)\<lparr>ts1 := ktime 0, ts2 := ktime 1\<rparr>"
    using off by (simp add: r(2) pay load_store_ts)
  show "mread r off n = mread pkt off n" if "90 \<le> off" using that by (simp add: r_d d_b t)
qed

lemma mod_shift_iff:
  fixes s t v :: nat
  assumes "s + t = v + 64" and "v mod 65535 = 0" and "t < 256"
  shows "s mod 65535 = 0 \<longleftrightarrow> t = 64"
proof
  assume "s mod 65535 = 0"
  then have "(s + t) mod 65535 = t" using assms(3) mod_add_left_eq [of s 65535 t] by simp
  moreover have "(v + 64) mod 65535 = 64" using assms(2) mod_add_left_eq [of v 65535 64] by simp
  ultimately show "t = 64" using assms(1) by simp
qed (use assms in simp)

lemma mod_pred:
  assumes "a mod 65535 = b mod 65535" and "0 < b" and "0 < a"
  shows "(a - 1) mod 65535 = (b - 1) mod (65535 :: nat)"
proof -
  from assms(2,3) obtain a' b' where ab: "a = Suc a'" "b = Suc b'" by (metis gr0_implies_Suc)
  with assms(1) have "Suc a' mod 65535 = Suc b' mod 65535" by (simp only:)
  then have "a' mod 65535 = b' mod 65535" unfolding mod_Suc by (simp split: if_splits)
  with ab show ?thesis by simp
qed

text \<open>The checksum covers the time to live of the incoming packet, while the outgoing one has 64.\<close>

lemma pure_server_checksum:
  assumes acc: "pure_accepts pkt" and res: "pure_main_server csum_diff ktime pkt = (act, r)" and ok: "csum_diff_ok csum_diff"
  shows "ip_header_ok (mread r off_ip sizeof_iphdr) \<longleftrightarrow> get8 pkt off_ip_ttl = 64"
proof -
  note f = pure_server_fields [OF acc res]
  let ?p = "mread pkt 14 8" and ?x = "mread pkt 30 4 @ mread pkt 26 4" and ?t = "get8 pkt off_ip_ttl"
  have len: "90 \<le> length pkt" and proto: "get8 pkt 23 = 17"
    using acc by (simp_all add: pure_accepts_def size_defs off_ip_protocol_def IPPROTO_UDP_def)
  have one: "mread pkt k 1 = [get8 pkt k]" if "k < 90" for k
    using that len by (simp add: mread_def get8_def take_Suc hd_drop_conv_nth)
  have h10: "mread pkt 14 10 = ?p @ [?t, 17]"
    using mread_split [of 8 10 pkt 14] mread_split [of 1 2 pkt 22] one [of 22] one [of 23] proto by (simp add: off_ip_ttl_def)
  define c where "c = csum_fold_helper (csum_diff ((?p @ [?t, 17]) @ [0, 0] @ ?x) 0)"
  have even: "even (length (?p @ [?t, 17]))" "even (length ?p)" using len by simp_all
  have pos: "0 < sum16 ((?p @ [?t, 17]) @ [0, 0] @ ?x)" using even by (simp add: sum16_append)
  have v: "ip_header_ok ((?p @ [?t, 17]) @ bytes_of_word 2 c @ ?x)"
    using ok even(1) pos c_def by (rule csum_valid_field)
  have r: "mread r off_ip sizeof_iphdr = (?p @ [64, 17]) @ bytes_of_word 2 c @ ?x"
    using mread_split [of 8 20 r 14] mread_split [of 1 12 r 22] mread_split [of 1 11 r 23] mread_split [of 2 10 r 24]
      mread_split [of 4 8 r 26] one [of 23] proto f(5,6,8-10,12) h10
    by (simp add: off_ip_def sizeof_iphdr_def c_def)
  have sum: "sum16 ((?p @ [64, 17]) @ bytes_of_word 2 c @ ?x) + unat ?t
      = sum16 ((?p @ [?t, 17]) @ bytes_of_word 2 c @ ?x) + 64"
    using even(2) by (simp add: sum16_append)
  have "unat ?t < 256" using unsigned_less [of ?t, where 'a = nat] by simp
  with sum v [unfolded ip_header_ok_def, THEN conjunct2]
  have "sum16 ((?p @ [64, 17]) @ bytes_of_word 2 c @ ?x) mod 65535 = 0 \<longleftrightarrow> unat ?t = 64"
    by (rule mod_shift_iff)
  moreover have "unat ?t = 64 \<longleftrightarrow> ?t = 64" using word_unat_eq_iff [of ?t 64] by simp
  moreover have "0 < sum16 ((?p @ [64, 17]) @ bytes_of_word 2 c @ ?x)" using even(2) by (simp add: sum16_append)
  ultimately show ?thesis unfolding r ip_header_ok_def by simp
qed

section \<open>Properties\<close>

text \<open>C32: the folding loop is the one's complement fold. For every 64-bit sum, four rounds reduce it to 16 bits: the
  result is the complement of the representative of the sum modulo 65535 in the range from 1 to 65535 (of 0 for 0).\<close>

theorem csum_fold_closed_form:
  "unat (csum_fold_helper c) = (if c = 0 then 65535 else 65535 - ((unat c - 1) mod 65535 + 1))"
proof (cases "c = 0")
  case True
  have "(fold16 ^^ k) 0 = 0" for k by (induction k) (simp_all add: fold16_def)
  with True show ?thesis by (simp add: unat_csum_fold_helper)
next
  case False
  let ?f = "(fold16 ^^ 4) (unat c)"
  have c: "0 < unat c" using False by (simp add: unat_gt_0)
  then have "0 < ?f" "?f < 65536"
    using unsigned_less [of c, where 'a = nat] by (simp_all add: folds_pos folds_less)
  moreover have "(?f - 1) mod 65535 = (unat c - 1) mod 65535"
    using folds_mod c \<open>0 < ?f\<close> by (rule mod_pred)
  ultimately have "?f = (unat c - 1) mod 65535 + 1" by simp
  with False show ?thesis by (simp only: unat_csum_fold_helper if_False)
qed

text \<open>C10: the eBPF server turns a ping around. It transmits exactly the packets that are ping-pong datagrams: the reply has the
  same length, the Ethernet and IP addresses exchanged, both ports set, no UDP checksum, the payload with the two
  server timestamps, and everything behind the payload unchanged. The header checksum it carries is right if and only
  if the ping arrived with a time to live of 64, because the field is overwritten after the checksum is computed.
  Every other packet is passed on untouched.\<close>

theorem pure_server_turns_around:
  assumes "csum_diff_ok csum_diff" and "pure_main_server csum_diff ktime pkt = (act, r)"
  shows "if pure_accepts pkt then
      act = XDP_TX \<and> length r = length pkt
      \<and> mread r off_h_dest ETH_ALEN = mread pkt off_h_source ETH_ALEN \<and> mread r off_h_source ETH_ALEN = mread pkt off_h_dest ETH_ALEN
      \<and> get32 r off_ip_saddr = get32 pkt off_ip_daddr \<and> get32 r off_ip_daddr = get32 pkt off_ip_saddr
      \<and> get16 r off_udp_source = htons XDP_UDP_PORT \<and> get16 r off_udp_dest = htons XDP_UDP_PORT \<and> get16 r off_udp_check = 0
      \<and> load_payload r pure_payload = (load_payload pkt pure_payload)\<lparr>ts1 := ktime 0, ts2 := ktime 1\<rparr>
      \<and> mread r 90 (length pkt - 90) = mread pkt 90 (length pkt - 90)
      \<and> (ip_header_ok (mread r off_ip sizeof_iphdr) \<longleftrightarrow> get8 pkt off_ip_ttl = 64)
    else act = XDP_PASS \<and> r = pkt"
proof (cases "pure_accepts pkt")
  case True
  note f = pure_server_fields [OF True assms(2)]
  with True pure_server_checksum [OF True assms(2,1)] show ?thesis
    by (simp add: get32_def layout_defs ETH_ALEN_def)
next
  case False
  then show ?thesis using assms(2) by (simp add: pure_main_server_def)
qed

text \<open>A checksum routine as the kernel documents it, and a ping, for the witnesses.\<close>

definition ref_csum_diff :: "bytes \<Rightarrow> u64 \<Rightarrow> u64" where
  "ref_csum_diff to seed = (let s = sum16 to + unat seed in of_nat (if s = 0 then 0 else (s - 1) mod 65535 + 1))"

lemma ref_csum_diff_ok: "csum_diff_ok ref_csum_diff"
  unfolding csum_diff_ok_def
proof (intro allI)
  fix to :: bytes and seed :: u64
  define s where "s = sum16 to + unat seed"
  define v where "v = (if s = 0 then 0 else (s - 1) mod 65535 + 1)"
  have v: "v \<le> 65535" "v = 0 \<longleftrightarrow> s = 0"
    using pos_mod_bound [of 65535 "int (s - 1)"] by (auto simp: v_def less_eq_Suc_le [symmetric])
  have "v mod 65535 = s mod 65535" by (cases s) (simp_all add: v_def mod_Suc_eq)
  moreover have "unat (of_nat v :: u64) = v" using v(1) by (simp add: unat_of_nat)
  ultimately show "unat (ref_csum_diff to seed) < 2 ^ 32 \<and> unat (ref_csum_diff to seed) mod 65535 = (sum16 to + unat seed) mod 65535
      \<and> (ref_csum_diff to seed = 0 \<longleftrightarrow> sum16 to + unat seed = 0)"
    using v by (simp add: ref_csum_diff_def Let_def s_def [symmetric] v_def [symmetric] unat_eq_0 [symmetric])
qed

definition demo_ping :: "u64 \<Rightarrow> bytes" where
  "demo_ping i = store_payload (put16 (put8 (put8 (put16 (replicate 90 0) 12 (htons ETH_P_IP)) 22 64) 23 IPPROTO_UDP) 36 (htons XDP_UDP_PORT))
     42 (new_pingpong_payload i)"

lemma demo_ping_accepted: "pure_accepts (demo_ping i)" "get8 (demo_ping i) 22 = 64" "load_payload (demo_ping i) 42 = new_pingpong_payload i"
  by (simp_all add: demo_ping_def pure_accepts_def pure_payload_def size_defs layout_defs get16_def get8_mread mem_simps
      get_put_same [unfolded get16_def]) (simp_all add: put8_def mem_simps)

theorem pure_server_turns_around_witness:
  "fst (pure_main_server ref_csum_diff (\<lambda>n. 100 + of_nat n) (demo_ping 5)) = XDP_TX
   \<and> ip_header_ok (mread (snd (pure_main_server ref_csum_diff (\<lambda>n. 100 + of_nat n) (demo_ping 5))) off_ip sizeof_iphdr)"
  using pure_server_turns_around [OF ref_csum_diff_ok, of "\<lambda>n. 100 + of_nat n" "demo_ping 5"] demo_ping_accepted
  by (cases "pure_main_server ref_csum_diff (\<lambda>n. 100 + of_nat n) (demo_ping 5)") (simp add: off_ip_ttl_def)

text \<open>C31: the round trip through the two eBPF programs. The reply of the server is accepted by the client's program,
  which passes it to the socket with all three remote timestamps in place and the identifier and the sending time of
  the ping untouched.\<close>

theorem pure_round_trip:
  assumes "pure_accepts pkt" and "pure_main_server csum_diff kserver pkt = (act, r)" and "pure_main_client kclient r = (act', q)"
  shows "act = XDP_TX \<and> act' = XDP_PASS \<and> length q = length pkt
    \<and> load_payload q pure_payload = (load_payload pkt pure_payload)\<lparr>ts1 := kserver 0, ts2 := kserver 1, ts3 := kclient 0\<rparr>"
proof -
  note f = pure_server_fields [OF assms(1,2)]
  have len: "90 \<le> length r" using assms(1) f(2) by (simp add: pure_accepts_def size_defs)
  have "get16 r off_h_proto = get16 pkt off_h_proto" "get8 r off_ip_protocol = get8 pkt off_ip_protocol"
    using f(7,10) len f(2) by (simp_all add: get16_def layout_defs get8_mread)
  then have "pure_accepts r"
    using assms(1) f(2,14,16) by (simp add: pure_accepts_def valid_pingpong_payload_def)
  then have "act' = XDP_PASS" "q = store_ts r pure_payload 3 (kclient 0)" using assms(3) by (simp_all add: pure_main_client_def)
  moreover have "pure_payload + payload_size \<le> length r" using len by (simp add: pure_payload_def size_defs)
  ultimately show ?thesis using f(1,2,16) by (simp add: load_store_ts)
qed

theorem pure_round_trip_witness:
  "load_payload (snd (pure_main_client (\<lambda>_. 30) (snd (pure_main_server ref_csum_diff (\<lambda>n. 10 + of_nat n) (demo_ping 5))))) pure_payload
   = (new_pingpong_payload 5)\<lparr>ts1 := 10, ts2 := 11, ts3 := 30\<rparr>"
  using pure_round_trip [OF demo_ping_accepted(1) prod.collapse [symmetric] prod.collapse [symmetric],
      where csum_diff = ref_csum_diff and kserver = "\<lambda>n. 10 + of_nat n" and kclient = "\<lambda>_. 30"] demo_ping_accepted(3) [of 5]
  by (simp add: pure_payload_def size_defs)

end
