(* ===== verification/Pp_Pure.thy ===== *)
theory Pp_Pure
  imports Net Persistence Xdp_Pure
begin

text \<open>
  The user-space client of the variant that stamps packets inside the driver (\<^verbatim>\<open>xdp/pp_pure.c\<close>). The client sends
  its pings from an ordinary UDP socket through the sender thread and records every datagram its socket receives;
  all timestamps but the first are already in the payload. The loop that receives consumes the list of the results of
  \<^verbatim>\<open>recvfrom\<close> (\<open>None\<close> is a failing call); it waits when the list is at its end.
\<close>

section \<open>Definitions\<close>

definition pure_send_packet :: "'a send_packet_t" where
  "pure_send_packet buf packet_id w =
     (let b = store_payload buf 0 (new_pingpong_payload packet_id);
          t = get_time_ns w;
          b = store_ts b 0 0 (fst t);
          r = sys_sendto (take PACKET_SIZE b) (snd t)
      in (if fst r < 0 then - 1 else 0, b, snd r))"

text \<open>The result of \<^verbatim>\<open>send_packets\<close> and the data of the thread, if it was started.\<close>

definition send_packets ::
  "bool \<Rightarrow> bool \<Rightarrow> int \<Rightarrow> int \<Rightarrow> sockaddr_ll \<Rightarrow> u64 \<Rightarrow> u64 \<Rightarrow> int \<times> sender_data option" where
  "send_packets malloc_packet malloc_data pthread_create send_sock server_addr iters interval =
     (if \<not> malloc_packet then (- 1, None)
      else
        let packet = replicate PACKET_SIZE 0;
            r = start_sending_packets malloc_data pthread_create iters interval (Some packet) (Some server_addr)
        in (send_sock, snd r))"

datatype recv_status = R_Finished | R_Failed | R_Waiting | R_Undef

text \<open>\<^verbatim>\<open>receive_packets\<close> from the point where \<^verbatim>\<open>curr_iter\<close> and the buffer have the given values: how it ends, the agent and
  the payloads written.\<close>

fun receive_packets ::
  "u64 \<Rightarrow> u64 \<Rightarrow> bytes \<Rightarrow> persistence_agent \<Rightarrow> bytes option list \<Rightarrow> recv_status \<times> persistence_agent \<times> pingpong_payload list" where
  "receive_packets iters curr_iter packet ag [] =
     (if \<not> curr_iter < iters then (R_Finished, ag, []) else (R_Waiting, ag, []))"
| "receive_packets iters curr_iter packet ag (r # rs) =
     (if \<not> curr_iter < iters then (R_Finished, ag, [])
      else
        case r of
          None \<Rightarrow> (R_Failed, ag, [])
        | Some d \<Rightarrow>
            let packet = recv_at packet d; payload = load_payload packet 0 in
            (case agent_write ag payload of
               None \<Rightarrow> (R_Undef, ag, [])
             | Some (_, ag') \<Rightarrow>
                 (case receive_packets iters (max curr_iter (pp_id payload)) packet ag' rs of
                    (st, ag'', ps) \<Rightarrow> (st, ag'', payload # ps))))"

record pure_env =
  pe_socket :: int
  pe_bind :: int
  pe_malloc_packet :: bool
  pe_malloc_data :: bool
  pe_pthread_create :: int

text \<open>\<^verbatim>\<open>start_client\<close>: the thread that was started, how the receiving loop ended, the payloads written and what closing the
  agent returned; \<open>None\<close> for an early return. When the loop waits, the function has not returned yet.\<close>

definition pure_start_client ::
  "pure_env \<Rightarrow> sockaddr_ll \<Rightarrow> u64 \<Rightarrow> u64 \<Rightarrow> persistence_agent \<Rightarrow> bytes option list \<Rightarrow>
   (sender_data option \<times> recv_status \<times> pingpong_payload list \<times> (int \<times> cfile option \<times> bool) option) option" where
  "pure_start_client env server_addr iters interval ag rs =
     (if pe_socket env < 0 then None
      else if pe_bind env < 0 then None
      else
        let d = send_packets (pe_malloc_packet env) (pe_malloc_data env) (pe_pthread_create env) (pe_socket env) server_addr iters interval
        in case receive_packets iters 0 (replicate PACKET_SIZE 0) ag rs of
             (st, ag', ps) \<Rightarrow>
               Some (snd d, st, ps, if st = R_Finished \<or> st = R_Failed then agent_close ag' else None))"

text \<open>The payloads that the successive buffers hold, up to the first failing call.\<close>

fun payloads_seen :: "bytes \<Rightarrow> bytes option list \<Rightarrow> pingpong_payload list" where
  "payloads_seen packet [] = []"
| "payloads_seen packet (r # rs) =
     (case r of None \<Rightarrow> [] | Some d \<Rightarrow> load_payload (recv_at packet d) 0 # payloads_seen (recv_at packet d) rs)"

text \<open>A list up to the first element that satisfies \<open>P\<close>, that one included.\<close>

fun take_until :: "('a \<Rightarrow> bool) \<Rightarrow> 'a list \<Rightarrow> 'a list" where
  "take_until P [] = []"
| "take_until P (x # xs) = (if P x then [x] else x # take_until P xs)"

section \<open>Sending\<close>

interpretation pure_sender: packet_sender pure_send_packet "\<lambda>b. length b = PACKET_SIZE" "\<lambda>p. pp_id (load_payload p 0)"
proof unfold_locales
  fix buf :: bytes and w :: "'a world_scheme" and i
  assume *: "length buf = PACKET_SIZE" "link_up w" "clock_advances w"
  define b where "b = store_ts (store_payload buf 0 (new_pingpong_payload i)) 0 0 (reading w (nread w))"
  have off: "0 + payload_size \<le> length buf" using *(1) by (simp add: payload_size_def PACKET_SIZE_def)
  have len: "length b = PACKET_SIZE" using off *(1) by (simp add: b_def)
  have "load_payload b 0 = (new_pingpong_payload i)\<lparr>ts0 := reading w (nread w)\<rparr>"
    using off by (simp add: b_def load_store_ts load_store_payload)
  moreover have "\<not> send_ret w (nsend w) < 0" using *(2) by (simp add: link_up_def not_less)
  ultimately show "\<exists>r buf' w' pkt. pure_send_packet buf i w = (r, buf', w') \<and> 0 \<le> r \<and> length buf' = PACKET_SIZE
      \<and> sent w' = sent w @ [pkt] \<and> pp_id (load_payload pkt 0) = i \<and> link_up w' \<and> clock_advances w'"
    using *(2,3) len by (simp add: pure_send_packet_def Let_def get_time_ns_eq sys_sendto_def b_def [symmetric])
qed

section \<open>Receiving\<close>

lemma agent_total_write:
  assumes "agent_total ag"
  obtains rc ag' where "agent_write ag p = Some (rc, ag')" "agent_total ag'"
proof -
  obtain rc ag' where w: "agent_write ag p = Some (rc, ag')"
    using agent_total_next [OF assms, of "[]" ag p] by auto
  moreover have "agent_total ag'"
    unfolding agent_total_def
  proof
    fix ps
    have "agent_writes ag (p # ps) \<noteq> None" using assms unfolding agent_total_def by blast
    then show "agent_writes ag' ps \<noteq> None" using w by simp
  qed
  ultimately show thesis by (rule that)
qed

lemma receive_packets_spec:
  assumes "agent_total ag" and "cur < iters" and "receive_packets iters cur packet ag rs = (st, ag', ps)"
  shows "ps = take_until (\<lambda>p. iters \<le> pp_id p) (payloads_seen packet rs) \<and> agent_writes ag ps = Some ag'
    \<and> st = (if \<exists>p\<in>set (payloads_seen packet rs). iters \<le> pp_id p then R_Finished else if None \<in> set rs then R_Failed else R_Waiting)"
  using assms
proof (induction rs arbitrary: ag cur packet st ag' ps)
  case Nil
  then show ?case by simp
next
  case (Cons r rs)
  show ?case
  proof (cases r)
    case None
    with Cons.prems show ?thesis by auto
  next
    case (Some d)
    let ?b = "recv_at packet d"
    let ?p = "load_payload ?b 0"
    obtain rc ag1 where w: "agent_write ag ?p = Some (rc, ag1)" "agent_total ag1"
      using Cons.prems(1) by (rule agent_total_write)
    obtain st1 ag2 ps1 where r: "receive_packets iters (max cur (pp_id ?p)) ?b ag1 rs = (st1, ag2, ps1)"
      by (metis prod_cases3)
    have res: "st = st1" "ag' = ag2" "ps = ?p # ps1" using Cons.prems(2,3) Some w(1) r by auto
    show ?thesis
    proof (cases "iters \<le> pp_id ?p")
      case True
      then have "\<not> max cur (pp_id ?p) < iters" by (auto simp: max_def not_less)
      then have "st1 = R_Finished" "ag2 = ag1" "ps1 = []" using r by (cases rs; simp)+
      with True Some w res show ?thesis by simp
    next
      case False
      then have "max cur (pp_id ?p) < iters" using Cons.prems(2) by (simp add: not_le)
      from Cons.IH [OF w(2) this r] False Some w(1) res show ?thesis by (elim conjE) (intro conjI, simp_all)
    qed
  qed
qed

section \<open>Properties\<close>

text \<open>the receiving loop records exactly what arrived. It writes the payloads of the received datagrams, once each and in
  order, up to and including the first whose identifier reaches the number of packets; it returns exactly when there is
  such a payload or a call fails, and otherwise waits for more.\<close>

theorem pure_client_records:
  assumes "agent_total ag" and "0 < iters" and "receive_packets iters 0 (replicate PACKET_SIZE 0) ag rs = (st, ag', ps)"
  shows "ps = take_until (\<lambda>p. iters \<le> pp_id p) (payloads_seen (replicate PACKET_SIZE 0) rs) \<and> agent_writes ag ps = Some ag'
    \<and> st = (if \<exists>p\<in>set (payloads_seen (replicate PACKET_SIZE 0) rs). iters \<le> pp_id p then R_Finished
            else if None \<in> set rs then R_Failed else R_Waiting)"
  using assms by (rule receive_packets_spec)

definition demo_pong :: "u64 \<Rightarrow> bytes" where
  "demo_pong i = store_payload (replicate 1024 0) 0 (new_pingpong_payload i)"

lemma demo_pong: "length (demo_pong i) = PACKET_SIZE" "load_payload (demo_pong i) 0 = new_pingpong_payload i"
  by (simp_all add: demo_pong_def payload_size_def PACKET_SIZE_def load_store_payload)

theorem pure_client_records_witness:
  "let r = receive_packets 2 0 (replicate PACKET_SIZE 0) (demo_agent 4 0) [Some (demo_pong 1), Some (demo_pong 3), None] in
   fst r = R_Finished \<and> snd (snd r) = [new_pingpong_payload 1, new_pingpong_payload 3]"
proof -
  let ?rs = "[Some (demo_pong 1), Some (demo_pong 3), None]"
  obtain st ag ps where r: "receive_packets 2 0 (replicate PACKET_SIZE 0) (demo_agent 4 0) ?rs = (st, ag, ps)"
    by (metis prod_cases3)
  have seen: "payloads_seen (replicate PACKET_SIZE 0) ?rs = [new_pingpong_payload 1, new_pingpong_payload 3]"
    by (simp add: recv_at_full demo_pong)
  have "\<not> (2 :: u64) \<le> 1" by (simp add: word_le_nat_alt)
  then show ?thesis using pure_client_records [OF demo_agent_total _ r, unfolded seen] unfolding r by simp
qed

end
