(* ===== verification/Xsk.thy ===== *)
theory Xsk
  imports Net Persistence Xdp_Pure Xdp_Ring "HOL-Library.Multiset"
begin

text \<open>
  The AF_XDP program: the eBPF filter \<^verbatim>\<open>xdp/pingpong_xsk.c\<close> and the user-space side \<^verbatim>\<open>xdp/pp_sock.c\<close>, in its server and its client build.

  The packet memory is divided into 4096 frames. User space and the kernel pass frames to each other through four rings: the
  fill ring (empty frames for packets to come), the receive ring, the transmit ring and the completion ring; the free frames are
  a stack. \<open>frame_of\<close> is the frame an address lies in; the kernel may add an offset to the address it returns.

  The ring functions of libxdp are parameters, collected in \<open>xsk_lib\<close>; the first argument is the number of library calls made so far, so
  that a function may answer differently each time, the second the state of the ring. \<open>xsk_lib_ok\<close> is what the documentation
  promises: a reservation gives all or nothing, the count of free entries is never too high, and a peek returns at most what is
  there and at most what is asked for. What the kernel does on its own are steps of the machine. The counters \<^verbatim>\<open>umem_frame_free\<close> and
  \<^verbatim>\<open>outstanding_tx\<close> are natural numbers here: the invariant bounds both by the number of frames, so that the 32-bit variables of the
  program never wrap.
\<close>

section \<open>Definitions\<close>

definition NUM_FRAMES :: nat where "NUM_FRAMES = 4096"
definition FRAME_SIZE :: nat where "FRAME_SIZE = 4096"
definition RX_BATCH_SIZE :: nat where "RX_BATCH_SIZE = 64"
definition INVALID_UMEM_FRAME :: u64 where "INVALID_UMEM_FRAME = - 1"

text \<open>The default number of descriptors of a ring in libxdp.\<close>

definition DEFAULT_NUM_DESCS :: nat where "DEFAULT_NUM_DESCS = 2048"

subsection \<open>The eBPF filter\<close>

text \<open>\<open>redirect\<close> is what \<^verbatim>\<open>bpf_redirect_map\<close> returns: the redirection, or the given fallback when no socket is registered.\<close>

definition xdp_xsk :: "(xdp_action \<Rightarrow> xdp_action) \<Rightarrow> bytes \<Rightarrow> xdp_action" where
  "xdp_xsk redirect pkt =
     (if sizeof_ethhdr + sizeof_iphdr + payload_size > length pkt then XDP_PASS
      else if get16 pkt off_h_proto \<noteq> htons ETH_P_PINGPONG then XDP_PASS
      else if magic (load_payload pkt (sizeof_ethhdr + sizeof_iphdr)) \<noteq> PINGPONG_MAGIC then XDP_PASS
      else redirect XDP_DROP)"

subsection \<open>State\<close>

record xsk_lib =
  l_reserve :: "nat \<Rightarrow> nat \<Rightarrow> nat \<Rightarrow> nat"
  l_nb_free :: "nat \<Rightarrow> nat \<Rightarrow> nat \<Rightarrow> nat"
  l_peek :: "nat \<Rightarrow> nat \<Rightarrow> nat \<Rightarrow> nat"

definition xsk_lib_ok :: "xsk_lib \<Rightarrow> bool" where
  "xsk_lib_ok lib \<longleftrightarrow>
     (\<forall>k f n. l_reserve lib k f n = (if n \<le> f then n else 0)) \<and> (\<forall>k f n. l_nb_free lib k f n \<le> f)
     \<and> (\<forall>k a n. l_peek lib k a n \<le> a \<and> l_peek lib k a n \<le> n)"

record xsk = world +
  umem_frame_addr :: "u64 list"
  umem_frame_free :: nat
  outstanding_tx :: nat
  fq :: "u64 list"
  krx :: "u64 list"
  rx :: "(u64 \<times> nat) list"
  tx :: "(u64 \<times> nat) list"
  ktx :: "u64 list"
  cqr :: "u64 list"
  frames :: "nat \<Rightarrow> bytes"
  leaked :: "u64 list"
  x_exit :: bool
  calls :: nat
  x_agent :: "persistence_agent option"
  x_got :: "pingpong_payload list"
  x_wrote :: "pingpong_payload list"

definition frame_of :: "u64 \<Rightarrow> nat" where
  "frame_of a = unat a div FRAME_SIZE"

subsection \<open>Frames\<close>

definition xsk_alloc_umem_frame :: "xsk \<Rightarrow> u64 \<times> xsk" where
  "xsk_alloc_umem_frame s =
     (if umem_frame_free s = 0 then (INVALID_UMEM_FRAME, s)
      else
        let n = umem_frame_free s - 1; frame = umem_frame_addr s ! n in
        (frame, s\<lparr>umem_frame_free := n, umem_frame_addr := (umem_frame_addr s)[n := INVALID_UMEM_FRAME]\<rparr>))"

text \<open>\<open>None\<close> is a failing assertion.\<close>

definition xsk_free_umem_frame :: "u64 \<Rightarrow> xsk \<Rightarrow> xsk option" where
  "xsk_free_umem_frame frame s =
     (if umem_frame_free s < NUM_FRAMES
      then Some (s\<lparr>umem_frame_addr := (umem_frame_addr s)[umem_frame_free s := frame], umem_frame_free := umem_frame_free s + 1\<rparr>)
      else None)"

fun fill_frames :: "nat \<Rightarrow> xsk \<Rightarrow> xsk" where
  "fill_frames 0 s = s"
| "fill_frames (Suc n) s = (case xsk_alloc_umem_frame s of (frame, s) \<Rightarrow> fill_frames n (s\<lparr>fq := fq s @ [frame]\<rparr>))"

fun free_frames :: "u64 list \<Rightarrow> xsk \<Rightarrow> xsk option" where
  "free_frames [] s = Some s"
| "free_frames (a # as) s = (case xsk_free_umem_frame a s of None \<Rightarrow> None | Some s \<Rightarrow> free_frames as s)"

text \<open>The part of \<^verbatim>\<open>xsk_configure_socket\<close> after the socket was created, on a zeroed struct with empty rings.\<close>

definition xsk_configure_socket :: "xsk_lib \<Rightarrow> xsk \<Rightarrow> xsk option" where
  "xsk_configure_socket lib s =
     (let s = s\<lparr>umem_frame_addr := map (\<lambda>i. of_nat (i * FRAME_SIZE)) [0..<NUM_FRAMES], umem_frame_free := NUM_FRAMES\<rparr>;
          ret = l_reserve lib (calls s) (DEFAULT_NUM_DESCS - length (fq s)) DEFAULT_NUM_DESCS;
          s = s\<lparr>calls := calls s + 1\<rparr>
      in if ret \<noteq> DEFAULT_NUM_DESCS then None else Some (fill_frames DEFAULT_NUM_DESCS s))"

subsection \<open>Sending\<close>

definition complete_tx :: "xsk_lib \<Rightarrow> xsk \<Rightarrow> xsk option" where
  "complete_tx lib s =
     (if outstanding_tx s = 0 then Some s
      else
        let completed = l_peek lib (calls s) (length (cqr s)) DEFAULT_NUM_DESCS; s = s\<lparr>calls := calls s + 1\<rparr> in
        if 0 < completed then
          (case free_frames (take completed (cqr s)) s of
             None \<Rightarrow> None
           | Some s \<Rightarrow> Some (s\<lparr>cqr := drop completed (cqr s), outstanding_tx := outstanding_tx s - min completed (outstanding_tx s)\<rparr>))
        else Some s)"

datatype send_source = Umem_frame u64 | User_buffer bytes

text \<open>\<open>None\<close> is the copy outside the packet memory: to \<^verbatim>\<open>INVALID_UMEM_FRAME\<close>, the answer when no frame is free.\<close>

definition place_packet :: "send_source \<Rightarrow> nat \<Rightarrow> xsk \<Rightarrow> (u64 \<times> xsk) option" where
  "place_packet src len s =
     (case src of
        Umem_frame a \<Rightarrow> Some (a, s)
      | User_buffer d \<Rightarrow>
          (case xsk_alloc_umem_frame s of
             (a, s) \<Rightarrow> if a = INVALID_UMEM_FRAME then None else Some (a, s\<lparr>frames := (frames s)(frame_of a := take len d)\<rparr>)))"

definition xsk_send_packet :: "xsk_lib \<Rightarrow> send_source \<Rightarrow> nat \<Rightarrow> bool \<Rightarrow> xsk \<Rightarrow> (int \<times> xsk) option" where
  "xsk_send_packet lib src len complete s =
     (let ret = l_reserve lib (calls s) (DEFAULT_NUM_DESCS - length (tx s)) 1; s = s\<lparr>calls := calls s + 1\<rparr> in
      if ret \<noteq> 1 then Some (- 1, s)
      else
        (case place_packet src len s of
           None \<Rightarrow> None
         | Some (a, s) \<Rightarrow>
             let s = s\<lparr>tx := tx s @ [(a, len)], outstanding_tx := outstanding_tx s + 1\<rparr> in
             if complete then map_option (Pair 0) (complete_tx lib s) else Some (0, s)))"

definition client_send_pp_packet :: "xsk_lib \<Rightarrow> bytes \<Rightarrow> u64 \<Rightarrow> xsk \<Rightarrow> (int \<times> bytes \<times> xsk) option" where
  "client_send_pp_packet lib buf packet_id s =
     (let b = put16 buf off_ip_id (htons (ucast packet_id));
          b = store_payload b packet_payload (new_pingpong_payload packet_id);
          t = get_time_ns s;
          b = store_ts b packet_payload 0 (fst t)
      in case xsk_send_packet lib (User_buffer b) PACKET_SIZE True (snd t) of
           None \<Rightarrow> None
         | Some (ret, s) \<Rightarrow> Some (if ret \<noteq> 0 then - 1 else 0, b, s))"

subsection \<open>Receiving\<close>

definition xsk_accepts :: "bytes \<Rightarrow> nat \<Rightarrow> bool" where
  "xsk_accepts pkt len \<longleftrightarrow> \<not> len < sizeof_ethhdr + sizeof_iphdr + payload_size \<and> \<not> get16 pkt off_h_proto \<noteq> htons ETH_P_PINGPONG"

text \<open>\<^verbatim>\<open>process_packet\<close>: whether the frame is kept. The record \<open>leaked\<close> holds the frames that are kept although their packet could not be
  queued.\<close>

definition turn_around :: "u64 \<Rightarrow> u64 \<Rightarrow> bytes \<Rightarrow> bytes" where
  "turn_around t1 t2 pkt = store_ts (swap_ips (swap_macs (store_ts pkt packet_payload 1 t1))) packet_payload 2 t2"

definition process_packet_server :: "xsk_lib \<Rightarrow> u64 \<Rightarrow> u64 \<Rightarrow> nat \<Rightarrow> xsk \<Rightarrow> (bool \<times> xsk) option" where
  "process_packet_server lib iters addr len s =
     (let t = get_time_ns s; s = snd t; pkt = frames s (frame_of addr) in
      if \<not> xsk_accepts pkt len then Some (False, s)
      else
        let p = load_payload pkt packet_payload;
            s = s\<lparr>x_exit := (x_exit s \<or> iters \<le> pp_id p), x_got := x_got s @ [p]\<rparr>;
            t2 = get_time_ns s;
            s = (snd t2)\<lparr>frames := (frames s)(frame_of addr := turn_around (fst t) (fst t2) pkt)\<rparr>
        in (case xsk_send_packet lib (Umem_frame addr) len False s of
              None \<Rightarrow> None
            | Some (ret, s) \<Rightarrow> Some (True, if ret \<noteq> 0 then s\<lparr>leaked := leaked s @ [addr]\<rparr> else s)))"

definition process_packet_client :: "u64 \<Rightarrow> u64 \<Rightarrow> nat \<Rightarrow> xsk \<Rightarrow> (bool \<times> xsk) option" where
  "process_packet_client iters addr len s =
     (let t = get_time_ns s; s = snd t; pkt = frames s (frame_of addr) in
      if \<not> xsk_accepts pkt len then Some (False, s)
      else
        let p = load_payload pkt packet_payload;
            b = store_ts pkt packet_payload 3 (fst t);
            q = load_payload b packet_payload;
            s = s\<lparr>x_exit := (x_exit s \<or> iters \<le> pp_id p), x_got := x_got s @ [p], frames := (frames s)(frame_of addr := b)\<rparr>
        in (case Option.bind (x_agent s) (\<lambda>ag. agent_write ag q) of
              None \<Rightarrow> None
            | Some (_, ag) \<Rightarrow> Some (False, s\<lparr>x_agent := Some ag, x_wrote := x_wrote s @ [q]\<rparr>)))"

fun process_all :: "(u64 \<Rightarrow> nat \<Rightarrow> xsk \<Rightarrow> (bool \<times> xsk) option) \<Rightarrow> (u64 \<times> nat) list \<Rightarrow> xsk \<Rightarrow> xsk option" where
  "process_all process [] s = Some s"
| "process_all process ((addr, len) # ds) s =
     (case process addr len s of
        None \<Rightarrow> None
      | Some (keep, s) \<Rightarrow>
          if keep then process_all process ds s
          else (case xsk_free_umem_frame addr s of None \<Rightarrow> None | Some s \<Rightarrow> process_all process ds s))"

text \<open>The retry loop around the reservation; \<open>None\<close> if it never ends.\<close>

partial_function (option) wait_reserve :: "xsk_lib \<Rightarrow> nat \<Rightarrow> nat \<Rightarrow> nat \<Rightarrow> xsk \<Rightarrow> xsk option" where
  "wait_reserve lib stock rcvd ret s =
     (if ret = stock then Some s
      else wait_reserve lib stock rcvd (l_reserve lib (calls s) (DEFAULT_NUM_DESCS - length (fq s)) rcvd) (s\<lparr>calls := calls s + 1\<rparr>))"

definition stock_fill_ring :: "xsk_lib \<Rightarrow> nat \<Rightarrow> xsk \<Rightarrow> xsk option" where
  "stock_fill_ring lib rcvd s =
     (let stock_frames = l_nb_free lib (calls s) (DEFAULT_NUM_DESCS - length (fq s)) (umem_frame_free s);
          s = s\<lparr>calls := calls s + 1\<rparr>
      in if 0 < stock_frames then
           let ret = l_reserve lib (calls s) (DEFAULT_NUM_DESCS - length (fq s)) stock_frames; s = s\<lparr>calls := calls s + 1\<rparr> in
           map_option (fill_frames stock_frames) (wait_reserve lib stock_frames rcvd ret s)
         else Some s)"

definition handle_receive_packets ::
  "xsk_lib \<Rightarrow> (u64 \<Rightarrow> nat \<Rightarrow> xsk \<Rightarrow> (bool \<times> xsk) option) \<Rightarrow> xsk \<Rightarrow> xsk option" where
  "handle_receive_packets lib process s =
     (let rcvd = l_peek lib (calls s) (length (rx s)) RX_BATCH_SIZE; s = s\<lparr>calls := calls s + 1\<rparr> in
      if rcvd = 0 then Some s
      else
        (case stock_fill_ring lib rcvd s of
           None \<Rightarrow> None
         | Some s \<Rightarrow>
             (case process_all process (take rcvd (rx s)) s of
                None \<Rightarrow> None
              | Some s \<Rightarrow> complete_tx lib (s\<lparr>rx := drop rcvd (rx s)\<rparr>))))"

subsection \<open>The machine\<close>

text \<open>One round of \<^verbatim>\<open>rx_and_process\<close>, a call of the sender thread (in the client, under the lock that makes both atomic), the signal handler, and the
  kernel: it takes frames from the fill ring (and drops an entry that is not the address of a frame), puts received packets on the
  receive ring, takes packets from the transmit ring to the wire and completes them.\<close>

inductive xsk_step ::
  "xsk_lib \<Rightarrow> (u64 \<Rightarrow> nat \<Rightarrow> xsk \<Rightarrow> (bool \<times> xsk) option) \<Rightarrow> (xsk \<Rightarrow> xsk option) set \<Rightarrow> xsk \<Rightarrow> xsk \<Rightarrow> bool"
  for lib process senders where
  x_main: "\<not> x_exit s \<Longrightarrow> handle_receive_packets lib process s = Some s' \<Longrightarrow> xsk_step lib process senders s s'"
| x_send: "f \<in> senders \<Longrightarrow> f s = Some s' \<Longrightarrow> xsk_step lib process senders s s'"
| x_interrupt: "xsk_step lib process senders s (s\<lparr>x_exit := True\<rparr>)"
| k_take: "fq s = a # r \<Longrightarrow> frame_of a < NUM_FRAMES \<Longrightarrow> xsk_step lib process senders s (s\<lparr>fq := r, krx := krx s @ [a]\<rparr>)"
| k_drop: "fq s = a # r \<Longrightarrow> \<not> frame_of a < NUM_FRAMES \<Longrightarrow> xsk_step lib process senders s (s\<lparr>fq := r\<rparr>)"
| k_recv: "krx s = a # r \<Longrightarrow> frame_of b = frame_of a \<Longrightarrow> length d \<le> FRAME_SIZE \<Longrightarrow>
    xsk_step lib process senders s (s\<lparr>krx := r, frames := (frames s)(frame_of a := d), rx := rx s @ [(b, length d)]\<rparr>)"
| k_xmit: "tx s = (a, len) # r \<Longrightarrow>
    xsk_step lib process senders s (s\<lparr>tx := r, ktx := ktx s @ [a], sent := sent s @ [take len (frames s (frame_of a))]\<rparr>)"
| k_done: "ktx s = a # r \<Longrightarrow> frame_of b = frame_of a \<Longrightarrow> xsk_step lib process senders s (s\<lparr>ktx := r, cqr := cqr s @ [b]\<rparr>)"

definition xsk_server_step :: "xsk_lib \<Rightarrow> u64 \<Rightarrow> xsk \<Rightarrow> xsk \<Rightarrow> bool" where
  "xsk_server_step lib iters = xsk_step lib (process_packet_server lib iters) {}"

definition xsk_client_step :: "xsk_lib \<Rightarrow> u64 \<Rightarrow> xsk \<Rightarrow> xsk \<Rightarrow> bool" where
  "xsk_client_step lib iters =
     xsk_step lib (process_packet_client iters) {\<lambda>s. map_option (\<lambda>(r, b, s). s) (client_send_pp_packet lib buf i s) | buf i. True}"

definition xsk_fresh :: "xsk \<Rightarrow> bool" where
  "xsk_fresh s \<longleftrightarrow> outstanding_tx s = 0 \<and> fq s = [] \<and> krx s = [] \<and> rx s = [] \<and> tx s = [] \<and> ktx s = [] \<and> cqr s = [] \<and> leaked s = []
     \<and> x_got s = [] \<and> x_wrote s = []"

subsection \<open>Who owns a frame\<close>

definition fr :: "u64 list \<Rightarrow> nat multiset" where "fr as = mset (map frame_of as)"
definition free_stack :: "xsk \<Rightarrow> u64 list" where "free_stack s = take (umem_frame_free s) (umem_frame_addr s)"
definition valid_addr :: "u64 \<Rightarrow> bool" where "valid_addr a \<longleftrightarrow> frame_of a < NUM_FRAMES"

text \<open>All frames but those on the receive ring; entries of the fill ring that are no frames do not count.\<close>

definition held :: "xsk \<Rightarrow> nat multiset" where
  "held s = fr (free_stack s) + fr (filter valid_addr (fq s)) + fr (krx s) + fr (map fst (tx s)) + fr (ktx s) + fr (cqr s) + fr (leaked s)"

definition xsk_wf :: "xsk \<Rightarrow> bool" where
  "xsk_wf s \<longleftrightarrow> length (umem_frame_addr s) = NUM_FRAMES \<and> umem_frame_free s \<le> NUM_FRAMES
     \<and> outstanding_tx s = length (tx s) + length (ktx s) + length (cqr s)"

definition all_frames :: "nat multiset" where "all_frames = mset [0..<NUM_FRAMES]"

definition xsk_ok :: "xsk \<Rightarrow> bool" where
  "xsk_ok s \<longleftrightarrow> xsk_wf s \<and> held s + fr (map fst (rx s)) = all_frames"

section \<open>Frames\<close>

lemma fr_simps [simp]: "fr [] = {#}" "fr (a # as) = add_mset (frame_of a) (fr as)" "fr (as @ bs) = fr as + fr bs"
  by (simp_all add: fr_def)

lemma size_fr [simp]: "size (fr as) = length as"
  by (simp add: fr_def)

lemma invalid_frame [simp]: "\<not> valid_addr INVALID_UMEM_FRAME"
  by (simp add: valid_addr_def frame_of_def INVALID_UMEM_FRAME_def FRAME_SIZE_def NUM_FRAMES_def unsigned_minus_1_eq_mask mask_eq_exp_minus_1)

lemma in_all_frames: "f \<in># all_frames \<longleftrightarrow> f < NUM_FRAMES"
  by (simp add: all_frames_def)

lemma size_all_frames: "size all_frames = NUM_FRAMES"
  by (simp add: all_frames_def)

lemma alloc_cases:
  assumes "xsk_wf s"
  obtains (none) "umem_frame_free s = 0" "xsk_alloc_umem_frame s = (INVALID_UMEM_FRAME, s)"
  | (some) a n l where "umem_frame_free s = Suc n" "xsk_alloc_umem_frame s = (a, s\<lparr>umem_frame_free := n, umem_frame_addr := l\<rparr>)"
      "length l = NUM_FRAMES" "free_stack s = take n l @ [a]"
proof (cases "umem_frame_free s")
  case 0
  then show thesis by (intro none) (simp_all add: xsk_alloc_umem_frame_def)
next
  case (Suc n)
  let ?l = "(umem_frame_addr s)[n := INVALID_UMEM_FRAME]"
  have "n < length (umem_frame_addr s)" using assms Suc by (simp add: xsk_wf_def)
  then have "free_stack s = take n ?l @ [umem_frame_addr s ! n]" using Suc by (simp add: free_stack_def take_Suc_conv_app_nth)
  then show thesis using assms Suc by (intro some [of n _ ?l]) (simp_all add: xsk_alloc_umem_frame_def Let_def xsk_wf_def)
qed

lemma free_frame_account:
  assumes "xsk_wf s" and "umem_frame_free s < NUM_FRAMES"
  shows "\<exists>l. xsk_free_umem_frame a s = Some (s\<lparr>umem_frame_addr := l, umem_frame_free := umem_frame_free s + 1\<rparr>)
    \<and> length l = NUM_FRAMES \<and> take (Suc (umem_frame_free s)) l = free_stack s @ [a]"
proof -
  have "umem_frame_free s < length (umem_frame_addr s)" using assms by (simp add: xsk_wf_def)
  then show ?thesis using assms
    by (intro exI [of _ "(umem_frame_addr s)[umem_frame_free s := a]"])
      (simp add: xsk_free_umem_frame_def take_Suc_conv_app_nth xsk_wf_def free_stack_def)
qed

lemma free_frames_account:
  assumes "xsk_wf s" and "umem_frame_free s + length as \<le> NUM_FRAMES"
  shows "\<exists>l. free_frames as s = Some (s\<lparr>umem_frame_addr := l, umem_frame_free := umem_frame_free s + length as\<rparr>)
    \<and> length l = NUM_FRAMES \<and> take (umem_frame_free s + length as) l = free_stack s @ as"
  using assms
proof (induction as arbitrary: s)
  case Nil
  then show ?case by (auto simp: free_stack_def xsk_wf_def intro!: exI [of _ "umem_frame_addr s"])
next
  case (Cons a as)
  then have "umem_frame_free s < NUM_FRAMES" by simp
  from free_frame_account [OF Cons.prems(1) this, of a] obtain l where
    l: "xsk_free_umem_frame a s = Some (s\<lparr>umem_frame_addr := l, umem_frame_free := umem_frame_free s + 1\<rparr>)"
      "length l = NUM_FRAMES" "take (Suc (umem_frame_free s)) l = free_stack s @ [a]" by blast
  let ?t = "s\<lparr>umem_frame_addr := l, umem_frame_free := umem_frame_free s + 1\<rparr>"
  have "xsk_wf ?t" using Cons.prems l(2) by (simp add: xsk_wf_def)
  from Cons.IH [OF this] Cons.prems(2) obtain l' where
    "free_frames as ?t = Some (?t\<lparr>umem_frame_addr := l', umem_frame_free := umem_frame_free ?t + length as\<rparr>)" "length l' = NUM_FRAMES"
    "take (umem_frame_free ?t + length as) l' = free_stack ?t @ as" by auto
  with l show ?case by (intro exI [of _ l']) (simp add: free_stack_def)
qed

section \<open>The account during a call\<close>

text \<open>All frames are accounted for when those in \<open>R\<close> are in the hands of the running function or on the receive ring.\<close>

definition account :: "nat multiset \<Rightarrow> xsk \<Rightarrow> bool" where
  "account R s \<longleftrightarrow> xsk_wf s \<and> held s + R = all_frames"

text \<open>What the functions on frames and rings leave alone.\<close>

definition same_data :: "xsk \<Rightarrow> xsk \<Rightarrow> bool" where
  "same_data s s' \<longleftrightarrow> rx s' = rx s \<and> x_got s' = x_got s \<and> x_wrote s' = x_wrote s \<and> x_agent s' = x_agent s \<and> leaked s' = leaked s"

lemma account_bounds:
  assumes "account R s"
  shows "umem_frame_free s + length (cqr s) + size R \<le> NUM_FRAMES" and "outstanding_tx s \<le> NUM_FRAMES"
    and "\<forall>a\<in>set (free_stack s). valid_addr a"
proof -
  have "size (held s) + size R = NUM_FRAMES" using assms size_all_frames by (metis account_def size_union)
  moreover have "length (free_stack s) = umem_frame_free s" using assms by (simp add: account_def xsk_wf_def free_stack_def)
  ultimately show "umem_frame_free s + length (cqr s) + size R \<le> NUM_FRAMES" "outstanding_tx s \<le> NUM_FRAMES"
    using assms by (simp_all add: held_def account_def xsk_wf_def)
  have "frame_of a \<in># all_frames" if "a \<in> set (free_stack s)" for a
  proof -
    have "frame_of a \<in># held s + R" using that by (simp add: held_def fr_def)
    with assms show ?thesis by (simp add: account_def)
  qed
  then show "\<forall>a\<in>set (free_stack s). valid_addr a" by (auto simp: in_all_frames valid_addr_def)
qed

text \<open>Moving a frame from the stack to the fill ring changes nothing in the account; what is not a frame is not counted.\<close>

lemma same_data_trans: "same_data s t \<Longrightarrow> same_data t u \<Longrightarrow> same_data s u"
  by (simp add: same_data_def)

lemma fill_frames_account:
  assumes "account R s"
  shows "account R (fill_frames n s) \<and> same_data s (fill_frames n s) \<and> frames (fill_frames n s) = frames s"
  using assms
proof (induction n arbitrary: s)
  case 0
  then show ?case by (simp add: same_data_def)
next
  case (Suc n)
  have wf: "xsk_wf s" using Suc.prems by (simp add: account_def)
  obtain t where t: "fill_frames (Suc n) s = fill_frames n t" "account R t" "same_data s t" "frames t = frames s"
    using wf
  proof (cases rule: alloc_cases)
    case none
    let ?t = "s\<lparr>fq := fq s @ [INVALID_UMEM_FRAME]\<rparr>"
    have "account R ?t" using Suc.prems by (simp add: account_def xsk_wf_def held_def free_stack_def)
    then show thesis using none by (intro that [of ?t]) (simp_all add: same_data_def)
  next
    case (some a m l)
    let ?t = "s\<lparr>umem_frame_free := m, umem_frame_addr := l, fq := fq s @ [a]\<rparr>"
    have "valid_addr a" using account_bounds(3) [OF Suc.prems] some(4) by simp
    then have "account R ?t" using Suc.prems some by (simp add: account_def xsk_wf_def held_def free_stack_def)
    then show thesis using some by (intro that [of ?t]) (simp_all add: same_data_def)
  qed
  from Suc.IH [OF t(2)] t(1,3,4) show ?case using same_data_trans by auto
qed

lemma account_free:
  assumes "account (add_mset (frame_of a) R) s"
  shows "\<exists>s'. xsk_free_umem_frame a s = Some s' \<and> account R s' \<and> same_data s s'"
proof -
  have wf: "xsk_wf s" and eq: "held s + add_mset (frame_of a) R = all_frames" using assms by (simp_all add: account_def)
  have less: "umem_frame_free s < NUM_FRAMES" using account_bounds(1) [OF assms] by simp
  obtain l where l: "xsk_free_umem_frame a s = Some (s\<lparr>umem_frame_addr := l, umem_frame_free := umem_frame_free s + 1\<rparr>)"
    "length l = NUM_FRAMES" "take (Suc (umem_frame_free s)) l = free_stack s @ [a]"
    using free_frame_account [OF wf less] by blast
  let ?s = "s\<lparr>umem_frame_addr := l, umem_frame_free := umem_frame_free s + 1\<rparr>"
  have "held ?s = add_mset (frame_of a) (held s)" using l(3) by (simp add: held_def free_stack_def)
  then have "account R ?s" using wf eq less l(2) by (simp add: account_def xsk_wf_def)
  with l(1) show ?thesis by (auto simp: same_data_def)
qed

lemma complete_tx_account:
  assumes "account R s" and "xsk_lib_ok lib"
  shows "\<exists>s'. complete_tx lib s = Some s' \<and> account R s' \<and> same_data s s'"
proof (cases "outstanding_tx s = 0")
  case True
  then show ?thesis using assms(1) by (simp add: complete_tx_def same_data_def)
next
  case False
  define n where "n = l_peek lib (calls s) (length (cqr s)) DEFAULT_NUM_DESCS"
  let ?t = "s\<lparr>calls := calls s + 1\<rparr>"
  have n: "n \<le> length (cqr s)" using assms(2) by (simp add: n_def xsk_lib_ok_def)
  have t: "xsk_wf ?t" "held ?t = held s" "free_stack ?t = free_stack s" using assms(1) by (simp_all add: account_def xsk_wf_def held_def free_stack_def)
  have "umem_frame_free ?t + length (take n (cqr s)) \<le> NUM_FRAMES" using account_bounds(1) [OF assms(1)] n by simp
  from free_frames_account [OF t(1) this] obtain l where
    l: "free_frames (take n (cqr s)) ?t = Some (?t\<lparr>umem_frame_addr := l, umem_frame_free := umem_frame_free s + n\<rparr>)" "length l = NUM_FRAMES"
      "take (umem_frame_free s + n) l = free_stack s @ take n (cqr s)" using n t(3) by auto
  let ?s = "?t\<lparr>umem_frame_addr := l, umem_frame_free := umem_frame_free s + n, cqr := drop n (cqr s),
    outstanding_tx := outstanding_tx s - min n (outstanding_tx s)\<rparr>"
  have "held ?s = held s"
  proof -
    have "fr (cqr s) = fr (take n (cqr s)) + fr (drop n (cqr s))" by (metis append_take_drop_id fr_simps(3))
    then show ?thesis using l(3) by (simp add: held_def free_stack_def)
  qed
  moreover have "xsk_wf ?s" using assms(1) l(2) n account_bounds(1) [OF assms(1)] by (auto simp: account_def xsk_wf_def min_def)
  ultimately have "account R ?s" using assms(1) by (simp add: account_def)
  moreover have "account R ?t" using assms(1) t by (simp add: account_def)
  ultimately show ?thesis using False l(1)
    by (cases "n = 0") (simp_all add: complete_tx_def Let_def n_def [symmetric] same_data_def)
qed

lemma send_frame_account:
  assumes "account (add_mset (frame_of a) R) s"
  shows "\<exists>r s'. xsk_send_packet lib (Umem_frame a) len False s = Some (r, s') \<and> same_data s s' \<and> frames s' = frames s
    \<and> (if r = 0 then account R s' \<and> tx s' = tx s @ [(a, len)] else account (add_mset (frame_of a) R) s' \<and> tx s' = tx s)"
  using assms
  by (auto simp: xsk_send_packet_def place_packet_def Let_def account_def xsk_wf_def held_def free_stack_def same_data_def)

lemma send_buffer_account:
  assumes "account R s" and "xsk_lib_ok lib" and "xsk_send_packet lib (User_buffer d) len True s = Some (r, s')"
  shows "account R s' \<and> same_data s s'"
proof (cases "l_reserve lib (calls s) (DEFAULT_NUM_DESCS - length (tx s)) 1 = 1")
  case False
  then show ?thesis using assms(1,3) by (auto simp: xsk_send_packet_def Let_def account_def xsk_wf_def held_def free_stack_def same_data_def)
next
  case True
  let ?t = "s\<lparr>calls := calls s + 1\<rparr>"
  have wf: "xsk_wf ?t" using assms(1) by (simp add: account_def xsk_wf_def)
  from wf show ?thesis
  proof (cases rule: alloc_cases)
    case none
    with True assms(3) show ?thesis by (simp add: xsk_send_packet_def place_packet_def)
  next
    case (some a n l)
    let ?u = "s\<lparr>calls := calls s + 1, umem_frame_free := n, umem_frame_addr := l, frames := (frames s)(frame_of a := take len d),
      tx := tx s @ [(a, len)], outstanding_tx := outstanding_tx s + 1\<rparr>"
    have "a \<noteq> INVALID_UMEM_FRAME" using assms(3) True some(2) by (auto simp: xsk_send_packet_def place_packet_def)
    then have c: "map_option (Pair 0) (complete_tx lib ?u) = Some (r, s')" using assms(3) True some(2) by (simp add: xsk_send_packet_def place_packet_def Let_def)
    have "held ?u = held s" using some(1,4) by (simp add: held_def free_stack_def)
    then have "account R ?u" using assms(1) some(1,3) by (auto simp: account_def xsk_wf_def)
    from complete_tx_account [OF this assms(2)] c show ?thesis by (auto simp: same_data_def)
  qed
qed

lemma stock_fill_ring_account:
  assumes "account R s" and "xsk_lib_ok lib"
  shows "\<exists>s'. stock_fill_ring lib rcvd s = Some s' \<and> account R s' \<and> same_data s s' \<and> frames s' = frames s"
proof -
  define n where "n = l_nb_free lib (calls s) (DEFAULT_NUM_DESCS - length (fq s)) (umem_frame_free s)"
  let ?t = "s\<lparr>calls := calls s + 2\<rparr>"
  have "n \<le> DEFAULT_NUM_DESCS - length (fq s)" using assms(2) by (simp add: n_def xsk_lib_ok_def)
  then have "l_reserve lib k (DEFAULT_NUM_DESCS - length (fq s)) n = n" for k using assms(2) by (simp add: xsk_lib_ok_def)
  moreover have "wait_reserve lib n rcvd n t = Some t" for t by (subst wait_reserve.simps) simp
  ultimately have r: "stock_fill_ring lib rcvd s = Some (if 0 < n then fill_frames n ?t else s\<lparr>calls := calls s + 1\<rparr>)"
    by (simp add: stock_fill_ring_def Let_def n_def [symmetric])
  have "account R ?t" "account R (s\<lparr>calls := calls s + 1\<rparr>)"
    using assms(1) by (simp_all add: account_def xsk_wf_def held_def free_stack_def)
  with r fill_frames_account [of R ?t n] show ?thesis by (auto simp: same_data_def)
qed

section \<open>Machines\<close>

text \<open>
  What the receiving loop relies on of \<^verbatim>\<open>process_packet\<close> and of the sender thread: the function that processes a packet is handed one
  frame and either keeps it, having passed it on or recorded it, or leaves it with the caller; a call of the sender keeps the account.
\<close>

locale xsk_machine =
  fixes lib :: xsk_lib and process :: "u64 \<Rightarrow> nat \<Rightarrow> xsk \<Rightarrow> (bool \<times> xsk) option" and senders :: "(xsk \<Rightarrow> xsk option) set"
  assumes process_account: "xsk_lib_ok lib \<Longrightarrow> account (add_mset (frame_of a) R) s \<Longrightarrow> process a len s = Some (keep, s') \<Longrightarrow>
      account (if keep then R else add_mset (frame_of a) R) s' \<and> rx s' = rx s"
    and sender_account: "xsk_lib_ok lib \<Longrightarrow> f \<in> senders \<Longrightarrow> account R s \<Longrightarrow> f s = Some s' \<Longrightarrow> account R s' \<and> rx s' = rx s"
begin

lemma process_all_account:
  assumes "xsk_lib_ok lib" and "account (fr (map fst ds) + R) s" and "process_all process ds s = Some s'"
  shows "account R s' \<and> rx s' = rx s"
  using assms(2,3)
proof (induction ds arbitrary: s)
  case Nil
  then show ?case by simp
next
  case (Cons d ds)
  obtain a len where d: "d = (a, len)" by (cases d)
  from Cons.prems(2) obtain keep t where p: "process a len s = Some (keep, t)" by (auto simp: d split: option.splits)
  have "account (add_mset (frame_of a) (fr (map fst ds) + R)) s" using Cons.prems(1) by (simp add: d)
  from process_account [OF assms(1) this p]
  have t: "account (if keep then fr (map fst ds) + R else add_mset (frame_of a) (fr (map fst ds) + R)) t" "rx t = rx s" by simp_all
  show ?case
  proof (cases keep)
    case True
    with Cons.IH [of t] Cons.prems(2) p t show ?thesis by (simp add: d)
  next
    case False
    then have "account (add_mset (frame_of a) (fr (map fst ds) + R)) t" using t(1) by simp
    from account_free [OF this] obtain u where
      u: "xsk_free_umem_frame a t = Some u" "account (fr (map fst ds) + R) u" "same_data t u" by blast
    with Cons.IH [of u] Cons.prems(2) p t False show ?thesis by (simp add: d same_data_def)
  qed
qed

lemma handle_ok:
  assumes "xsk_lib_ok lib" and "xsk_ok s" and "handle_receive_packets lib process s = Some s'"
  shows "xsk_ok s'"
proof -
  define n where "n = l_peek lib (calls s) (length (rx s)) RX_BATCH_SIZE"
  let ?s = "s\<lparr>calls := calls s + 1\<rparr>"
  have acc: "account (fr (map fst (rx s))) ?s"
    using assms(2) by (simp add: xsk_ok_def account_def xsk_wf_def held_def free_stack_def)
  show ?thesis
  proof (cases "n = 0")
    case True
    then show ?thesis using assms(3) acc by (auto simp: handle_receive_packets_def Let_def n_def [symmetric] xsk_ok_def account_def)
  next
    case False
    obtain t where t: "stock_fill_ring lib n ?s = Some t" "account (fr (map fst (rx s))) t" "rx t = rx s"
      using stock_fill_ring_account [OF acc assms(1)] by (auto simp: same_data_def)
    have split: "fr (map fst (rx s)) = fr (map fst (take n (rx s))) + fr (map fst (drop n (rx s)))"
      by (metis append_take_drop_id fr_simps(3) map_append)
    obtain u where u: "process_all process (take n (rx s)) t = Some u" "complete_tx lib (u\<lparr>rx := drop n (rx u)\<rparr>) = Some s'"
      using assms(3) False t by (auto simp: handle_receive_packets_def Let_def n_def [symmetric] split: option.splits)
    from process_all_account [OF assms(1) _ u(1)] t(2,3) split have au: "account (fr (map fst (drop n (rx s)))) u" "rx u = rx s" by auto
    then have "account (fr (map fst (drop n (rx s)))) (u\<lparr>rx := drop n (rx u)\<rparr>)" by (simp add: account_def xsk_wf_def held_def free_stack_def)
    from complete_tx_account [OF this assms(1)] u(2) au(2) show ?thesis by (auto simp: same_data_def xsk_ok_def account_def)
  qed
qed

lemma step_ok:
  assumes "xsk_lib_ok lib" and "xsk_step lib process senders s s'" and "xsk_ok s"
  shows "xsk_ok s'"
  using assms(2)
proof (cases rule: xsk_step.cases)
  case x_main
  then show ?thesis using handle_ok assms(1,3) by blast
next
  case (x_send f)
  then show ?thesis using sender_account [OF assms(1), of f "fr (map fst (rx s))" s s'] assms(3) by (simp add: xsk_ok_def account_def)
next
  case (k_take a r)
  then show ?thesis using assms(3) by (simp add: xsk_ok_def xsk_wf_def held_def free_stack_def valid_addr_def ac_simps)
qed (use assms(3) in \<open>auto simp: xsk_ok_def xsk_wf_def held_def free_stack_def valid_addr_def ac_simps\<close>)

lemma reach_ok: "xsk_lib_ok lib \<Longrightarrow> (xsk_step lib process senders)\<^sup>*\<^sup>* s s' \<Longrightarrow> xsk_ok s \<Longrightarrow> xsk_ok s'"
  by (rotate_tac 1) (induction rule: rtranclp_induct, auto intro: step_ok)

end

lemma account_world:
  assumes "account R s" and "umem_frame_addr t = umem_frame_addr s" "umem_frame_free t = umem_frame_free s" "outstanding_tx t = outstanding_tx s"
    "fq t = fq s" "krx t = krx s" "tx t = tx s" "ktx t = ktx s" "cqr t = cqr s" "leaked t = leaked s"
  shows "account R t"
  using assms by (simp add: account_def xsk_wf_def held_def free_stack_def)

text \<open>The server's \<^verbatim>\<open>process_packet\<close> always returns, and keeps the account.\<close>

lemma process_server_account:
  assumes "account (add_mset (frame_of a) R) s"
  shows "\<exists>keep s'. process_packet_server lib iters a len s = Some (keep, s') \<and> account (if keep then R else add_mset (frame_of a) R) s' \<and> rx s' = rx s"
proof (cases "xsk_accepts (frames s (frame_of a)) len")
  case False
  let ?t = "snd (get_time_ns s)"
  have "account (add_mset (frame_of a) R) ?t" using assms by (rule account_world) (simp_all add: get_time_ns_eq)
  then show ?thesis using False by (intro exI [of _ False] exI [of _ ?t]) (simp add: process_packet_server_def Let_def get_time_ns_eq)
next
  case True
  let ?p = "load_payload (frames s (frame_of a)) packet_payload"
  let ?u = "(snd (get_time_ns s))\<lparr>x_exit := (x_exit s \<or> iters \<le> pp_id ?p), x_got := x_got s @ [?p]\<rparr>"
  define t where "t = (snd (get_time_ns ?u))\<lparr>frames := (frames s)(frame_of a :=
      turn_around (fst (get_time_ns s)) (fst (get_time_ns ?u)) (frames s (frame_of a)))\<rparr>"
  have t: "account (add_mset (frame_of a) R) t" "rx t = rx s"
    using assms by (auto simp: t_def get_time_ns_eq elim!: account_world)
  obtain r s' where r: "xsk_send_packet lib (Umem_frame a) len False t = Some (r, s')" "same_data t s'"
    "if r = 0 then account R s' else account (add_mset (frame_of a) R) s'"
    using send_frame_account [OF t(1), of lib len] by (auto split: if_splits)
  have res: "process_packet_server lib iters a len s = Some (True, if r \<noteq> 0 then s'\<lparr>leaked := leaked s' @ [a]\<rparr> else s')"
    using True r(1) by (simp add: process_packet_server_def Let_def get_time_ns_eq t_def)
  have "account R (s'\<lparr>leaked := leaked s' @ [a]\<rparr>)" if "r \<noteq> 0"
    using r(3) that by (simp add: account_def xsk_wf_def held_def free_stack_def)
  with res r t show ?thesis by (auto simp: same_data_def)
qed

lemma process_client_account:
  assumes "account R' s" and "process_packet_client iters a len s = Some (keep, s')"
  shows "\<not> keep \<and> account R' s' \<and> rx s' = rx s"
  using assms
  by (auto simp: process_packet_client_def Let_def get_time_ns_eq split: if_splits option.splits elim!: account_world)

lemma client_send_account:
  assumes "xsk_lib_ok lib" and "account R s" and "client_send_pp_packet lib buf i s = Some (r, b, s')"
  shows "account R s' \<and> rx s' = rx s"
proof -
  obtain d r1 where "xsk_send_packet lib (User_buffer d) PACKET_SIZE True (snd (get_time_ns s)) = Some (r1, s')"
    using assms(3) by (auto simp: client_send_pp_packet_def Let_def split: option.splits)
  moreover have "account R (snd (get_time_ns s))" using assms(2) by (rule account_world) (simp_all add: get_time_ns_eq)
  ultimately show ?thesis using send_buffer_account [OF _ assms(1)] by (fastforce simp: same_data_def get_time_ns_eq)
qed

interpretation xss: xsk_machine lib "process_packet_server lib iters" "{}" for lib iters
proof unfold_locales
  fix a R s len keep s'
  assume *: "account (add_mset (frame_of a) R) s" "process_packet_server lib iters a len s = Some (keep, s')"
  from process_server_account [OF *(1), of lib iters len] *(2)
  show "account (if keep then R else add_mset (frame_of a) R) s' \<and> rx s' = rx s" by auto
qed simp

interpretation xsc: xsk_machine lib "process_packet_client iters"
  "{\<lambda>s. map_option (\<lambda>(r, b, s). s) (client_send_pp_packet lib buf i s) | buf i. True}" for lib iters
proof unfold_locales
  fix a R s len keep s'
  assume "account (add_mset (frame_of a) R) s" "process_packet_client iters a len s = Some (keep, s')"
  then show "account (if keep then R else add_mset (frame_of a) R) s' \<and> rx s' = rx s" using process_client_account by fastforce
next
  fix f R s s'
  assume *: "xsk_lib_ok lib" "f \<in> {\<lambda>s. map_option (\<lambda>(r, b, s). s) (client_send_pp_packet lib buf i s) | buf i. True}"
    "account R s" "f s = Some s'"
  then obtain buf i r b where "client_send_pp_packet lib buf i s = Some (r, b, s')" by auto
  with client_send_account * show "account R s' \<and> rx s' = rx s" by blast
qed

text \<open>The configured socket owns every frame once.\<close>

lemma configure_ok:
  assumes "xsk_fresh s0" and "xsk_configure_socket lib s0 = Some s"
  shows "xsk_ok s"
proof -
  let ?l = "map (\<lambda>i. of_nat (i * FRAME_SIZE) :: u64) [0..<NUM_FRAMES]"
  define t where "t = s0\<lparr>umem_frame_addr := ?l, umem_frame_free := NUM_FRAMES, calls := calls s0 + 1\<rparr>"
  have s: "s = fill_frames DEFAULT_NUM_DESCS t" using assms(2) by (simp add: xsk_configure_socket_def Let_def t_def split: if_splits)
  have f: "frame_of (of_nat (i * FRAME_SIZE)) = i" if "i < NUM_FRAMES" for i
  proof -
    have "unat (of_nat (i * FRAME_SIZE) :: u64) = i * FRAME_SIZE"
      using that by (simp only: unat_of_nat) (simp add: FRAME_SIZE_def NUM_FRAMES_def)
    then show ?thesis unfolding frame_of_def by (simp only:) (simp add: FRAME_SIZE_def)
  qed
  have fl: "fr ?l = all_frames"
  proof -
    have "map frame_of ?l = [0..<NUM_FRAMES]" using f by (intro nth_equalityI) simp_all
    then show ?thesis by (simp only: fr_def all_frames_def)
  qed
  have stack: "free_stack t = ?l" by (simp add: free_stack_def t_def)
  have rest: "fq t = []" "krx t = []" "tx t = []" "ktx t = []" "cqr t = []" "leaked t = []" "rx t = []" "outstanding_tx t = 0"
    "length (umem_frame_addr t) = NUM_FRAMES" "umem_frame_free t = NUM_FRAMES"
    using assms(1) by (simp_all add: t_def xsk_fresh_def)
  have "held t = all_frames" unfolding held_def stack fl by (simp add: rest)
  then have "account {#} t" by (simp add: account_def xsk_wf_def rest)
  from fill_frames_account [OF this, of DEFAULT_NUM_DESCS] show ?thesis by (simp add: s xsk_ok_def account_def same_data_def rest)
qed

text \<open>While the account is kept, one round of the server always returns.\<close>

lemma process_all_server_returns:
  assumes "account (fr (map fst ds) + R) s"
  shows "\<exists>s'. process_all (process_packet_server lib iters) ds s = Some s' \<and> account R s' \<and> rx s' = rx s"
  using assms
proof (induction ds arbitrary: s)
  case Nil
  then show ?case by simp
next
  case (Cons d ds)
  obtain a len where d: "d = (a, len)" by (cases d)
  have "account (add_mset (frame_of a) (fr (map fst ds) + R)) s" using Cons.prems by (simp add: d)
  from process_server_account [OF this, of lib iters len] obtain keep t where
    p: "process_packet_server lib iters a len s = Some (keep, t)" "rx t = rx s"
    "account (if keep then fr (map fst ds) + R else add_mset (frame_of a) (fr (map fst ds) + R)) t" by blast
  show ?case
  proof (cases keep)
    case True
    with Cons.IH [of t] p show ?thesis by (simp add: d)
  next
    case False
    then have "account (add_mset (frame_of a) (fr (map fst ds) + R)) t" using p(3) by simp
    from account_free [OF this] obtain u where
      u: "xsk_free_umem_frame a t = Some u" "account (fr (map fst ds) + R) u" "same_data t u" by blast
    with Cons.IH [of u] p False show ?thesis by (simp add: d same_data_def)
  qed
qed

lemma server_round_returns:
  assumes "xsk_ok s" and "xsk_lib_ok lib"
  shows "handle_receive_packets lib (process_packet_server lib iters) s \<noteq> None"
proof -
  define n where "n = l_peek lib (calls s) (length (rx s)) RX_BATCH_SIZE"
  let ?s = "s\<lparr>calls := calls s + 1\<rparr>"
  have acc: "account (fr (map fst (rx s))) ?s"
    using assms(1) by (simp add: xsk_ok_def account_def xsk_wf_def held_def free_stack_def)
  obtain t where t: "stock_fill_ring lib n ?s = Some t" "account (fr (map fst (rx s))) t" "rx t = rx s"
    using stock_fill_ring_account [OF acc assms(2)] by (auto simp: same_data_def)
  have "fr (map fst (rx s)) = fr (map fst (take n (rx s))) + fr (map fst (drop n (rx s)))"
    by (metis append_take_drop_id fr_simps(3) map_append)
  then obtain u where u: "process_all (process_packet_server lib iters) (take n (rx s)) t = Some u"
      "account (fr (map fst (drop n (rx s)))) u" "rx u = rx s"
    using process_all_server_returns [of "take n (rx s)" _ t lib iters] t by auto
  have "account (fr (map fst (drop n (rx s)))) (u\<lparr>rx := drop n (rx u)\<rparr>)"
    using u(2) by (rule account_world) simp_all
  from complete_tx_account [OF this assms(2)] t u show ?thesis
    by (auto simp: handle_receive_packets_def Let_def n_def [symmetric])
qed


section \<open>Properties\<close>

text \<open>C4: no frame is lost or used twice. In every reachable state of the server and of the client, under every interleaving with the kernel and
  the sender thread, the free frames, those in the four rings, those the kernel works on and those given up after a failed
  transmission are together all 4096 frames, each exactly once; and the counter of outstanding transmissions is exact.\<close>

theorem xsk_frames_conserved:
  assumes "xsk_fresh s0" and "xsk_lib_ok lib" and "xsk_configure_socket lib s0 = Some s1"
    and "(xsk_server_step lib iters)\<^sup>*\<^sup>* s1 s \<or> (xsk_client_step lib iters)\<^sup>*\<^sup>* s1 s"
  shows "mset (map frame_of (free_stack s @ filter valid_addr (fq s) @ krx s @ map fst (rx s) @ map fst (tx s) @ ktx s @ cqr s @ leaked s))
      = mset [0..<NUM_FRAMES]
    \<and> umem_frame_free s \<le> NUM_FRAMES \<and> outstanding_tx s = length (tx s) + length (ktx s) + length (cqr s)"
proof -
  have "xsk_ok s"
    using assms(4) xss.reach_ok [OF assms(2)] xsc.reach_ok [OF assms(2)] configure_ok [OF assms(1,3)]
    unfolding xsk_server_step_def xsk_client_step_def by blast
  then show ?thesis by (simp add: xsk_ok_def xsk_wf_def held_def fr_def all_frames_def ac_simps)
qed

text \<open>A library as documented and a zeroed socket, for the witnesses.\<close>

definition demo_lib :: xsk_lib where
  "demo_lib = \<lparr>l_reserve = (\<lambda>_ f n. if n \<le> f then n else 0), l_nb_free = (\<lambda>_ f _. f), l_peek = (\<lambda>_ a n. min a n)\<rparr>"

definition demo_xsk :: xsk where
  "demo_xsk = world.extend demo_world \<lparr>umem_frame_addr = [], umem_frame_free = 0, outstanding_tx = 0, fq = [], krx = [], rx = [], tx = [],
     ktx = [], cqr = [], frames = (\<lambda>_. []), leaked = [], x_exit = False, calls = 0, x_agent = None, x_got = [], x_wrote = []\<rparr>"

lemma demo_xsk: "xsk_lib_ok demo_lib" "xsk_fresh demo_xsk" "\<exists>s. xsk_configure_socket demo_lib demo_xsk = Some s"
  by (simp_all add: xsk_lib_ok_def demo_lib_def xsk_fresh_def demo_xsk_def world.extend_def xsk_configure_socket_def Let_def)

theorem xsk_frames_conserved_witness:
  "\<exists>s. xsk_configure_socket demo_lib demo_xsk = Some s
    \<and> mset (map frame_of (free_stack s @ filter valid_addr (fq s) @ krx s @ map fst (rx s) @ map fst (tx s) @ ktx s @ cqr s @ leaked s)) = mset [0..<NUM_FRAMES]"
proof -
  obtain s where s: "xsk_configure_socket demo_lib demo_xsk = Some s" using demo_xsk(3) by blast
  from xsk_frames_conserved [OF demo_xsk(2,1) s, of 1 s] s show ?thesis by (intro exI [of _ s]) simp
qed

text \<open>C24: the server never stops in the middle. In every reachable state a round of its loop returns: the assertion that a freed frame fits on the
  stack holds, and the reservation of the fill ring never has to be retried.\<close>

theorem xsk_server_round_returns:
  assumes "xsk_fresh s0" and "xsk_lib_ok lib" and "xsk_configure_socket lib s0 = Some s1" and "(xsk_server_step lib iters)\<^sup>*\<^sup>* s1 s"
  shows "\<exists>s'. handle_receive_packets lib (process_packet_server lib iters) s = Some s'"
proof -
  have "xsk_ok s"
    using assms(4) xss.reach_ok [OF assms(2)] configure_ok [OF assms(1,3)] unfolding xsk_server_step_def by blast
  with server_round_returns [OF _ assms(2)] show ?thesis by blast
qed

theorem xsk_server_round_returns_witness:
  "\<exists>s s'. xsk_configure_socket demo_lib demo_xsk = Some s \<and> handle_receive_packets demo_lib (process_packet_server demo_lib 9) s = Some s'"
proof -
  obtain s where s: "xsk_configure_socket demo_lib demo_xsk = Some s" using demo_xsk(3) by blast
  from xsk_server_round_returns [OF demo_xsk(2,1) s rtranclp.rtrancl_refl, of 9] s show ?thesis by blast
qed

text \<open>the filter and the program agree on what a ping-pong packet is. The eBPF filter hands over exactly the packets that the polling variant's
  program would accept, and each of them passes the checks of \<^verbatim>\<open>process_packet\<close>; every other packet is passed to the network stack.\<close>

theorem xsk_filter_agrees:
  "xdp_xsk redirect pkt = (if pingpong_of pkt = None then XDP_PASS else redirect XDP_DROP)
   \<and> (pingpong_of pkt = None \<or> xsk_accepts pkt (length pkt))"
  by (auto simp: xdp_xsk_def pingpong_of_def xsk_accepts_def packet_payload_def valid_pingpong_payload_def)




end
