(* ===== verification/Xdp_Load.thy ===== *)
theory Xdp_Load
  imports Prelude
begin

text \<open>
  \<^verbatim>\<open>xdp/src/xdp-loading.c\<close>: attaching an eBPF program to an interface, detaching it, and mapping one of its maps.

  The functions of libbpf are a parameter, the record \<open>libbpf\<close>, over an unknown type of kernel states. \<open>libbpf_ok\<close> is what the documentation
  promises of them, in terms of two observations: which paths of the BPF file system are pinned, and which program (by its descriptor) an
  interface runs. A path is pinned at most once; a program is unpinned only from a path that is pinned; with the flag
  \<^verbatim>\<open>XDP_FLAGS_UPDATE_IF_NOEXIST\<close> a program is attached only to an interface that has none; loading an object may pin its maps by their names.
\<close>

section \<open>Definitions\<close>

record ('o, 'p, 'k) libbpf =
  bpf_open_file :: "string \<Rightarrow> 'k \<Rightarrow> 'o option \<times> 'k"
  bpf_load :: "'o \<Rightarrow> 'k \<Rightarrow> int \<times> 'k"
  bpf_find_program :: "'o \<Rightarrow> string \<Rightarrow> 'k \<Rightarrow> 'p option"
  bpf_program_pin :: "'p \<Rightarrow> string \<Rightarrow> 'k \<Rightarrow> int \<times> 'k"
  bpf_program_unpin :: "'p \<Rightarrow> string \<Rightarrow> 'k \<Rightarrow> int \<times> 'k"
  bpf_program_fd :: "'p \<Rightarrow> 'k \<Rightarrow> int"
  bpf_xdp_attach :: "int \<Rightarrow> int \<Rightarrow> u32 \<Rightarrow> 'k \<Rightarrow> int \<times> 'k"
  bpf_xdp_detach :: "int \<Rightarrow> u32 \<Rightarrow> 'k \<Rightarrow> int \<times> 'k"
  bpf_map_names :: "'o \<Rightarrow> 'k \<Rightarrow> string list"
  bpf_map_unpin :: "'o \<Rightarrow> string \<Rightarrow> string \<Rightarrow> 'k \<Rightarrow> int \<times> 'k"
  bpf_find_map_fd :: "'o \<Rightarrow> string \<Rightarrow> 'k \<Rightarrow> int"
  bpf_mmap :: "int \<Rightarrow> nat \<Rightarrow> 'k \<Rightarrow> nat option"

definition XDP_FLAGS_UPDATE_IF_NOEXIST :: u32 where "XDP_FLAGS_UPDATE_IF_NOEXIST = 1"
definition XDP_FLAGS_DRV_MODE :: u32 where "XDP_FLAGS_DRV_MODE = 4"

definition read_xdp_file :: "('o, 'p, 'k) libbpf \<Rightarrow> string \<Rightarrow> 'k \<Rightarrow> 'o option \<times> 'k" where
  "read_xdp_file lib filename k = bpf_open_file lib filename k"

definition attach_xdp :: "('o, 'p, 'k) libbpf \<Rightarrow> 'o \<Rightarrow> string \<Rightarrow> int \<Rightarrow> string option \<Rightarrow> 'k \<Rightarrow> int \<times> 'k" where
  "attach_xdp lib obj prog_name ifindex pinpath k =
     (case bpf_load lib obj k of
        (ret, k) \<Rightarrow>
          if ret \<noteq> 0 then (- 1, k)
          else
            (case bpf_find_program lib obj prog_name k of
               None \<Rightarrow> (- 1, k)
             | Some prog \<Rightarrow>
                 (case (case pinpath of None \<Rightarrow> (0, k) | Some path \<Rightarrow> bpf_program_pin lib prog path k) of
                    (ret, k) \<Rightarrow>
                      if ret \<noteq> 0 then (- 1, k)
                      else
                        (case bpf_xdp_attach lib ifindex (bpf_program_fd lib prog k) (XDP_FLAGS_DRV_MODE OR XDP_FLAGS_UPDATE_IF_NOEXIST) k of
                           (ret, k) \<Rightarrow> if ret \<noteq> 0 then (- 1, k) else (0, k)))))"

text \<open>\<^verbatim>\<open>snprintf\<close> into an array of \<open>size\<close> bytes keeps the terminator.\<close>

definition map_pinpath :: "string \<Rightarrow> string" where
  "map_pinpath name = (let size = 12 + length name + 1 in take (size - 1) (''/sys/fs/bpf/'' @ name))"

text \<open>The loop over the maps of the object; a map that cannot be unpinned is reported and left.\<close>

fun unpin_maps :: "('o, 'p, 'k) libbpf \<Rightarrow> 'o \<Rightarrow> string list \<Rightarrow> 'k \<Rightarrow> 'k" where
  "unpin_maps lib obj [] k = k"
| "unpin_maps lib obj (name # names) k = unpin_maps lib obj names (snd (bpf_map_unpin lib obj name (map_pinpath name) k))"

definition detach_xdp :: "('o, 'p, 'k) libbpf \<Rightarrow> 'o \<Rightarrow> string \<Rightarrow> int \<Rightarrow> string option \<Rightarrow> 'k \<Rightarrow> int \<times> 'k" where
  "detach_xdp lib obj prog_name ifindex pinpath k =
     (case bpf_load lib obj k of
        (ret, k) \<Rightarrow>
          if ret \<noteq> 0 then (- 1, k)
          else
            (case bpf_find_program lib obj prog_name k of
               None \<Rightarrow> (- 1, k)
             | Some prog \<Rightarrow>
                 (case (case pinpath of
                          None \<Rightarrow> (0, k)
                        | Some path \<Rightarrow>
                            (case bpf_program_unpin lib prog path k of
                               (ret, k) \<Rightarrow> if ret \<noteq> 0 then (ret, k) else (0, unpin_maps lib obj (bpf_map_names lib obj k) k))) of
                    (ret, k) \<Rightarrow>
                      if ret \<noteq> 0 then (- 1, k)
                      else
                        (case bpf_xdp_detach lib ifindex XDP_FLAGS_DRV_MODE k of
                           (ret, k) \<Rightarrow> if ret \<noteq> 0 then (- 1, k) else (0, k)))))"

definition mmap_bpf_map :: "('o, 'p, 'k) libbpf \<Rightarrow> 'o \<Rightarrow> string \<Rightarrow> nat \<Rightarrow> 'k \<Rightarrow> nat option" where
  "mmap_bpf_map lib obj mapname map_size k =
     (let map_fd = bpf_find_map_fd lib obj mapname k in
      if map_fd < 0 then None else bpf_mmap lib map_fd map_size k)"

section \<open>What libbpf promises\<close>

text \<open>The file opens, a freshly opened object loads and has the program, and all that loading changes of the observations are pins of
  the object's maps.\<close>

definition file_ok ::
  "('o, 'p, 'k) libbpf \<Rightarrow> ('k \<Rightarrow> string \<Rightarrow> bool) \<Rightarrow> ('k \<Rightarrow> int \<Rightarrow> int option) \<Rightarrow> string set \<Rightarrow> string \<Rightarrow> string \<Rightarrow> bool" where
  "file_ok lib pinned attached maps filename prog_name \<longleftrightarrow>
     (\<forall>k. \<exists>obj k1 k2 prog. bpf_open_file lib filename k = (Some obj, k1) \<and> attached k1 = attached k \<and> pinned k1 = pinned k
        \<and> bpf_load lib obj k1 = (0, k2) \<and> bpf_find_program lib obj prog_name k2 = Some prog
        \<and> attached k2 = attached k \<and> (\<forall>q. q \<notin> map_pinpath ` maps \<longrightarrow> pinned k2 q = pinned k q)
        \<and> (\<forall>k3. set (bpf_map_names lib obj k3) \<subseteq> maps))"

definition pins_ok :: "('o, 'p, 'k) libbpf \<Rightarrow> ('k \<Rightarrow> string \<Rightarrow> bool) \<Rightarrow> ('k \<Rightarrow> int \<Rightarrow> int option) \<Rightarrow> bool" where
  "pins_ok lib pinned attached \<longleftrightarrow>
     (\<forall>prog path k r k'. bpf_program_pin lib prog path k = (r, k') \<longrightarrow>
        attached k' = attached k \<and> (r = 0 \<longleftrightarrow> \<not> pinned k path) \<and> pinned k' = (if r = 0 then (pinned k)(path := True) else pinned k))
     \<and> (\<forall>prog path k r k'. bpf_program_unpin lib prog path k = (r, k') \<longrightarrow>
        attached k' = attached k \<and> (r = 0 \<longleftrightarrow> pinned k path) \<and> pinned k' = (if r = 0 then (pinned k)(path := False) else pinned k))
     \<and> (\<forall>obj name path k r k'. bpf_map_unpin lib obj name path k = (r, k') \<longrightarrow>
        attached k' = attached k \<and> (\<forall>q. q \<noteq> path \<longrightarrow> pinned k' q = pinned k q))"

definition links_ok :: "('o, 'p, 'k) libbpf \<Rightarrow> ('k \<Rightarrow> string \<Rightarrow> bool) \<Rightarrow> ('k \<Rightarrow> int \<Rightarrow> int option) \<Rightarrow> bool" where
  "links_ok lib pinned attached \<longleftrightarrow>
     (\<forall>i fd k r k'. bpf_xdp_attach lib i fd (XDP_FLAGS_DRV_MODE OR XDP_FLAGS_UPDATE_IF_NOEXIST) k = (r, k') \<longrightarrow>
        pinned k' = pinned k \<and> (r = 0 \<longleftrightarrow> attached k i = None) \<and> attached k' = (if r = 0 then (attached k)(i := Some fd) else attached k))
     \<and> (\<forall>i k r k'. bpf_xdp_detach lib i XDP_FLAGS_DRV_MODE k = (r, k') \<longrightarrow>
        pinned k' = pinned k \<and> (attached k i \<noteq> None \<longrightarrow> r = 0) \<and> attached k' = (attached k)(i := None))"

definition libbpf_ok ::
  "('o, 'p, 'k) libbpf \<Rightarrow> ('k \<Rightarrow> string \<Rightarrow> bool) \<Rightarrow> ('k \<Rightarrow> int \<Rightarrow> int option) \<Rightarrow> string set \<Rightarrow> string \<Rightarrow> string \<Rightarrow> string \<Rightarrow> bool" where
  "libbpf_ok lib pinned attached maps filename prog_name path \<longleftrightarrow>
     file_ok lib pinned attached maps filename prog_name \<and> pins_ok lib pinned attached \<and> links_ok lib pinned attached
     \<and> path \<notin> map_pinpath ` maps"

section \<open>The effect of attaching and detaching\<close>

lemma map_pinpath_eq: "map_pinpath name = ''/sys/fs/bpf/'' @ name"
  by (simp add: map_pinpath_def)

lemma pin_law:
  assumes "pins_ok lib pinned attached" and "bpf_program_pin lib prog path k = (r, k')"
  shows "attached k' = attached k" and "r = 0 \<longleftrightarrow> \<not> pinned k path" and "pinned k' = (if r = 0 then (pinned k)(path := True) else pinned k)"
  using assms unfolding pins_ok_def by blast+

lemma unpin_law:
  assumes "pins_ok lib pinned attached" and "bpf_program_unpin lib prog path k = (r, k')"
  shows "attached k' = attached k" and "r = 0 \<longleftrightarrow> pinned k path" and "pinned k' = (if r = 0 then (pinned k)(path := False) else pinned k)"
  using assms unfolding pins_ok_def by blast+

lemma xdp_attach_law:
  assumes "links_ok lib pinned attached"
    and "bpf_xdp_attach lib i fd (XDP_FLAGS_DRV_MODE OR XDP_FLAGS_UPDATE_IF_NOEXIST) k = (r, k')"
  shows "pinned k' = pinned k" and "r = 0 \<longleftrightarrow> attached k i = None" and "attached k' = (if r = 0 then (attached k)(i := Some fd) else attached k)"
  using assms unfolding links_ok_def by blast+

lemma xdp_detach_law:
  assumes "links_ok lib pinned attached" and "bpf_xdp_detach lib i XDP_FLAGS_DRV_MODE k = (r, k')"
  shows "pinned k' = pinned k" and "attached k i \<noteq> None \<Longrightarrow> r = 0" and "attached k' = (attached k)(i := None)"
  using assms unfolding links_ok_def by blast+

lemma unpin_maps_obs:
  assumes "pins_ok lib pinned attached"
  shows "attached (unpin_maps lib obj names k) = attached k
    \<and> (\<forall>q. q \<notin> map_pinpath ` set names \<longrightarrow> pinned (unpin_maps lib obj names k) q = pinned k q)"
proof (induction names arbitrary: k)
  case (Cons n ns)
  obtain r k' where "bpf_map_unpin lib obj n (map_pinpath n) k = (r, k')" by fastforce
  moreover from this have "attached k' = attached k" "\<And>q. q \<noteq> map_pinpath n \<Longrightarrow> pinned k' q = pinned k q"
    using assms unfolding pins_ok_def by blast+
  ultimately show ?case using Cons [of k'] by auto
qed simp

text \<open>What is known of a freshly opened object.\<close>

lemma opened_obs:
  assumes "libbpf_ok lib pinned attached maps filename prog_name path" and "read_xdp_file lib filename k = (Some obj, k1)"
  obtains k2 prog where "bpf_load lib obj k1 = (0, k2)" "bpf_find_program lib obj prog_name k2 = Some prog" "attached k2 = attached k"
    "\<And>q. q \<notin> map_pinpath ` maps \<Longrightarrow> pinned k2 q = pinned k q" "\<And>k3. set (bpf_map_names lib obj k3) \<subseteq> maps"
proof -
  have "file_ok lib pinned attached maps filename prog_name" using assms(1) by (simp add: libbpf_ok_def)
  then obtain o' k1' k2 prog where "bpf_open_file lib filename k = (Some o', k1')" "bpf_load lib o' k1' = (0, k2)"
    "bpf_find_program lib o' prog_name k2 = Some prog" "attached k2 = attached k"
    "\<forall>q. q \<notin> map_pinpath ` maps \<longrightarrow> pinned k2 q = pinned k q" "\<forall>k3. set (bpf_map_names lib o' k3) \<subseteq> maps"
    unfolding file_ok_def by blast
  with assms(2) that [of k2 prog] show thesis by (simp add: read_xdp_file_def)
qed

lemma file_opens:
  assumes "libbpf_ok lib pinned attached maps filename prog_name path"
  obtains obj k1 where "read_xdp_file lib filename k = (Some obj, k1)" "attached k1 = attached k" "pinned k1 = pinned k"
  using assms unfolding libbpf_ok_def file_ok_def read_xdp_file_def by metis

text \<open>Attaching succeeds exactly when the path is not pinned and the interface has no program; in every case the path is pinned
  afterwards.\<close>

lemma attach_obs:
  assumes ok: "libbpf_ok lib pinned attached maps filename prog_name path" and o: "read_xdp_file lib filename k = (Some obj, k1)"
    and a: "attach_xdp lib obj prog_name ix (Some path) k1 = (r, k')"
  shows "r = (if \<not> pinned k path \<and> attached k ix = None then 0 else - 1)" and "pinned k' path"
    and "\<exists>fd. attached k' = (if r = 0 then (attached k)(ix := Some fd) else attached k)"
    and "\<And>q. q \<noteq> path \<Longrightarrow> q \<notin> map_pinpath ` maps \<Longrightarrow> pinned k' q = pinned k q"
proof -
  have path: "path \<notin> map_pinpath ` maps" and pins: "pins_ok lib pinned attached" and links: "links_ok lib pinned attached"
    using ok by (simp_all add: libbpf_ok_def)
  obtain k2 prog where k2: "bpf_load lib obj k1 = (0, k2)" "bpf_find_program lib obj prog_name k2 = Some prog" "attached k2 = attached k"
    "\<And>q. q \<notin> map_pinpath ` maps \<Longrightarrow> pinned k2 q = pinned k q" by (rule opened_obs [OF ok o]) blast
  obtain r3 k3 where k3: "bpf_program_pin lib prog path k2 = (r3, k3)" by fastforce
  have p: "attached k3 = attached k" "r3 = 0 \<longleftrightarrow> \<not> pinned k path" "pinned k3 = (if r3 = 0 then (pinned k2)(path := True) else pinned k2)"
    using pin_law [OF pins k3] k2(3) k2(4) [OF path] by simp_all
  obtain r4 k4 where k4: "bpf_xdp_attach lib ix (bpf_program_fd lib prog k3) (XDP_FLAGS_DRV_MODE OR XDP_FLAGS_UPDATE_IF_NOEXIST) k3 = (r4, k4)"
    by fastforce
  have l: "pinned k4 = pinned k3" "r4 = 0 \<longleftrightarrow> attached k ix = None"
    "attached k4 = (if r4 = 0 then (attached k)(ix := Some (bpf_program_fd lib prog k3)) else attached k)"
    using xdp_attach_law [OF links k4] p(1) by simp_all
  have e: "(r, k') = (if r3 \<noteq> 0 then (- 1, k3) else if r4 \<noteq> 0 then (- 1, k4) else (0, k4))"
    using a k2(1,2) k3 k4 by (auto simp: attach_xdp_def)
  show "r = (if \<not> pinned k path \<and> attached k ix = None then 0 else - 1)" using e p(2) l(2) by (auto split: if_splits)
  show "pinned k' path" using e p(2,3) l(1) k2(4) [OF path] by (auto split: if_splits)
  show "\<exists>fd. attached k' = (if r = 0 then (attached k)(ix := Some fd) else attached k)" using e p(1) l(3) by (auto split: if_splits)
  show "\<And>q. q \<noteq> path \<Longrightarrow> q \<notin> map_pinpath ` maps \<Longrightarrow> pinned k' q = pinned k q" using e p(3) l(1) k2(4) by (auto split: if_splits)
qed

text \<open>Detaching detaches exactly when the path is pinned; it is not pinned afterwards.\<close>

lemma detach_obs:
  assumes ok: "libbpf_ok lib pinned attached maps filename prog_name path" and o: "read_xdp_file lib filename k = (Some obj, k1)"
    and a: "detach_xdp lib obj prog_name ix (Some path) k1 = (r, k')"
  shows "\<not> pinned k path \<Longrightarrow> r = - 1" and "pinned k path \<Longrightarrow> attached k ix \<noteq> None \<Longrightarrow> r = 0" and "\<not> pinned k' path"
    and "attached k' = (if pinned k path then (attached k)(ix := None) else attached k)"
    and "\<And>q. q \<noteq> path \<Longrightarrow> q \<notin> map_pinpath ` maps \<Longrightarrow> pinned k' q = pinned k q"
proof -
  have path: "path \<notin> map_pinpath ` maps" and pins: "pins_ok lib pinned attached" and links: "links_ok lib pinned attached"
    using ok by (simp_all add: libbpf_ok_def)
  obtain k2 prog where k2: "bpf_load lib obj k1 = (0, k2)" "bpf_find_program lib obj prog_name k2 = Some prog" "attached k2 = attached k"
    "\<And>q. q \<notin> map_pinpath ` maps \<Longrightarrow> pinned k2 q = pinned k q" "\<And>k3. set (bpf_map_names lib obj k3) \<subseteq> maps"
    by (rule opened_obs [OF ok o]) blast
  obtain r3 k3 where k3: "bpf_program_unpin lib prog path k2 = (r3, k3)" by fastforce
  have p: "attached k3 = attached k" "r3 = 0 \<longleftrightarrow> pinned k path" "pinned k3 = (if r3 = 0 then (pinned k2)(path := False) else pinned k2)"
    using unpin_law [OF pins k3] k2(3) k2(4) [OF path] by simp_all
  define k4 where "k4 = unpin_maps lib obj (bpf_map_names lib obj k3) k3"
  have sub: "map_pinpath ` set (bpf_map_names lib obj k3) \<subseteq> map_pinpath ` maps" by (rule image_mono [OF k2(5)])
  note um = unpin_maps_obs [OF pins, of obj "bpf_map_names lib obj k3" k3, folded k4_def]
  have u: "attached k4 = attached k" "\<And>q. q \<notin> map_pinpath ` maps \<Longrightarrow> pinned k4 q = pinned k3 q"
    using um p(1) by simp (use um contra_subsetD [OF sub] in simp)
  obtain r5 k5 where k5: "bpf_xdp_detach lib ix XDP_FLAGS_DRV_MODE k4 = (r5, k5)" by fastforce
  have l: "pinned k5 = pinned k4" "attached k ix \<noteq> None \<longrightarrow> r5 = 0" "attached k5 = (attached k)(ix := None)"
    using xdp_detach_law [OF links k5] u(1) by simp_all
  have e: "(r, k') = (if r3 \<noteq> 0 then (- 1, k3) else if r5 \<noteq> 0 then (- 1, k5) else (0, k5))"
    using a k2(1,2) k3 k5 by (auto simp: detach_xdp_def k4_def)
  show "\<not> pinned k path \<Longrightarrow> r = - 1" using e p(2) by (auto split: if_splits)
  show "pinned k path \<Longrightarrow> attached k ix \<noteq> None \<Longrightarrow> r = 0" using e p(2) l(2) by (auto split: if_splits)
  show "\<not> pinned k' path" using e p(2,3) l(1) u(2) [OF path] k2(4) [OF path] by (auto split: if_splits)
  show "attached k' = (if pinned k path then (attached k)(ix := None) else attached k)" using e p(1,2) l(3) by (auto split: if_splits)
  show "\<And>q. q \<noteq> path \<Longrightarrow> q \<notin> map_pinpath ` maps \<Longrightarrow> pinned k' q = pinned k q"
    using e p(3) l(1) u(2) k2(4) by (auto split: if_splits)
qed

text \<open>Both, as every variant does when it starts: it fails only when the interface has a program and the path is not pinned, and then
  leaves the path pinned, so that the next start succeeds.\<close>

lemma reattach_obs:
  assumes ok: "libbpf_ok lib pinned attached maps filename prog_name path"
    and o1: "read_xdp_file lib filename k = (Some obj1, k1)" and d: "detach_xdp lib obj1 prog_name ix (Some path) k1 = (r1, k2)"
    and o2: "read_xdp_file lib filename k2 = (Some obj2, k3)" and a: "attach_xdp lib obj2 prog_name ix (Some path) k3 = (r, k')"
  shows "r = (if pinned k path \<or> attached k ix = None then 0 else - 1)" and "pinned k' path"
    and "\<exists>fd. attached k' = (if r = 0 then (attached k)(ix := Some fd) else attached k)"
    and "\<And>q. q \<noteq> path \<Longrightarrow> q \<notin> map_pinpath ` maps \<Longrightarrow> pinned k' q = pinned k q"
proof -
  note D = detach_obs [OF ok o1 d] and A = attach_obs [OF ok o2 a]
  show r: "r = (if pinned k path \<or> attached k ix = None then 0 else - 1)" using A(1) D(3,4) by auto
  show "pinned k' path" by (rule A(2))
  obtain fd where "attached k' = (if r = 0 then (attached k2)(ix := Some fd) else attached k2)" using A(3) by blast
  then have "attached k' = (if r = 0 then (attached k)(ix := Some fd) else attached k)" using D(4) r by (auto split: if_splits)
  then show "\<exists>fd. attached k' = (if r = 0 then (attached k)(ix := Some fd) else attached k)" by blast
  show "\<And>q. q \<noteq> path \<Longrightarrow> q \<notin> map_pinpath ` maps \<Longrightarrow> pinned k' q = pinned k q" using A(4) D(5) by simp
qed

section \<open>An instance\<close>

text \<open>A system with a set of pins and one program per interface; an object is its only program, loading it pins no maps.\<close>

record demo_host =
  h_pins :: "string \<Rightarrow> bool"
  h_progs :: "int \<Rightarrow> int option"

definition demo_libbpf :: "(string, string, demo_host) libbpf" where
  "demo_libbpf =
     \<lparr>bpf_open_file = \<lambda>f k. (Some f, k), bpf_load = \<lambda>obj k. (0, k), bpf_find_program = \<lambda>obj n k. Some n,
      bpf_program_pin = \<lambda>prog path k. if h_pins k path then (- 17, k) else (0, k\<lparr>h_pins := (h_pins k)(path := True)\<rparr>),
      bpf_program_unpin = \<lambda>prog path k. if h_pins k path then (0, k\<lparr>h_pins := (h_pins k)(path := False)\<rparr>) else (- 2, k),
      bpf_program_fd = \<lambda>prog k. 5,
      bpf_xdp_attach = \<lambda>i fd f k. if h_progs k i = None then (0, k\<lparr>h_progs := (h_progs k)(i := Some fd)\<rparr>) else (- 16, k),
      bpf_xdp_detach = \<lambda>i f k. (0, k\<lparr>h_progs := (h_progs k)(i := None)\<rparr>),
      bpf_map_names = \<lambda>obj k. [''last_payload'', ''lck''], bpf_map_unpin = \<lambda>obj n path k. (- 2, k),
      bpf_find_map_fd = \<lambda>obj n k. 7, bpf_mmap = \<lambda>fd n k. Some 4096\<rparr>"

definition demo_host0 :: demo_host where
  "demo_host0 = \<lparr>h_pins = \<lambda>_. False, h_progs = \<lambda>_. None\<rparr>"

lemma demo_libbpf_ok:
  assumes "path \<notin> map_pinpath ` {''last_payload'', ''lck''}"
  shows "libbpf_ok demo_libbpf h_pins h_progs {''last_payload'', ''lck''} filename prog_name path"
  using assms by (auto simp: libbpf_ok_def file_ok_def pins_ok_def links_ok_def demo_libbpf_def)

end
