(* ===== verification/Args.thy ===== *)
theory Args
  imports Persistence
begin

text \<open>
  The command lines (\<^verbatim>\<open>no-bypass/src/args.c\<close>, \<^verbatim>\<open>xdp/src/args.c\<close>, \<^verbatim>\<open>rdma/src/args.c\<close>), each parser in its server and its
  client build. \<open>getopt\<close> is the stream of values that successive calls of \<^verbatim>\<open>getopt_long\<close> return, with \<^verbatim>\<open>optarg\<close>: clusters
  of short options, attached and separate arguments, long options with unambiguous abbreviations, operands skipped,
  \<^verbatim>\<open>--\<close> ending the options, and \<^verbatim>\<open>?\<close> for an unknown option or a missing argument. \<open>atoi\<close> and \<open>atoll\<close> are the C library's:
  they read as far as there are digits, and saturate at the range of \<^verbatim>\<open>long long\<close>; \<open>atoi\<close> keeps the low 32 bits.

  The out-parameters of all parsers are the fields of one record; a parser returns whether it accepted the command line
  and the record as it left it.
\<close>

section \<open>Definitions\<close>

subsection \<open>The C library\<close>

definition strtoll :: "string \<Rightarrow> int" where
  "strtoll s =
     (let s1 = dropWhile is_blank s;
          neg = (s1 \<noteq> [] \<and> hd s1 = CHR ''-'');
          s2 = (if s1 \<noteq> [] \<and> (hd s1 = CHR ''-'' \<or> hd s1 = CHR ''+'') then tl s1 else s1);
          v = int (read_nat (takeWhile is_digit s2))
      in if neg then max (- (2 ^ 63)) (- v) else min (2 ^ 63 - 1) v)"

definition atoll :: "string \<Rightarrow> int" where "atoll s = strtoll s"
definition atoi :: "string \<Rightarrow> int" where "atoi s = signed_take_bit 31 (strtoll s)"

datatype has_arg = No_argument | Required_argument

type_synonym long_option = "string \<times> has_arg \<times> char"

fun short_option :: "string \<Rightarrow> char \<Rightarrow> has_arg option" where
  "short_option [] c = None"
| "short_option (x # xs) c =
     (if x = c \<and> c \<noteq> CHR '':'' then Some (if xs \<noteq> [] \<and> hd xs = CHR '':'' then Required_argument else No_argument)
      else short_option xs c)"

definition long_option :: "long_option list \<Rightarrow> string \<Rightarrow> (has_arg \<times> char) option" where
  "long_option lo name =
     (case map_of lo name of
        Some r \<Rightarrow> Some r
      | None \<Rightarrow> (case [r. (n, r) \<leftarrow> lo, take (length name) n = name] of [r] \<Rightarrow> Some r | _ \<Rightarrow> None))"

definition arg_weight :: "string list \<Rightarrow> nat" where
  "arg_weight args = sum_list (map (\<lambda>a. Suc (length a)) args)"

lemma arg_weight_simps [simp]: "arg_weight [] = 0" "arg_weight (a # args) = Suc (length a + arg_weight args)"
  by (simp_all add: arg_weight_def)

text \<open>The first string is what is left of a cluster of short options.\<close>

function getopt :: "string \<Rightarrow> long_option list \<Rightarrow> string \<Rightarrow> string list \<Rightarrow> (char \<times> string) list" where
  "getopt os lo [] [] = []"
| "getopt os lo [] (a # args) =
     (if a = ''--'' then []
      else if take 2 a = ''--'' then
        let name = takeWhile (\<lambda>c. c \<noteq> CHR ''='') (drop 2 a); eq = CHR ''='' \<in> set a;
            val = tl (dropWhile (\<lambda>c. c \<noteq> CHR ''='') (drop 2 a)) in
        (case long_option lo name of
           None \<Rightarrow> (CHR ''?'', []) # getopt os lo [] args
         | Some (No_argument, c) \<Rightarrow> (if eq then (CHR ''?'', []) else (c, [])) # getopt os lo [] args
         | Some (Required_argument, c) \<Rightarrow>
             (if eq then (c, val) # getopt os lo [] args
              else (case args of [] \<Rightarrow> [(CHR ''?'', [])] | v # args' \<Rightarrow> (c, v) # getopt os lo [] args')))
      else if take 1 a = ''-'' \<and> tl a \<noteq> [] then getopt os lo (tl a) args
      else getopt os lo [] args)"
| "getopt os lo (c # cs) args =
     (case short_option os c of
        None \<Rightarrow> (CHR ''?'', []) # getopt os lo cs args
      | Some No_argument \<Rightarrow> (c, []) # getopt os lo cs args
      | Some Required_argument \<Rightarrow>
          (if cs \<noteq> [] then (c, cs) # getopt os lo [] args
           else (case args of [] \<Rightarrow> [(CHR ''?'', [])] | v # args' \<Rightarrow> (c, v) # getopt os lo [] args')))"
  by pat_completeness auto
termination
  by (relation "measure (\<lambda>(os, lo, cs, args). length cs + arg_weight args)") auto

subsection \<open>The parsers\<close>

record opts =
  o_dev :: "string option"
  o_remove :: bool
  o_gidx :: int
  o_iters :: u64
  o_interval :: u64
  o_server_ip :: "string option"
  o_pers_flags :: u32

definition set_flags :: "string \<Rightarrow> opts \<Rightarrow> opts" where
  "set_flags a op = op\<lparr>o_pers_flags := word_of_int (pers_measurement_to_flag (atoi a))\<rparr>"

fun nobypass_server_loop :: "(char \<times> string) list \<Rightarrow> opts \<Rightarrow> bool \<times> opts" where
  "nobypass_server_loop [] op = (True, op)"
| "nobypass_server_loop ((c, a) # r) op =
     (if c = CHR ''p'' then nobypass_server_loop r (op\<lparr>o_iters := word_of_int (atoll a)\<rparr>)
      else if c = CHR ''h'' then (False, op)
      else (False, op))"

definition nobypass_server_parse_args :: "string list \<Rightarrow> opts \<Rightarrow> bool \<times> opts" where
  "nobypass_server_parse_args argv op =
     (case nobypass_server_loop
         (getopt ''p:h'' [(''packets'', Required_argument, CHR ''p''), (''help'', No_argument, CHR ''h'')] [] argv)
         (op\<lparr>o_iters := 0\<rparr>) of
        (False, op) \<Rightarrow> (False, op)
      | (True, op) \<Rightarrow> if o_iters op = 0 then (False, op) else (True, op))"

fun nobypass_client_loop :: "(char \<times> string) list \<Rightarrow> opts \<Rightarrow> bool \<times> opts" where
  "nobypass_client_loop [] op = (True, op)"
| "nobypass_client_loop ((c, a) # r) op =
     (if c = CHR ''p'' then nobypass_client_loop r (op\<lparr>o_iters := word_of_int (atoll a)\<rparr>)
      else if c = CHR ''i'' then nobypass_client_loop r (op\<lparr>o_interval := word_of_int (atoi a)\<rparr>)
      else if c = CHR ''s'' then nobypass_client_loop r (op\<lparr>o_server_ip := Some a\<rparr>)
      else if c = CHR ''h'' then (False, op)
      else if c = CHR ''m'' then nobypass_client_loop r (set_flags a op)
      else (False, op))"

definition nobypass_client_long_options :: "long_option list" where
  "nobypass_client_long_options =
     [(''packets'', Required_argument, CHR ''p''), (''interval'', Required_argument, CHR ''i''),
      (''server'', Required_argument, CHR ''s''), (''help'', No_argument, CHR ''h''),
      (''measurement'', Required_argument, CHR ''m'')]"

definition nobypass_client_parse_args :: "string list \<Rightarrow> opts \<Rightarrow> bool \<times> opts" where
  "nobypass_client_parse_args argv op =
     (case nobypass_client_loop (getopt ''p:i:s:hm:'' nobypass_client_long_options [] argv)
         (op\<lparr>o_iters := 0, o_interval := 0, o_server_ip := None\<rparr>) of
        (False, op) \<Rightarrow> (False, op)
      | (True, op) \<Rightarrow>
          if o_iters op = 0 \<or> o_interval op = 0 \<or> o_server_ip op = None then (False, op) else (True, op))"

fun xdp_server_loop :: "(char \<times> string) list \<Rightarrow> opts \<Rightarrow> bool \<times> opts" where
  "xdp_server_loop [] op = (True, op)"
| "xdp_server_loop ((c, a) # r) op =
     (if c = CHR ''d'' then xdp_server_loop r (op\<lparr>o_dev := Some a\<rparr>)
      else if c = CHR ''p'' then xdp_server_loop r (op\<lparr>o_iters := word_of_int (atoll a)\<rparr>)
      else if c = CHR ''r'' then xdp_server_loop r (op\<lparr>o_remove := True\<rparr>)
      else if c = CHR ''h'' then (False, op)
      else (False, op))"

definition xdp_server_long_options :: "long_option list" where
  "xdp_server_long_options =
     [(''remove'', No_argument, CHR ''r''), (''dev'', Required_argument, CHR ''d''),
      (''packets'', Required_argument, CHR ''p''), (''help'', No_argument, CHR ''h'')]"

definition xdp_server_parse_args :: "string list \<Rightarrow> opts \<Rightarrow> bool \<times> opts" where
  "xdp_server_parse_args argv op =
     (case xdp_server_loop (getopt ''d:p:r:h'' xdp_server_long_options [] argv) (op\<lparr>o_iters := 0, o_remove := False\<rparr>) of
        (False, op) \<Rightarrow> (False, op)
      | (True, op) \<Rightarrow> if o_dev op = None \<or> (\<not> o_remove op \<and> o_iters op = 0) then (False, op) else (True, op))"

fun xdp_client_loop :: "(char \<times> string) list \<Rightarrow> opts \<Rightarrow> bool \<times> opts" where
  "xdp_client_loop [] op = (True, op)"
| "xdp_client_loop ((c, a) # r) op =
     (if c = CHR ''d'' then xdp_client_loop r (op\<lparr>o_dev := Some a\<rparr>)
      else if c = CHR ''p'' then xdp_client_loop r (op\<lparr>o_iters := word_of_int (atoll a)\<rparr>)
      else if c = CHR ''i'' then xdp_client_loop r (op\<lparr>o_interval := word_of_int (atoi a)\<rparr>)
      else if c = CHR ''s'' then xdp_client_loop r (op\<lparr>o_server_ip := Some a\<rparr>)
      else if c = CHR ''r'' then xdp_client_loop r (op\<lparr>o_remove := True\<rparr>)
      else if c = CHR ''h'' then (False, op)
      else if c = CHR ''m'' then xdp_client_loop r (set_flags a op)
      else (False, op))"

definition xdp_client_long_options :: "long_option list" where
  "xdp_client_long_options =
     [(''remove'', No_argument, CHR ''r''), (''dev'', Required_argument, CHR ''d''),
      (''packets'', Required_argument, CHR ''p''), (''interval'', Required_argument, CHR ''i''),
      (''server'', Required_argument, CHR ''s''), (''measurement'', Required_argument, CHR ''m''),
      (''help'', No_argument, CHR ''h'')]"

definition xdp_client_parse_args :: "string list \<Rightarrow> opts \<Rightarrow> bool \<times> opts" where
  "xdp_client_parse_args argv op =
     (case xdp_client_loop (getopt ''d:p:i:s:r:hm:'' xdp_client_long_options [] argv)
         (op\<lparr>o_iters := 0, o_interval := 0, o_remove := False\<rparr>) of
        (False, op) \<Rightarrow> (False, op)
      | (True, op) \<Rightarrow>
          if o_dev op = None \<or> (\<not> o_remove op \<and> (o_iters op = 0 \<or> o_interval op = 0 \<or> o_server_ip op = None))
          then (False, op) else (True, op))"

fun ib_server_loop :: "(char \<times> string) list \<Rightarrow> opts \<Rightarrow> bool \<times> opts" where
  "ib_server_loop [] op = (True, op)"
| "ib_server_loop ((c, a) # r) op =
     (if c = CHR ''d'' then ib_server_loop r (op\<lparr>o_dev := Some a\<rparr>)
      else if c = CHR ''g'' then ib_server_loop r (op\<lparr>o_gidx := atoi a\<rparr>)
      else if c = CHR ''p'' then ib_server_loop r (op\<lparr>o_iters := word_of_int (atoll a)\<rparr>)
      else if c = CHR ''h'' then (False, op)
      else (False, op))"

definition ib_server_long_options :: "long_option list" where
  "ib_server_long_options =
     [(''dev'', Required_argument, CHR ''d''), (''gidx'', Required_argument, CHR ''g''),
      (''packets'', Required_argument, CHR ''p''), (''help'', No_argument, CHR ''h'')]"

definition ib_server_parse_args :: "string list \<Rightarrow> opts \<Rightarrow> bool \<times> opts" where
  "ib_server_parse_args argv op =
     (case ib_server_loop (getopt ''d:g:p:h'' ib_server_long_options [] argv) (op\<lparr>o_iters := 0\<rparr>) of
        (False, op) \<Rightarrow> (False, op)
      | (True, op) \<Rightarrow> if o_iters op = 0 \<or> o_dev op = None \<or> o_gidx op < 0 then (False, op) else (True, op))"

fun ib_client_loop :: "(char \<times> string) list \<Rightarrow> opts \<Rightarrow> bool \<times> opts" where
  "ib_client_loop [] op = (True, op)"
| "ib_client_loop ((c, a) # r) op =
     (if c = CHR ''d'' then ib_client_loop r (op\<lparr>o_dev := Some a\<rparr>)
      else if c = CHR ''g'' then ib_client_loop r (op\<lparr>o_gidx := atoi a\<rparr>)
      else if c = CHR ''p'' then ib_client_loop r (op\<lparr>o_iters := word_of_int (atoll a)\<rparr>)
      else if c = CHR ''i'' then ib_client_loop r (op\<lparr>o_interval := word_of_int (atoi a)\<rparr>)
      else if c = CHR ''s'' then ib_client_loop r (op\<lparr>o_server_ip := Some a\<rparr>)
      else if c = CHR ''h'' then (False, op)
      else if c = CHR ''m'' then ib_client_loop r (set_flags a op)
      else (False, op))"

definition ib_client_long_options :: "long_option list" where
  "ib_client_long_options =
     [(''dev'', Required_argument, CHR ''d''), (''gidx'', Required_argument, CHR ''g''),
      (''packets'', Required_argument, CHR ''p''), (''interval'', Required_argument, CHR ''i''),
      (''server'', Required_argument, CHR ''s''), (''help'', No_argument, CHR ''h''),
      (''measurement'', Required_argument, CHR ''m'')]"

definition ib_client_parse_args :: "string list \<Rightarrow> opts \<Rightarrow> bool \<times> opts" where
  "ib_client_parse_args argv op =
     (case ib_client_loop (getopt ''d:g:p:i:s:hm:'' ib_client_long_options [] argv)
         (op\<lparr>o_iters := 0, o_interval := 0, o_server_ip := None\<rparr>) of
        (False, op) \<Rightarrow> (False, op)
      | (True, op) \<Rightarrow> if o_iters op = 0 \<or> o_dev op = None \<or> o_gidx op < 0 then (False, op) else (True, op))"

section \<open>Numbers on the command line\<close>

lemma takeWhile_digits: "takeWhile is_digit (show_nat n) = show_nat n"
  using show_nat_digits by (simp add: takeWhile_eq_all_conv)

lemma show_nat_start: "show_nat n \<noteq> []" "is_digit (hd (show_nat n))"
proof -
  show ne: "show_nat n \<noteq> []" by (simp add: show_nat.simps [of n])
  show "is_digit (hd (show_nat n))" using show_nat_digits hd_in_set [OF ne] by blast
qed

lemma digit_not_special: "is_digit d \<Longrightarrow> \<not> is_blank d \<and> d \<noteq> CHR ''-'' \<and> d \<noteq> CHR ''+''"
  by (auto simp: is_digit_def is_blank_def)

lemma strtoll_show_nat: "strtoll (show_nat n) = min (2 ^ 63 - 1) (int n)"
proof -
  note special = digit_not_special [OF show_nat_start(2) [of n]]
  then have "dropWhile is_blank (show_nat n) = show_nat n" using show_nat_start(1) [of n] by (cases "show_nat n") simp_all
  with special show ?thesis by (simp add: strtoll_def Let_def takeWhile_digits)
qed

lemma atoll_show_nat: "n < 2 ^ 63 \<Longrightarrow> atoll (show_nat n) = int n"
  by (simp add: atoll_def strtoll_show_nat)

lemma atoi_show_nat: "n < 2 ^ 31 \<Longrightarrow> atoi (show_nat n) = int n"
proof -
  assume n: "n < 2 ^ 31"
  then have "int n < 2 ^ 31" by (simp add: of_nat_less_numeral_power_cancel_iff)
  then have "signed_take_bit 31 (int n) = int n" by (intro signed_take_bit_int_eq_self) simp_all
  then show ?thesis using n by (simp add: atoi_def strtoll_show_nat)
qed

section \<open>Properties\<close>

lemma client_args_parse:
  assumes "0 < n" "n < 2 ^ 63" "0 < i" "i < 2 ^ 31" "m < 2 ^ 31"
  shows "nobypass_client_parse_args [''-p'', show_nat n, ''-i'', show_nat i, ''-s'', ip, ''-m'', show_nat m] op
    = (True, op\<lparr>o_iters := of_nat n, o_interval := of_nat i, o_server_ip := Some ip,
        o_pers_flags := word_of_int (pers_measurement_to_flag (int m))\<rparr>)"
proof -
  have nz: "(of_nat n :: u64) \<noteq> 0" "(of_nat i :: u64) \<noteq> 0"
    using assms(1-4) by (auto simp: word_of_nat_eq_0_iff dest!: dvd_imp_le)
  show ?thesis
    by (simp add: nobypass_client_parse_args_def atoll_show_nat [OF assms(2)] atoi_show_nat [OF assms(4)] atoi_show_nat [OF assms(5)] nz set_flags_def)
qed

lemma xdp_client_args_parse:
  assumes "0 < n" "n < 2 ^ 63" "0 < i" "i < 2 ^ 31" "m < 2 ^ 31"
  shows "xdp_client_parse_args [''-d'', dev, ''-p'', show_nat n, ''-i'', show_nat i, ''-s'', ip, ''-m'', show_nat m] op
    = (True, op\<lparr>o_iters := of_nat n, o_interval := of_nat i, o_server_ip := Some ip,
        o_pers_flags := word_of_int (pers_measurement_to_flag (int m)), o_dev := Some dev, o_remove := False\<rparr>)"
proof -
  have nz: "(of_nat n :: u64) \<noteq> 0" "(of_nat i :: u64) \<noteq> 0"
    using assms(1-4) by (auto simp: word_of_nat_eq_0_iff dest!: dvd_imp_le)
  note nums = atoll_show_nat [OF assms(2)] atoi_show_nat [OF assms(4)] atoi_show_nat [OF assms(5)]
  show ?thesis by (simp add: xdp_client_parse_args_def nums nz set_flags_def)
qed

lemma ib_client_args_parse:
  assumes "0 < n" "n < 2 ^ 63" "0 < i" "i < 2 ^ 31" "m < 2 ^ 31" "g < 2 ^ 31"
  shows "ib_client_parse_args [''--dev'', dev, ''-g'', show_nat g, ''-p'', show_nat n, ''-i'', show_nat i, ''-s'', ip, ''-m'', show_nat m] op
    = (True, op\<lparr>o_iters := of_nat n, o_interval := of_nat i, o_server_ip := Some ip,
        o_pers_flags := word_of_int (pers_measurement_to_flag (int m)), o_dev := Some dev, o_gidx := int g\<rparr>)"
proof -
  have nz: "(of_nat n :: u64) \<noteq> 0" "(of_nat i :: u64) \<noteq> 0"
    using assms(1-4) by (auto simp: word_of_nat_eq_0_iff dest!: dvd_imp_le)
  show ?thesis
    by (simp add: ib_client_parse_args_def atoll_show_nat [OF assms(2)] atoi_show_nat [OF assms(4)] atoi_show_nat [OF assms(5)]
        atoi_show_nat [OF assms(6)] nz set_flags_def long_option_def ib_client_long_options_def)
qed

text \<open>a well-formed command line of a client is read back as written. For every number of packets below \<open>2 ^ 63\<close> and interval
  and index below \<open>2 ^ 31\<close>, the three parsers accept the decimal rendering of the values and leave exactly these values in
  their out-parameters; nothing else is changed.\<close>

theorem client_args_roundtrip:
  assumes "0 < n" "n < 2 ^ 63" "0 < i" "i < 2 ^ 31" "g < 2 ^ 31" "m < 2 ^ 31"
    and "res = op\<lparr>o_iters := of_nat n, o_interval := of_nat i, o_server_ip := Some ip,
        o_pers_flags := word_of_int (pers_measurement_to_flag (int m))\<rparr>"
  shows "nobypass_client_parse_args [''-p'', show_nat n, ''-i'', show_nat i, ''-s'', ip, ''-m'', show_nat m] op = (True, res)
    \<and> xdp_client_parse_args [''-d'', dev, ''-p'', show_nat n, ''-i'', show_nat i, ''-s'', ip, ''-m'', show_nat m] op
      = (True, res\<lparr>o_dev := Some dev, o_remove := False\<rparr>)
    \<and> ib_client_parse_args [''--dev'', dev, ''-g'', show_nat g, ''-p'', show_nat n, ''-i'', show_nat i, ''-s'', ip, ''-m'', show_nat m] op
      = (True, res\<lparr>o_dev := Some dev, o_gidx := int g\<rparr>)"
  using client_args_parse [OF assms(1-4,6)] xdp_client_args_parse [OF assms(1-4,6)] ib_client_args_parse [OF assms(1-4,6,5)]
  by (simp add: assms(7))

definition no_opts :: opts where
  "no_opts = \<lparr>o_dev = None, o_remove = False, o_gidx = 0, o_iters = 0, o_interval = 0, o_server_ip = None, o_pers_flags = 4\<rparr>"

theorem client_args_roundtrip_witness:
  "xdp_client_parse_args [''-d'', ''eth0'', ''-p'', show_nat 100, ''-i'', show_nat 500, ''-s'', ''10.0.0.1'', ''-m'', show_nat 2] no_opts
   = (True, \<lparr>o_dev = Some ''eth0'', o_remove = False, o_gidx = 0, o_iters = 100, o_interval = 500, o_server_ip = Some ''10.0.0.1'',
       o_pers_flags = word_of_int (pers_measurement_to_flag 2)\<rparr>)"
  using client_args_roundtrip [of 100 500 0 2, OF _ _ _ _ _ _ refl, where op = no_opts and ip = "''10.0.0.1''" and dev = "''eth0''"]
  by (simp add: no_opts_def)

text \<open>the interval has 32 bits on the command line. The clients store the value of \<^verbatim>\<open>atoi\<close> in a 64-bit variable: an interval of
  \<open>i\<close> nanoseconds is used as the sign-extended low 32 bits of \<open>i\<close>, and is rejected as if it were missing when these are zero.\<close>

theorem client_interval_truncated:
  assumes "0 < n" "n < 2 ^ 63" "i < 2 ^ 63" and "t = signed_take_bit 31 (int i)"
  shows "nobypass_client_parse_args [''-p'', show_nat n, ''-i'', show_nat i, ''-s'', ip] op
    = (t \<noteq> 0, op\<lparr>o_iters := of_nat n, o_interval := word_of_int t, o_server_ip := Some ip\<rparr>)"
proof -
  have nz: "(of_nat n :: u64) \<noteq> 0" using assms(1,2) by (auto simp: word_of_nat_eq_0_iff dest!: dvd_imp_le)
  have atoi: "atoi (show_nat i) = t" using assms(3,4) by (simp add: atoi_def strtoll_show_nat)
  have t: "- (2 ^ 31) \<le> t" "t < 2 ^ 31"
    using assms(4) signed_take_bit_int_greater_eq_minus_exp [of 31 "int i"] signed_take_bit_int_less_exp [of 31 "int i"] by simp_all
  have "(word_of_int t :: u64) = 0 \<longleftrightarrow> t = 0"
  proof
    assume "(word_of_int t :: u64) = 0"
    then have "2 ^ 64 dvd t" by (simp add: word_of_int_eq_0_iff)
    with t show "t = 0" by (auto dest: zdvd_imp_le simp: zdvd_not_zless abs_le_iff elim!: dvdE)
  qed simp
  then show ?thesis by (simp add: nobypass_client_parse_args_def atoll_show_nat [OF assms(2)] atoi nz)
qed

theorem client_interval_truncated_witness:
  "fst (nobypass_client_parse_args [''-p'', show_nat 10, ''-i'', show_nat 4294967296, ''-s'', ''10.0.0.1''] no_opts) = False
   \<and> o_interval (snd (nobypass_client_parse_args [''-p'', show_nat 10, ''-i'', show_nat 3000000000, ''-s'', ''10.0.0.1''] no_opts))
     = 18446744072414584320"
  using client_interval_truncated [of 10 4294967296, OF _ _ _ refl, of "''10.0.0.1''" no_opts]
    client_interval_truncated [of 10 3000000000, OF _ _ _ refl, of "''10.0.0.1''" no_opts]
  by simp

text \<open>the two spellings of the remove flag differ. \<^verbatim>\<open>--remove\<close> is a flag, as documented; \<^verbatim>\<open>-r\<close> takes an argument, so in \<^verbatim>\<open>-r -d dev\<close>
  it consumes the \<^verbatim>\<open>-d\<close> and the command line is rejected for want of an interface.\<close>

theorem xdp_short_remove_takes_argument:
  "xdp_server_parse_args [''--remove'', ''-d'', dev] op = (True, op\<lparr>o_iters := 0, o_remove := True, o_dev := Some dev\<rparr>)
   \<and> xdp_server_parse_args [''-d'', dev, ''-r'', x] op = (True, op\<lparr>o_iters := 0, o_remove := True, o_dev := Some dev\<rparr>)
   \<and> fst (xdp_server_parse_args [''-r'', ''-d'', ''eth0''] (op\<lparr>o_dev := None\<rparr>)) = False"
  by (simp add: xdp_server_parse_args_def xdp_server_long_options_def long_option_def)

end
