(* ===== verification/Xdp_Main.thy ===== *)
theory Xdp_Main
  imports Xdp_Load Pp_Poll Pp_Pure Xsk Args
begin

text \<open>
  The \<^verbatim>\<open>main\<close> functions of the three XDP variants (\<^verbatim>\<open>xdp/pp_poll.c\<close>, \<^verbatim>\<open>xdp/pp_pure.c\<close>, \<^verbatim>\<open>xdp/pp_sock.c\<close>), each in its server and its client
  build: parsing the arguments, removing and attaching the eBPF program, exchanging addresses, and starting the loop.
\<close>

section \<open>Definitions\<close>

text \<open>What the system answers: \<^verbatim>\<open>if_nametoindex\<close> (0 when there is no such interface), the address exchange with the uninitialised
  buffer it uses, an uninitialised socket address, allocations, the raw socket, and \<^verbatim>\<open>pthread_create\<close>.\<close>

record main_env =
  me_ifindex :: "string \<Rightarrow> int"
  me_if :: if_env
  me_xchg :: xchg_env
  me_junk :: bytes
  me_sockaddr :: sockaddr_ll
  me_world :: world
  me_init :: init_env
  me_socket :: int
  me_malloc :: bool
  me_pthread_create :: int

definition name_index :: "'a main_env_scheme \<Rightarrow> string option \<Rightarrow> int" where
  "name_index env name = (case name of None \<Rightarrow> 0 | Some d \<Rightarrow> me_ifindex env d)"

text \<open>The options before parsing: \<^verbatim>\<open>remove\<close> is set by the parsers, the measurement is all time stamps.\<close>

definition main_opts :: "string option \<Rightarrow> opts" where
  "main_opts ifname = \<lparr>o_dev = ifname, o_remove = False, o_gidx = 0, o_iters = 0, o_interval = 0, o_server_ip = None,
     o_pers_flags = PERSISTENCE_M_ALL_TIMESTAMPS\<rparr>"

subsection \<open>Polling\<close>

definition poll_filename :: string where "poll_filename = ''pingpong.o''"
definition poll_prog_name :: string where "poll_prog_name = ''xdp_main''"
definition poll_pinpath :: string where "poll_pinpath = ''/sys/fs/bpf/xdp_pingpong''"
definition poll_mapname :: string where "poll_mapname = ''last_payload''"
definition poll_outfile :: string where "poll_outfile = ''pingpong.dat''"

text \<open>The second component of the result is the new value of \<^verbatim>\<open>loaded_xdp_obj\<close>, unless the file could not be opened.\<close>

definition attach_pingpong_xdp :: "('o, 'p, 'k) libbpf \<Rightarrow> int \<Rightarrow> 'k \<Rightarrow> int \<times> 'o option \<times> 'k" where
  "attach_pingpong_xdp lib ifindex k =
     (case read_xdp_file lib poll_filename k of
        (None, k) \<Rightarrow> (- 1, None, k)
      | (Some obj, k) \<Rightarrow>
          (case attach_xdp lib obj poll_prog_name ifindex (Some poll_pinpath) k of
             (ret, k) \<Rightarrow> if ret \<noteq> 0 then (- 1, Some obj, k) else (ret, Some obj, k)))"

definition detach_pingpong_xdp :: "('o, 'p, 'k) libbpf \<Rightarrow> int \<Rightarrow> 'k \<Rightarrow> int \<times> 'k" where
  "detach_pingpong_xdp lib ifindex k =
     (case read_xdp_file lib poll_filename k of
        (None, k) \<Rightarrow> (- 1, k)
      | (Some obj, k) \<Rightarrow> detach_xdp lib obj poll_prog_name ifindex (Some poll_pinpath) k)"

text \<open>\<^verbatim>\<open>start_pingpong\<close> up to the call of the loop: the base packet and the peer's address, or nothing when it returns early.\<close>

definition start_pingpong ::
  "main_env \<Rightarrow> ('o, 'p, 'k) libbpf \<Rightarrow> 'o \<Rightarrow> int \<Rightarrow> bool \<Rightarrow> 'k \<Rightarrow> (bytes \<times> sockaddr_ll) option" where
  "start_pingpong env lib loaded_xdp_obj ifindex is_server k =
     (case exchange_eth_ip_addresses (me_if env) (me_xchg env) ifindex is_server (me_junk env)
         \<lparr>a_src_mac = replicate ETH_ALEN 0, a_dest_mac = replicate ETH_ALEN 0, a_src_ip = 0, a_dest_ip = 0\<rparr> of
        (ret, a, _) \<Rightarrow>
          if ret < 0 then None
          else
            (case mmap_bpf_map lib loaded_xdp_obj poll_mapname (payload_size * PACKETS_MAP_SIZE) k of
               None \<Rightarrow> None
             | Some map_ptr \<Rightarrow>
                 (case build_base_packet (replicate PACKET_SIZE 0) (a_src_mac a) (a_dest_mac a) (a_src_ip a) (a_dest_ip a) of
                    (ret, buf) \<Rightarrow>
                      if ret < 0 then None else Some (buf, build_sockaddr (me_sockaddr env) ifindex (a_dest_mac a)))))"

text \<open>Removing what an earlier run left behind, then attaching. The result of the removal is ignored.\<close>

definition poll_attach :: "('o, 'p, 'k) libbpf \<Rightarrow> int \<Rightarrow> 'k \<Rightarrow> int \<times> 'o option \<times> 'k" where
  "poll_attach lib ifindex k = attach_pingpong_xdp lib ifindex (snd (detach_pingpong_xdp lib ifindex k))"

definition poll_remove :: "('o, 'p, 'k) libbpf \<Rightarrow> int \<Rightarrow> 'k \<Rightarrow> int \<times> 'k" where
  "poll_remove lib ifindex k =
     (case detach_pingpong_xdp lib ifindex k of (ret, k) \<Rightarrow> if ret \<noteq> 0 then (EXIT_FAILURE, k) else (EXIT_SUCCESS, k))"

text \<open>\<open>ring\<close> is what the mapped memory and the lock element hold when the loop starts. \<^verbatim>\<open>ifname\<close> starts as the first argument.\<close>

definition poll_main_server ::
  "main_env \<Rightarrow> ('o, 'p, 'k) libbpf \<Rightarrow> xdp_maps \<Rightarrow> string list \<Rightarrow> 'k \<Rightarrow> (u64 \<times> poll_server) main_out \<times> 'k" where
  "poll_main_server env lib ring argv k =
     (case xdp_server_parse_args argv (main_opts (case argv of [] \<Rightarrow> None | a # _ \<Rightarrow> Some a)) of
        (ok, op) \<Rightarrow>
          if \<not> ok then (Exit EXIT_FAILURE, k)
          else
            let ifindex = name_index env (o_dev op) in
            if ifindex = 0 then (Exit EXIT_FAILURE, k)
            else if o_remove op then (case poll_remove lib ifindex k of (r, k) \<Rightarrow> (Exit r, k))
            else
              (case poll_attach lib ifindex k of
                 (ret, obj, k) \<Rightarrow>
                   if ret \<noteq> 0 then (Exit EXIT_FAILURE, k)
                   else
                     (case obj of
                        None \<Rightarrow> (Undefined, k)
                      | Some obj \<Rightarrow>
                          (case start_pingpong env lib obj ifindex True k of
                             None \<Rightarrow> (Exit EXIT_SUCCESS, k)
                           | Some (buf, _) \<Rightarrow> (Run (o_iters op, (server_start buf (me_world env))\<lparr>sv_maps := ring\<rparr>), k)))))"

text \<open>The client build. The interval passes through a 32-bit parameter of \<^verbatim>\<open>start_pingpong\<close>. With the client loop starts the sender
  thread, whose data is part of the result.\<close>

definition poll_start_client ::
  "main_env \<Rightarrow> xdp_maps \<Rightarrow> u64 \<Rightarrow> u64 \<Rightarrow> sockaddr_ll \<Rightarrow> bytes \<Rightarrow> persistence_agent \<Rightarrow> (poll_client \<times> sender_data option) option" where
  "poll_start_client env ring iters interval server_addr base_packet ag =
     (if me_socket env < 0 then None
      else Some ((client_start ag (me_world env))\<lparr>cl_maps := ring\<rparr>,
             snd (start_sending_packets (me_malloc env) (me_pthread_create env) iters interval (Some base_packet) (Some server_addr))))"

definition poll_main_client ::
  "main_env \<Rightarrow> ('o, 'p, 'k) libbpf \<Rightarrow> xdp_maps \<Rightarrow> string list \<Rightarrow> 'k \<Rightarrow> (u64 \<times> poll_client \<times> sender_data option) main_out \<times> 'k" where
  "poll_main_client env lib ring argv k =
     (case xdp_client_parse_args argv (main_opts (case argv of [] \<Rightarrow> None | a # _ \<Rightarrow> Some a)) of
        (ok, op) \<Rightarrow>
          if \<not> ok then (Exit EXIT_FAILURE, k)
          else
            (case persistence_init (me_init env) (Some poll_outfile) (o_pers_flags op) (o_interval op) of
               None \<Rightarrow> (Undefined, k)
             | Some None \<Rightarrow> (Exit EXIT_FAILURE, k)
             | Some (Some ag) \<Rightarrow>
                 let ifindex = name_index env (o_dev op) in
                 if ifindex = 0 then (Exit EXIT_FAILURE, k)
                 else if o_remove op then (case poll_remove lib ifindex k of (r, k) \<Rightarrow> (Exit r, k))
                 else
                   (case poll_attach lib ifindex k of
                      (ret, obj, k) \<Rightarrow>
                        if ret \<noteq> 0 then (Exit EXIT_FAILURE, k)
                        else
                          (case obj of
                             None \<Rightarrow> (Undefined, k)
                           | Some obj \<Rightarrow>
                               (case start_pingpong env lib obj ifindex False k of
                                  None \<Rightarrow> (Exit EXIT_SUCCESS, k)
                                | Some (buf, addr) \<Rightarrow>
                                    (case poll_start_client env ring (o_iters op) (ucast (ucast (o_interval op) :: u32)) addr buf ag of
                                       None \<Rightarrow> (Exit EXIT_SUCCESS, k)
                                     | Some (c, d) \<Rightarrow> (Run (o_iters op, c, d), k)))))))"

subsection \<open>Pure\<close>

definition pure_filename :: string where "pure_filename = ''pingpong_pure.o''"
definition pure_prog_name :: string where "pure_prog_name = ''xdp_main''"
definition pure_pinpath :: string where "pure_pinpath = ''/sys/fs/bpf/xdp_pingpong_pure''"
definition pure_outfile :: string where "pure_outfile = ''pingpong_pure.dat''"

text \<open>The part of \<^verbatim>\<open>main\<close> between the query of the interface and the client: \<open>Some\<close> of the value returned, or \<open>None\<close> to go on.
  The second opening of the file is not checked; \<^verbatim>\<open>bpf_object__load\<close> refuses a null pointer.\<close>

definition pure_load :: "('o, 'p, 'k) libbpf \<Rightarrow> int \<Rightarrow> bool \<Rightarrow> 'k \<Rightarrow> int option \<times> 'k" where
  "pure_load lib ifindex remove k =
     (case read_xdp_file lib pure_filename k of
        (None, k) \<Rightarrow> (Some EXIT_FAILURE, k)
      | (Some obj, k) \<Rightarrow>
          (case detach_xdp lib obj pure_prog_name ifindex (Some pure_pinpath) k of
             (ret, k) \<Rightarrow>
               if remove then (Some ret, k)
               else
                 (case read_xdp_file lib pure_filename k of
                    (None, k) \<Rightarrow> (Some EXIT_FAILURE, k)
                  | (Some obj, k) \<Rightarrow>
                      (case attach_xdp lib obj pure_prog_name ifindex (Some pure_pinpath) k of
                         (ret, k) \<Rightarrow> if ret \<noteq> 0 then (Some EXIT_FAILURE, k) else (None, k)))))"

definition pure_main_server_program :: "main_env \<Rightarrow> ('o, 'p, 'k) libbpf \<Rightarrow> string list \<Rightarrow> 'k \<Rightarrow> int \<times> 'k" where
  "pure_main_server_program env lib argv k =
     (case xdp_server_parse_args argv (main_opts None) of
        (ok, op) \<Rightarrow>
          if \<not> ok then (EXIT_FAILURE, k)
          else
            let ifindex = name_index env (o_dev op) in
            if ifindex = 0 then (EXIT_FAILURE, k)
            else (case pure_load lib ifindex (o_remove op) k of (None, k) \<Rightarrow> (EXIT_SUCCESS, k) | (Some r, k) \<Rightarrow> (r, k)))"

text \<open>The client goes on with \<^verbatim>\<open>start_client\<close>, whose arguments are the result.\<close>

definition pure_main_client_program ::
  "main_env \<Rightarrow> ('o, 'p, 'k) libbpf \<Rightarrow> string list \<Rightarrow> 'k \<Rightarrow> (string option \<times> u64 \<times> u64 \<times> persistence_agent) main_out \<times> 'k" where
  "pure_main_client_program env lib argv k =
     (case xdp_client_parse_args argv (main_opts None) of
        (ok, op) \<Rightarrow>
          if \<not> ok then (Exit EXIT_FAILURE, k)
          else
            (case persistence_init (me_init env) (Some pure_outfile) (o_pers_flags op) (o_interval op) of
               None \<Rightarrow> (Undefined, k)
             | Some None \<Rightarrow> (Exit EXIT_FAILURE, k)
             | Some (Some ag) \<Rightarrow>
                 let ifindex = name_index env (o_dev op) in
                 if ifindex = 0 then (Exit EXIT_FAILURE, k)
                 else
                   (case pure_load lib ifindex (o_remove op) k of
                      (Some r, k) \<Rightarrow> (Exit r, k)
                    | (None, k) \<Rightarrow> (Run (o_server_ip op, o_iters op, o_interval op, ag), k))))"

subsection \<open>AF_XDP sockets\<close>

definition xsk_filename :: string where "xsk_filename = ''pingpong_xsk.o''"
definition xsk_prog_name :: string where "xsk_prog_name = ''xdp_xsk''"
definition xsk_pinpath :: string where "xsk_pinpath = ''/sys/fs/bpf/xdp_pingpong_xsk''"
definition xsk_outfile :: string where "xsk_outfile = ''pingpong_xsk.dat''"

record sock_env = main_env +
  so_addrs :: addrs
  so_setrlimit :: int
  so_memalign :: int
  so_calloc_umem :: bool
  so_umem_create :: int
  so_calloc_socket :: bool
  so_socket_create :: int
  so_update_xskmap :: int
  so_base_packet :: "bytes option"
  so_socket :: xsk

text \<open>\<^verbatim>\<open>configure_xsk_umem\<close>: whether it returns a struct.\<close>

definition configure_xsk_umem :: "sock_env \<Rightarrow> bool" where
  "configure_xsk_umem env = (if \<not> so_calloc_umem env then False else if so_umem_create env \<noteq> 0 then False else True)"

text \<open>\<^verbatim>\<open>xsk_configure_socket\<close> from its beginning; \<open>so_socket\<close> is the zeroed struct with the empty rings that the library creates.\<close>

definition xsk_create_socket :: "sock_env \<Rightarrow> xsk_lib \<Rightarrow> xsk option" where
  "xsk_create_socket env xlib =
     (if \<not> so_calloc_socket env then None
      else if so_socket_create env \<noteq> 0 then None
      else if so_update_xskmap env \<noteq> 0 then None
      else xsk_configure_socket xlib (so_socket env))"

definition xsk_load :: "('o, 'p, 'k) libbpf \<Rightarrow> int \<Rightarrow> bool \<Rightarrow> 'k \<Rightarrow> int option \<times> 'k" where
  "xsk_load lib ifindex remove k =
     (case read_xdp_file lib xsk_filename k of
        (None, k) \<Rightarrow> (Some EXIT_FAILURE, k)
      | (Some obj, k) \<Rightarrow>
          (case detach_xdp lib obj xsk_prog_name ifindex (Some xsk_pinpath) k of
             (_, k) \<Rightarrow>
               if remove then (Some EXIT_SUCCESS, k)
               else
                 (case read_xdp_file lib xsk_filename k of
                    (None, k) \<Rightarrow> (Some EXIT_FAILURE, k)
                  | (Some obj, k) \<Rightarrow>
                      (case attach_xdp lib obj xsk_prog_name ifindex (Some xsk_pinpath) k of
                         (ret, k) \<Rightarrow> if ret \<noteq> 0 then (Some EXIT_FAILURE, k) else (None, k)))))"

text \<open>The rest of \<^verbatim>\<open>main\<close> up to the experiment: the memory, the socket.\<close>

definition xsk_setup :: "sock_env \<Rightarrow> xsk_lib \<Rightarrow> xsk main_out" where
  "xsk_setup env xlib =
     (if so_setrlimit env \<noteq> 0 then Exit EXIT_FAILURE
      else if so_memalign env \<noteq> 0 then Exit EXIT_FAILURE
      else if \<not> configure_xsk_umem env then Exit EXIT_FAILURE
      else (case xsk_create_socket env xlib of None \<Rightarrow> Exit EXIT_FAILURE | Some s \<Rightarrow> Run s))"

text \<open>There is no test of the interface's index.\<close>

definition xsk_main_server ::
  "sock_env \<Rightarrow> ('o, 'p, 'k) libbpf \<Rightarrow> xsk_lib \<Rightarrow> string list \<Rightarrow> 'k \<Rightarrow> (u64 \<times> xsk) main_out \<times> 'k" where
  "xsk_main_server env lib xlib argv k =
     (case xdp_server_parse_args argv (main_opts None) of
        (ok, op) \<Rightarrow>
          if \<not> ok then (Exit EXIT_FAILURE, k)
          else
            (case xsk_load lib (name_index env (o_dev op)) (o_remove op) k of
               (Some r, k) \<Rightarrow> (Exit r, k)
             | (None, k) \<Rightarrow>
                 (case xsk_setup env xlib of
                    Run s \<Rightarrow> (Run (o_iters op, s), k)
                  | Exit r \<Rightarrow> (Exit r, k)
                  | Undefined \<Rightarrow> (Undefined, k))))"

text \<open>The base packet of the client and the data of its sender thread. The allocation is not checked.\<close>

definition initialize_client ::
  "sock_env \<Rightarrow> u64 \<Rightarrow> u64 \<Rightarrow> int \<Rightarrow> addrs \<Rightarrow> sender_data option main_out" where
  "initialize_client env iters interval ifindex a =
     (case so_base_packet env of
        None \<Rightarrow> Undefined
      | Some junk \<Rightarrow>
          let buf = snd (build_base_packet junk (a_src_mac a) (a_dest_mac a) (a_src_ip a) (a_dest_ip a)) in
          Run (snd (start_sending_packets (me_malloc env) (me_pthread_create env) iters interval (Some buf)
            (Some (build_sockaddr (me_sockaddr env) ifindex (a_dest_mac a))))))"

text \<open>The result of the address exchange is ignored: when it fails, the addresses are what the stack held (\<open>so_addrs\<close>).\<close>

definition xsk_main_client ::
  "sock_env \<Rightarrow> ('o, 'p, 'k) libbpf \<Rightarrow> xsk_lib \<Rightarrow> string list \<Rightarrow> 'k \<Rightarrow> (u64 \<times> xsk \<times> sender_data option) main_out \<times> 'k" where
  "xsk_main_client env lib xlib argv k =
     (case xdp_client_parse_args argv (main_opts None) of
        (ok, op) \<Rightarrow>
          if \<not> ok then (Exit EXIT_FAILURE, k)
          else
            let ifindex = name_index env (o_dev op);
                a = fst (snd (exchange_eth_ip_addresses (me_if env) (me_xchg env) ifindex False (me_junk env) (so_addrs env))) in
            (case xsk_load lib ifindex (o_remove op) k of
               (Some r, k) \<Rightarrow> (Exit r, k)
             | (None, k) \<Rightarrow>
                 (case xsk_setup env xlib of
                    Exit r \<Rightarrow> (Exit r, k)
                  | Undefined \<Rightarrow> (Undefined, k)
                  | Run s \<Rightarrow>
                      (case persistence_init (me_init env) (Some xsk_outfile) (o_pers_flags op) (o_interval op) of
                         None \<Rightarrow> (Undefined, k)
                       | Some ag \<Rightarrow>
                           (case initialize_client env (o_iters op) (o_interval op) ifindex a of
                              Run d \<Rightarrow> (Run (o_iters op, s\<lparr>x_agent := ag\<rparr>, d), k)
                            | Exit r \<Rightarrow> (Exit r, k)
                            | Undefined \<Rightarrow> (Undefined, k))))))"

text \<open>After the experiment: the agent is closed, if there is one, and the program detached without removing its pin.\<close>

definition xsk_main_end ::
  "('o, 'p, 'k) libbpf \<Rightarrow> int \<Rightarrow> xsk \<Rightarrow> 'k \<Rightarrow> int \<times> (int \<times> cfile option \<times> bool) option \<times> 'k" where
  "xsk_main_end lib ifindex s k =
     (let closed = (case x_agent s of None \<Rightarrow> None | Some ag \<Rightarrow> agent_close ag);
          k = snd (bpf_xdp_detach lib ifindex XDP_FLAGS_DRV_MODE k)
      in (EXIT_SUCCESS, closed, k))"

text \<open>What the set-up acquires, in order, up to its first failure, and what \<^verbatim>\<open>xsk_cleanup\<close> releases.\<close>

datatype xsk_res = X_buffer | X_umem_info | X_umem | X_socket_info | X_lock | X_socket

definition xsk_acquired :: "sock_env \<Rightarrow> xsk_res list" where
  "xsk_acquired env =
     (if so_setrlimit env \<noteq> 0 then []
      else if so_memalign env \<noteq> 0 then []
      else if \<not> so_calloc_umem env then [X_buffer]
      else if so_umem_create env \<noteq> 0 then [X_buffer, X_umem_info]
      else if \<not> so_calloc_socket env then [X_buffer, X_umem_info, X_umem]
      else if so_socket_create env \<noteq> 0 then [X_buffer, X_umem_info, X_umem, X_socket_info, X_lock]
      else [X_buffer, X_umem_info, X_umem, X_socket_info, X_lock, X_socket])"

definition xsk_cleanup :: "bool \<Rightarrow> xsk_res list" where
  "xsk_cleanup is_server = [X_socket, X_umem] @ (if is_server then [] else [X_lock]) @ [X_umem_info, X_socket_info]"

section \<open>What starting and removing do to the system\<close>

lemma poll_attach_obs:
  assumes ok: "libbpf_ok lib pinned attached maps poll_filename poll_prog_name poll_pinpath" and r: "poll_attach lib ix k = (r, obj, k')"
  shows "r = (if pinned k poll_pinpath \<or> attached k ix = None then 0 else - 1)" and "pinned k' poll_pinpath" and "obj \<noteq> None"
    and "\<exists>fd. attached k' = (if r = 0 then (attached k)(ix := Some fd) else attached k)"
    and "\<And>q. q \<noteq> poll_pinpath \<Longrightarrow> q \<notin> map_pinpath ` maps \<Longrightarrow> pinned k' q = pinned k q"
proof -
  obtain o1 k1 where o1: "read_xdp_file lib poll_filename k = (Some o1, k1)" by (rule file_opens [OF ok])
  obtain r1 k2 where d: "detach_xdp lib o1 poll_prog_name ix (Some poll_pinpath) k1 = (r1, k2)" by fastforce
  obtain o2 k3 where o2: "read_xdp_file lib poll_filename k2 = (Some o2, k3)" by (rule file_opens [OF ok])
  obtain r2 k4 where a: "attach_xdp lib o2 poll_prog_name ix (Some poll_pinpath) k3 = (r2, k4)" by fastforce
  note R = reattach_obs [OF ok o1 d o2 a]
  have "r = r2 \<and> obj = Some o2 \<and> k' = k4"
    using r o1 d o2 a R(1) by (auto simp: poll_attach_def attach_pingpong_xdp_def detach_pingpong_xdp_def split: if_splits)
  with R show "r = (if pinned k poll_pinpath \<or> attached k ix = None then 0 else - 1)" "pinned k' poll_pinpath" "obj \<noteq> None"
    "\<exists>fd. attached k' = (if r = 0 then (attached k)(ix := Some fd) else attached k)"
    "\<And>q. q \<noteq> poll_pinpath \<Longrightarrow> q \<notin> map_pinpath ` maps \<Longrightarrow> pinned k' q = pinned k q" by simp_all
qed

lemma poll_remove_obs:
  assumes ok: "libbpf_ok lib pinned attached maps poll_filename poll_prog_name poll_pinpath" and r: "poll_remove lib ix k = (r, k')"
  shows "\<not> pinned k poll_pinpath \<Longrightarrow> r = EXIT_FAILURE" and "pinned k poll_pinpath \<Longrightarrow> attached k ix \<noteq> None \<Longrightarrow> r = EXIT_SUCCESS"
    and "\<not> pinned k' poll_pinpath" and "attached k' = (if pinned k poll_pinpath then (attached k)(ix := None) else attached k)"
proof -
  obtain o1 k1 where o1: "read_xdp_file lib poll_filename k = (Some o1, k1)" by (rule file_opens [OF ok])
  obtain r1 k2 where d: "detach_xdp lib o1 poll_prog_name ix (Some poll_pinpath) k1 = (r1, k2)" by fastforce
  have "r = (if r1 \<noteq> 0 then EXIT_FAILURE else EXIT_SUCCESS) \<and> k' = k2"
    using r o1 d by (auto simp: poll_remove_def detach_pingpong_xdp_def split: if_splits)
  with detach_obs [OF ok o1 d] show "\<not> pinned k poll_pinpath \<Longrightarrow> r = EXIT_FAILURE"
    "pinned k poll_pinpath \<Longrightarrow> attached k ix \<noteq> None \<Longrightarrow> r = EXIT_SUCCESS" "\<not> pinned k' poll_pinpath"
    "attached k' = (if pinned k poll_pinpath then (attached k)(ix := None) else attached k)" by simp_all
qed

lemma pure_load_obs:
  assumes ok: "libbpf_ok lib pinned attached maps pure_filename pure_prog_name pure_pinpath" and r: "pure_load lib ix False k = (r, k')"
  shows "r = (if pinned k pure_pinpath \<or> attached k ix = None then None else Some EXIT_FAILURE)" and "pinned k' pure_pinpath"
    and "\<exists>fd. attached k' = (if r = None then (attached k)(ix := Some fd) else attached k)"
    and "\<And>q. q \<noteq> pure_pinpath \<Longrightarrow> q \<notin> map_pinpath ` maps \<Longrightarrow> pinned k' q = pinned k q"
proof -
  obtain o1 k1 where o1: "read_xdp_file lib pure_filename k = (Some o1, k1)" by (rule file_opens [OF ok])
  obtain r1 k2 where d: "detach_xdp lib o1 pure_prog_name ix (Some pure_pinpath) k1 = (r1, k2)" by fastforce
  obtain o2 k3 where o2: "read_xdp_file lib pure_filename k2 = (Some o2, k3)" by (rule file_opens [OF ok])
  obtain r2 k4 where a: "attach_xdp lib o2 pure_prog_name ix (Some pure_pinpath) k3 = (r2, k4)" by fastforce
  note R = reattach_obs [OF ok o1 d o2 a]
  have e: "r = (if r2 = 0 then None else Some EXIT_FAILURE) \<and> k' = k4" using r o1 d o2 a by (auto simp: pure_load_def split: if_splits)
  then have n: "r = None \<longleftrightarrow> r2 = 0" by simp
  show "r = (if pinned k pure_pinpath \<or> attached k ix = None then None else Some EXIT_FAILURE)" "pinned k' pure_pinpath"
    "\<exists>fd. attached k' = (if r = None then (attached k)(ix := Some fd) else attached k)"
    "\<And>q. q \<noteq> pure_pinpath \<Longrightarrow> q \<notin> map_pinpath ` maps \<Longrightarrow> pinned k' q = pinned k q"
    unfolding n using e R by simp_all
qed

text \<open>How the two builds of a started server end up.\<close>

lemma poll_server_start:
  assumes ok: "libbpf_ok lib pinned attached maps poll_filename poll_prog_name poll_pinpath"
    and args: "xdp_server_parse_args argv (main_opts (case argv of [] \<Rightarrow> None | a # _ \<Rightarrow> Some a)) = (True, op)" "\<not> o_remove op"
    and ix: "ix = name_index env (o_dev op)" "ix \<noteq> 0" and out: "poll_main_server env lib ring argv k = (out, k')"
  shows "pinned k' poll_pinpath" and "\<exists>r obj. poll_attach lib ix k = (r, obj, k')"
    and "out = Exit EXIT_FAILURE \<longleftrightarrow> \<not> pinned k poll_pinpath \<and> attached k ix \<noteq> None"
    and "out = Exit EXIT_FAILURE \<or> out = Exit EXIT_SUCCESS \<or> (\<exists>buf. out = Run (o_iters op, (server_start buf (me_world env))\<lparr>sv_maps := ring\<rparr>))"
    and "\<exists>fd. attached k' = (if out = Exit EXIT_FAILURE then attached k else (attached k)(ix := Some fd))"
proof -
  obtain r obj k2 where a: "poll_attach lib ix k = (r, obj, k2)" using prod_cases3 by blast
  note A = poll_attach_obs [OF ok a]
  obtain ob where ob: "obj = Some ob" using A(3) by blast
  have o: "(out, k') = (if r \<noteq> 0 then (Exit EXIT_FAILURE, k2)
      else (case start_pingpong env lib ob ix True k2 of None \<Rightarrow> (Exit EXIT_SUCCESS, k2)
            | Some (buf, _) \<Rightarrow> (Run (o_iters op, (server_start buf (me_world env))\<lparr>sv_maps := ring\<rparr>), k2)))"
    using args ix a ob by (cases "r = 0") (simp_all add: poll_main_server_def Let_def out [symmetric])
  then have k': "k' = k2" and x: "out = Exit EXIT_FAILURE \<longleftrightarrow> r \<noteq> 0" by (auto split: if_splits option.splits)
  show "pinned k' poll_pinpath" "\<exists>r obj. poll_attach lib ix k = (r, obj, k')" using A(2) a k' by blast+
  show "out = Exit EXIT_FAILURE \<longleftrightarrow> \<not> pinned k poll_pinpath \<and> attached k ix \<noteq> None" unfolding x using A(1) by simp
  show "out = Exit EXIT_FAILURE \<or> out = Exit EXIT_SUCCESS \<or> (\<exists>buf. out = Run (o_iters op, (server_start buf (me_world env))\<lparr>sv_maps := ring\<rparr>))"
    using o by (auto split: if_splits option.splits)
  show "\<exists>fd. attached k' = (if out = Exit EXIT_FAILURE then attached k else (attached k)(ix := Some fd))" unfolding x k' using A(4) by auto
qed

section \<open>Properties\<close>

text \<open>C27: starting again helps. Whatever programs are attached and pinned, the polling server fails to start for want of an attached program
  exactly when the interface has a program but the server's pin is missing; and then a second start with the same arguments attaches its
  program and gets past that point.\<close>

theorem poll_server_second_start:
  assumes "libbpf_ok lib pinned attached maps poll_filename poll_prog_name poll_pinpath"
    and "xdp_server_parse_args argv (main_opts (case argv of [] \<Rightarrow> None | a # _ \<Rightarrow> Some a)) = (True, op)" "\<not> o_remove op"
    and "ix = name_index env (o_dev op)" "ix \<noteq> 0"
    and "poll_main_server env lib ring argv k = (out1, k1)" and "poll_main_server env lib ring argv k1 = (out2, k2)"
  shows "(out1 = Exit EXIT_FAILURE \<longleftrightarrow> \<not> pinned k poll_pinpath \<and> attached k ix \<noteq> None)
    \<and> attached k2 ix \<noteq> None \<and> pinned k2 poll_pinpath
    \<and> (out2 = Exit EXIT_SUCCESS \<or> (\<exists>buf. out2 = Run (o_iters op, (server_start buf (me_world env))\<lparr>sv_maps := ring\<rparr>)))"
proof -
  note first = poll_server_start [OF assms(1-6)] and second = poll_server_start [OF assms(1-5) assms(7)]
  have "out2 \<noteq> Exit EXIT_FAILURE" using first(1) second(3) by blast
  moreover from this have "attached k2 ix \<noteq> None" using second(5) by auto
  ultimately show ?thesis using first(3) second(1,4) by blast
qed

definition demo_main_env :: main_env where
  "demo_main_env = \<lparr>me_ifindex = \<lambda>d. if d = ''eth0'' then 2 else 0, me_if = demo_if, me_xchg = demo_xchg demo_info,
     me_junk = replicate 10 0, me_sockaddr = \<lparr>sll_ifindex = 0, sll_halen = 0, sll_addr = replicate 8 0\<rparr>, me_world = demo_world,
     me_init = demo_env, me_socket = 3, me_malloc = True, me_pthread_create = 0\<rparr>"

lemma demo_args:
  "xdp_server_parse_args [''-d'', ''eth0'', ''-p'', ''9''] (main_opts d) = (True, (main_opts (Some ''eth0''))\<lparr>o_iters := 9\<rparr>)"
  by (simp add: xdp_server_parse_args_def main_opts_def xdp_server_long_options_def atoll_def strtoll_def is_digit_def is_blank_def read_nat_def char_digit_def)

lemma demo_poll_ok: "libbpf_ok demo_libbpf h_pins h_progs {''last_payload'', ''lck''} poll_filename poll_prog_name poll_pinpath"
  by (rule demo_libbpf_ok) (simp add: map_pinpath_def poll_pinpath_def)

theorem poll_server_second_start_witness:
  "\<exists>out1 k1 out2 k2. poll_main_server demo_main_env demo_libbpf empty_maps [''-d'', ''eth0'', ''-p'', ''9'']
       \<lparr>h_pins = \<lambda>_. False, h_progs = \<lambda>_. Some 4\<rparr> = (out1, k1)
     \<and> poll_main_server demo_main_env demo_libbpf empty_maps [''-d'', ''eth0'', ''-p'', ''9''] k1 = (out2, k2)
     \<and> out1 = Exit EXIT_FAILURE \<and> h_progs k2 2 \<noteq> None \<and> out2 \<noteq> Exit EXIT_FAILURE"
proof -
  obtain out1 k1 where 1: "poll_main_server demo_main_env demo_libbpf empty_maps [''-d'', ''eth0'', ''-p'', ''9'']
       \<lparr>h_pins = \<lambda>_. False, h_progs = \<lambda>_. Some 4\<rparr> = (out1, k1)" by fastforce
  obtain out2 k2 where 2: "poll_main_server demo_main_env demo_libbpf empty_maps [''-d'', ''eth0'', ''-p'', ''9''] k1 = (out2, k2)" by fastforce
  have "name_index demo_main_env (o_dev ((main_opts (Some ''eth0''))\<lparr>o_iters := 9\<rparr>)) = 2" "\<not> o_remove ((main_opts (Some ''eth0''))\<lparr>o_iters := 9\<rparr>)"
    by (simp_all add: name_index_def demo_main_env_def main_opts_def)
  from poll_server_second_start [OF demo_poll_ok demo_args this(2) this(1) [symmetric] _ 1 2] 1 2 show ?thesis by auto
qed

text \<open>C26: removing undoes starting. After a polling server has started on an interface that had no program, a run with
  \<^verbatim>\<open>--remove\<close> reports success; the pin is gone and every interface has the program it had before the start.\<close>

theorem poll_start_remove_roundtrip:
  assumes "libbpf_ok lib pinned attached maps poll_filename poll_prog_name poll_pinpath"
    and "xdp_server_parse_args argv (main_opts (case argv of [] \<Rightarrow> None | a # _ \<Rightarrow> Some a)) = (True, op)" "\<not> o_remove op"
    and "ix = name_index env (o_dev op)" "ix \<noteq> 0" "attached k ix = None"
    and "poll_main_server env lib ring argv k = (out1, k1)"
    and "xdp_server_parse_args argv' (main_opts (case argv' of [] \<Rightarrow> None | a # _ \<Rightarrow> Some a)) = (True, op')" "o_remove op'"
    and "ix = name_index env (o_dev op')"
    and "poll_main_server env lib ring argv' k1 = (out2, k2)"
  shows "attached k1 ix \<noteq> None \<and> out2 = Exit EXIT_SUCCESS \<and> \<not> pinned k2 poll_pinpath \<and> attached k2 = attached k"
proof -
  note start = poll_server_start [OF assms(1-5,7)]
  obtain fd where fd: "attached k1 = (attached k)(ix := Some fd)" using start(3,5) assms(6) by auto
  obtain r k3 where rm: "poll_remove lib ix k1 = (r, k3)" by fastforce
  have "(out2, k2) = (Exit r, k3)" using assms(5,8-11) rm by (simp add: poll_main_server_def Let_def)
  with poll_remove_obs [OF assms(1) rm] start(1) fd assms(6) show ?thesis by auto
qed

lemma demo_remove_args:
  "xdp_server_parse_args [''-d'', ''eth0'', ''--remove''] (main_opts d) = (True, (main_opts (Some ''eth0''))\<lparr>o_remove := True\<rparr>)"
  by (simp add: xdp_server_parse_args_def main_opts_def xdp_server_long_options_def long_option_def is_digit_def is_blank_def)

theorem poll_start_remove_roundtrip_witness:
  "\<exists>out1 k1 k2. poll_main_server demo_main_env demo_libbpf empty_maps [''-d'', ''eth0'', ''-p'', ''9''] demo_host0 = (out1, k1)
     \<and> poll_main_server demo_main_env demo_libbpf empty_maps [''-d'', ''eth0'', ''--remove''] k1 = (Exit EXIT_SUCCESS, k2)
     \<and> h_progs k1 2 \<noteq> None \<and> h_progs k2 = (\<lambda>_. None)"
proof -
  obtain out1 k1 where 1: "poll_main_server demo_main_env demo_libbpf empty_maps [''-d'', ''eth0'', ''-p'', ''9''] demo_host0 = (out1, k1)" by fastforce
  obtain out2 k2 where 2: "poll_main_server demo_main_env demo_libbpf empty_maps [''-d'', ''eth0'', ''--remove''] k1 = (out2, k2)" by fastforce
  have "name_index demo_main_env (o_dev ((main_opts (Some ''eth0''))\<lparr>o_iters := 9\<rparr>)) = 2" "\<not> o_remove ((main_opts (Some ''eth0''))\<lparr>o_iters := 9\<rparr>)"
    "name_index demo_main_env (o_dev ((main_opts (Some ''eth0''))\<lparr>o_remove := True\<rparr>)) = 2" "o_remove ((main_opts (Some ''eth0''))\<lparr>o_remove := True\<rparr>)"
    "h_progs demo_host0 2 = None" "h_progs demo_host0 = (\<lambda>_. None)"
    by (simp_all add: name_index_def demo_main_env_def main_opts_def demo_host0_def)
  with poll_start_remove_roundtrip [OF demo_poll_ok demo_args this(2) this(1) [symmetric] _ this(5) 1 demo_remove_args this(4) this(3) [symmetric] 2] 1 2
  show ?thesis by auto
qed

text \<open>changing the variant. The variants know each other's programs neither by path nor by file: after the pure server was installed on
  an interface, the polling server does not start there, and the pure program goes on answering in its place; started a second time, it
  replaces it.\<close>

theorem poll_after_pure:
  assumes "libbpf_ok lib pinned attached maps poll_filename poll_prog_name poll_pinpath" "pure_pinpath \<notin> map_pinpath ` maps"
    and "libbpf_ok lib pinned attached maps' pure_filename pure_prog_name pure_pinpath" "poll_pinpath \<notin> map_pinpath ` maps'"
    and "xdp_server_parse_args argv (main_opts None) = (True, op)"
    and "xdp_server_parse_args argv (main_opts (case argv of [] \<Rightarrow> None | a # _ \<Rightarrow> Some a)) = (True, op)" "\<not> o_remove op"
    and "ix = name_index env (o_dev op)" "ix \<noteq> 0" "attached k ix = None" "\<not> pinned k poll_pinpath"
    and "pure_main_server_program env lib argv k = (out0, k0)"
    and "poll_main_server env lib ring argv k0 = (out1, k1)" and "poll_main_server env lib ring argv k1 = (out2, k2)"
  shows "out0 = EXIT_SUCCESS \<and> attached k0 ix \<noteq> None \<and> out1 = Exit EXIT_FAILURE \<and> attached k1 = attached k0
    \<and> out2 \<noteq> Exit EXIT_FAILURE \<and> pinned k2 poll_pinpath \<and> pinned k2 pure_pinpath"
proof -
  have ne: "pure_pinpath \<noteq> poll_pinpath" by (simp add: pure_pinpath_def poll_pinpath_def)
  obtain r k3 where l: "pure_load lib ix False k = (r, k3)" by fastforce
  note P = pure_load_obs [OF assms(3) l]
  have "r = None" using P(1) assms(10) by simp
  then have 0: "out0 = EXIT_SUCCESS" "k0 = k3" using assms(5,7-9,12) l by (simp_all add: pure_main_server_program_def Let_def)
  have a0: "attached k0 ix \<noteq> None" using P(3) \<open>r = None\<close> 0(2) by auto
  have p0: "\<not> pinned k0 poll_pinpath" "pinned k0 pure_pinpath" using P(4) [OF ne [symmetric] assms(4)] P(2) assms(11) 0(2) by simp_all
  note first = poll_server_start [OF assms(1,6-9,13)] and second = poll_server_start [OF assms(1,6-9,14)]
  have 1: "out1 = Exit EXIT_FAILURE" "attached k1 = attached k0" using first(3,5) a0 p0(1) by auto
  have 2: "out2 \<noteq> Exit EXIT_FAILURE" "pinned k2 poll_pinpath" using first(1) second(1,3) by blast+
  obtain r1 o1 where l1: "poll_attach lib ix k0 = (r1, o1, k1)" using first(2) by blast
  obtain r2 o2 where l2: "poll_attach lib ix k1 = (r2, o2, k2)" using second(2) by blast
  have "pinned k2 pure_pinpath"
    using poll_attach_obs(5) [OF assms(1) l2 ne assms(2)] poll_attach_obs(5) [OF assms(1) l1 ne assms(2)] p0(2) by simp
  with 0 1 2 a0 show ?thesis by blast
qed

theorem poll_after_pure_witness:
  "\<exists>k0 k1 out2 k2. pure_main_server_program demo_main_env demo_libbpf [''-d'', ''eth0'', ''-p'', ''9''] demo_host0 = (EXIT_SUCCESS, k0)
     \<and> poll_main_server demo_main_env demo_libbpf empty_maps [''-d'', ''eth0'', ''-p'', ''9''] k0 = (Exit EXIT_FAILURE, k1)
     \<and> poll_main_server demo_main_env demo_libbpf empty_maps [''-d'', ''eth0'', ''-p'', ''9''] k1 = (out2, k2) \<and> out2 \<noteq> Exit EXIT_FAILURE"
proof -
  obtain out0 k0 where 0: "pure_main_server_program demo_main_env demo_libbpf [''-d'', ''eth0'', ''-p'', ''9''] demo_host0 = (out0, k0)" by fastforce
  obtain out1 k1 where 1: "poll_main_server demo_main_env demo_libbpf empty_maps [''-d'', ''eth0'', ''-p'', ''9''] k0 = (out1, k1)" by fastforce
  obtain out2 k2 where 2: "poll_main_server demo_main_env demo_libbpf empty_maps [''-d'', ''eth0'', ''-p'', ''9''] k1 = (out2, k2)" by fastforce
  have q: "pure_pinpath \<notin> map_pinpath ` {''last_payload'', ''lck''}" "poll_pinpath \<notin> map_pinpath ` {''last_payload'', ''lck''}"
    by (simp_all add: map_pinpath_def poll_pinpath_def pure_pinpath_def)
  have h: "name_index demo_main_env (o_dev ((main_opts (Some ''eth0''))\<lparr>o_iters := 9\<rparr>)) = 2" "\<not> o_remove ((main_opts (Some ''eth0''))\<lparr>o_iters := 9\<rparr>)"
    "h_progs demo_host0 2 = None" "\<not> h_pins demo_host0 poll_pinpath"
    by (simp_all add: name_index_def demo_main_env_def main_opts_def demo_host0_def)
  from poll_after_pure [OF demo_poll_ok q(1) demo_libbpf_ok [OF q(1)] q(2) demo_args demo_args h(2) h(1) [symmetric] _ h(3,4) 0 1 2] 0 1 2
  show ?thesis by auto
qed

text \<open>the AF_XDP program never frees its packet memory. After a set-up that succeeds, the cleanup releases everything else that was acquired, once
  each, except that the server keeps the lock that only the client destroys.\<close>

theorem xsk_cleanup_leaves_buffer:
  assumes "xsk_setup env xlib = Run s"
  shows "mset (xsk_acquired env) = mset (xsk_cleanup is_server) + {#X_buffer#} + (if is_server then {#X_lock#} else {#})"
proof -
  have "xsk_acquired env = [X_buffer, X_umem_info, X_umem, X_socket_info, X_lock, X_socket]"
    using assms by (auto simp: xsk_setup_def xsk_acquired_def configure_xsk_umem_def xsk_create_socket_def split: if_splits option.splits)
  then show ?thesis by (simp add: xsk_cleanup_def)
qed

end
