(* ===== verification/Xsk_Record.thy ===== *)
theory Xsk_Record
  imports Xsk Xdp_Main
begin

text \<open>
  What the AF_XDP program makes of the packets the kernel delivers, in both builds. A frame on the receive ring belongs to nobody else until the
  loop has processed it, so its content is still what the kernel put there; on this rest the order and the completeness of what is received.
\<close>

section \<open>Definitions\<close>

text \<open>The payloads of those of a list of packets (data and length of the descriptor) that \<^verbatim>\<open>process_packet\<close> accepts; the packets that wait on the receive
  ring.\<close>

definition received :: "(bytes \<times> nat) list \<Rightarrow> pingpong_payload list" where
  "received ps = map (\<lambda>p. load_payload (fst p) packet_payload) (filter (\<lambda>p. xsk_accepts (fst p) (snd p)) ps)"

definition content :: "xsk \<Rightarrow> (u64 \<times> nat) list \<Rightarrow> (bytes \<times> nat) list" where
  "content s ds = map (\<lambda>d. (frames s (frame_of (fst d)), snd d)) ds"

text \<open>The packet that a step puts on the receive ring, if any; and the runs of a machine from \<open>s1\<close>, with the packets delivered so far.\<close>

definition delivery :: "xsk \<Rightarrow> xsk \<Rightarrow> (bytes \<times> nat) list" where
  "delivery s s' = (if length (rx s') = Suc (length (rx s)) then content s' [last (rx s')] else [])"

inductive xsk_run ::
  "xsk_lib \<Rightarrow> (u64 \<Rightarrow> nat \<Rightarrow> xsk \<Rightarrow> (bool \<times> xsk) option) \<Rightarrow> (xsk \<Rightarrow> xsk option) set \<Rightarrow> xsk \<Rightarrow> (bytes \<times> nat) list \<Rightarrow> xsk \<Rightarrow> bool"
  for lib process senders s1 where
  run_start: "xsk_run lib process senders s1 [] s1"
| run_step: "xsk_run lib process senders s1 ps s \<Longrightarrow> xsk_step lib process senders s s' \<Longrightarrow>
    xsk_run lib process senders s1 (ps @ delivery s s') s'"

definition xsk_server_run :: "xsk_lib \<Rightarrow> u64 \<Rightarrow> xsk \<Rightarrow> (bytes \<times> nat) list \<Rightarrow> xsk \<Rightarrow> bool" where
  "xsk_server_run lib iters = xsk_run lib (process_packet_server lib iters) {}"

definition xsk_client_run :: "xsk_lib \<Rightarrow> u64 \<Rightarrow> xsk \<Rightarrow> (bytes \<times> nat) list \<Rightarrow> xsk \<Rightarrow> bool" where
  "xsk_client_run lib iters =
     xsk_run lib (process_packet_client iters) {\<lambda>s. map_option (\<lambda>(r, b, s). s) (client_send_pp_packet lib buf i s) | buf i. True}"

text \<open>A recorded payload: the received one with the last time stamp replaced. What the client has recorded of what it received.\<close>

definition xsk_stamped :: "pingpong_payload \<Rightarrow> pingpong_payload \<Rightarrow> bool" where
  "xsk_stamped w p \<longleftrightarrow> (\<exists>t. w = p\<lparr>ts3 := t\<rparr>)"

definition xsk_recorded :: "persistence_agent \<Rightarrow> xsk \<Rightarrow> bool" where
  "xsk_recorded ag s \<longleftrightarrow> (\<exists>ag'. x_agent s = Some ag' \<and> agent_writes ag (x_wrote s) = Some ag') \<and> list_all2 xsk_stamped (x_wrote s) (x_got s)"

section \<open>Lemmas\<close>

lemma received_simps [simp]:
  "received [] = []" "received (ps @ qs) = received ps @ received qs"
  "received ((d, n) # ps) = (if xsk_accepts d n then load_payload d packet_payload # received ps else received ps)"
  by (simp_all add: received_def)

lemma content_simps [simp]:
  "content s [] = []" "content s (ds @ es) = content s ds @ content s es" "content s (d # ds) = (frames s (frame_of (fst d)), snd d) # content s ds"
  by (simp_all add: content_def)

lemma content_cong: "(\<And>i. i \<in># fr (map fst ds) \<Longrightarrow> frames t i = frames s i) \<Longrightarrow> content t ds = content s ds"
  by (auto simp: content_def fr_def)

text \<open>A frame has one owner.\<close>

lemma owned_once: "account (add_mset i R) s \<Longrightarrow> i \<notin># R \<and> i \<notin># held s"
proof -
  assume "account (add_mset i R) s"
  then have "held s + add_mset i R = all_frames" by (simp add: account_def)
  then have "count (held s) i + Suc (count R i) = count all_frames i" by (metis add_Suc_right count_add_mset count_union)
  moreover have "count all_frames i \<le> 1" by (simp add: all_frames_def count_mset_set')
  ultimately show ?thesis by (simp add: not_in_iff)
qed

lemma held_not_running: "account R s \<Longrightarrow> i \<in># held s \<Longrightarrow> i \<notin># R"
  using owned_once by (metis insert_DiffM)

lemma free_frames_data: "free_frames as s = Some s' \<Longrightarrow> frames s' = frames s \<and> x_got s' = x_got s \<and> x_wrote s' = x_wrote s \<and> x_agent s' = x_agent s"
  by (induction as arbitrary: s) (auto simp: xsk_free_umem_frame_def split: option.splits if_splits)

lemma complete_tx_data: "complete_tx lib s = Some s' \<Longrightarrow> frames s' = frames s \<and> x_got s' = x_got s \<and> x_wrote s' = x_wrote s \<and> x_agent s' = x_agent s"
  by (auto simp: complete_tx_def Let_def dest!: free_frames_data split: option.splits if_splits)

section \<open>Receivers\<close>

text \<open>
  A build of the program for which the content of frames and the record of what was received matter. \<open>process\<close> appends the payload to what was
  received, exactly when it accepts the packet, and writes to no other frame; a sender writes to no frame that the receiving side holds; and
  \<open>keeps\<close> is a property of what was received and recorded that processing an intact packet preserves.
\<close>

locale xsk_receiver = xsk_machine +
  fixes keeps :: "xsk \<Rightarrow> bool"
  assumes process_got: "process a len s = Some (keep, s') \<Longrightarrow>
      x_got s' = x_got s @ received [(frames s (frame_of a), len)] \<and> (\<forall>i. i \<noteq> frame_of a \<longrightarrow> frames s' i = frames s i)"
    and process_keeps: "process a len s = Some (keep, s') \<Longrightarrow> keeps s \<Longrightarrow> length (frames s (frame_of a)) = len \<Longrightarrow> keeps s'"
    and keeps_cong: "keeps s \<Longrightarrow> x_got s' = x_got s \<Longrightarrow> x_wrote s' = x_wrote s \<Longrightarrow> x_agent s' = x_agent s \<Longrightarrow> keeps s'"
    and sender_data: "f \<in> senders \<Longrightarrow> account R s \<Longrightarrow> f s = Some s' \<Longrightarrow>
      x_got s' = x_got s \<and> x_wrote s' = x_wrote s \<and> x_agent s' = x_agent s \<and> (\<forall>i\<in>#R. frames s' i = frames s i)"
begin

definition intact :: "(bytes \<times> nat) list \<Rightarrow> bool" where
  "intact ps \<longleftrightarrow> (\<forall>p\<in>set ps. length (fst p) = snd p)"

lemma process_all_got:
  assumes "xsk_lib_ok lib" and "account (fr (map fst ds) + R) s" and "process_all process ds s = Some s'" and "keeps s" and "intact (content s ds)"
  shows "x_got s' = x_got s @ received (content s ds) \<and> (\<forall>i\<in>#R. frames s' i = frames s i) \<and> keeps s'"
  using assms(2-5)
proof (induction ds arbitrary: s)
  case Nil
  then show ?case by simp
next
  case (Cons d ds)
  obtain a len where d: "d = (a, len)" by (cases d)
  from Cons.prems(2) obtain keep t where p: "process a len s = Some (keep, t)" by (auto simp: d split: option.splits)
  let ?R = "fr (map fst ds) + R"
  have acc: "account (add_mset (frame_of a) ?R) s" using Cons.prems(1) by (simp add: d)
  have t: "account (if keep then ?R else add_mset (frame_of a) ?R) t" using process_account [OF assms(1) acc p] by simp
  obtain u where u: "account ?R u" "process_all process ds u = Some s'" "frames u = frames t" "x_got u = x_got t" "x_wrote u = x_wrote t"
    "x_agent u = x_agent t"
  proof (cases keep)
    case True
    then show thesis using that [of t] t p Cons.prems(2) by (simp add: d)
  next
    case False
    then obtain u where u: "xsk_free_umem_frame a t = Some u" "account ?R u" "same_data t u" using account_free [of a ?R t] t by auto
    then have "frames u = frames t" by (auto simp: xsk_free_umem_frame_def split: if_splits)
    then show thesis using that [of u] u p False Cons.prems(2) by (simp add: d same_data_def)
  qed
  have same: "frames u i = frames s i" if "i \<in># ?R" for i
  proof -
    have "i \<noteq> frame_of a" using that owned_once [OF acc] by blast
    then show ?thesis using process_got [OF p] u(3) by simp
  qed
  have c: "content u ds = content s ds" using same by (intro content_cong) simp
  have "keeps t" using process_keeps [OF p Cons.prems(3)] Cons.prems(4) by (simp add: d intact_def)
  then have "keeps u" by (rule keeps_cong) (rule u)+
  from Cons.IH [OF u(1,2) this] Cons.prems(4) c process_got [OF p] u(4) same show ?case by (simp add: d intact_def)
qed

text \<open>What has been delivered is what was received, followed by what waits.\<close>

definition in_order :: "(bytes \<times> nat) list \<Rightarrow> xsk \<Rightarrow> bool" where
  "in_order ps s \<longleftrightarrow> received ps = x_got s @ received (content s (rx s)) \<and> intact (content s (rx s)) \<and> keeps s"

lemma in_order_same:
  assumes "in_order ps s" and "rx s' = rx s" "x_got s' = x_got s" "x_wrote s' = x_wrote s" "x_agent s' = x_agent s"
    and "\<And>i. i \<in># fr (map fst (rx s)) \<Longrightarrow> frames s' i = frames s i"
  shows "in_order (ps @ delivery s s') s'"
proof -
  have "content s' (rx s) = content s (rx s)" using assms(6) by (rule content_cong)
  moreover have "keeps s'" using keeps_cong assms(1,3-5) by (auto simp: in_order_def)
  ultimately show ?thesis using assms(1-3) by (simp add: in_order_def delivery_def)
qed

lemma handle_in_order:
  assumes "xsk_lib_ok lib" and "xsk_ok s" and "in_order ps s" and "handle_receive_packets lib process s = Some s'"
  shows "in_order (ps @ delivery s s') s'"
proof -
  define n where "n = l_peek lib (calls s) (length (rx s)) RX_BATCH_SIZE"
  let ?s = "s\<lparr>calls := calls s + 1\<rparr>"
  have acc: "account (fr (map fst (rx s))) ?s"
    using assms(2) by (simp add: xsk_ok_def account_def xsk_wf_def held_def free_stack_def)
  show ?thesis
  proof (cases "n = 0")
    case True
    then have "s' = ?s" using assms(4) by (simp add: handle_receive_packets_def Let_def n_def [symmetric])
    with assms(3) show ?thesis by (intro in_order_same) simp_all
  next
    case False
    obtain t where t: "stock_fill_ring lib n ?s = Some t" "account (fr (map fst (rx s))) t" "same_data ?s t" "frames t = frames s"
      using stock_fill_ring_account [OF acc assms(1)] by auto
    obtain u where u: "process_all process (take n (rx s)) t = Some u" "complete_tx lib (u\<lparr>rx := drop n (rx u)\<rparr>) = Some s'"
      using assms(4) False t by (auto simp: handle_receive_packets_def Let_def n_def [symmetric] same_data_def split: option.splits)
    let ?d1 = "take n (rx s)" and ?d2 = "drop n (rx s)"
    have split: "fr (map fst (rx s)) = fr (map fst ?d1) + fr (map fst ?d2)" "content s (rx s) = content s ?d1 @ content s ?d2"
      by (metis append_take_drop_id fr_simps(3) map_append, metis append_take_drop_id content_simps(2))
    have a: "account (fr (map fst ?d1) + fr (map fst ?d2)) t" using t(2) split(1) by simp
    have ct: "content t ds = content s ds" for ds by (simp add: content_def t(4))
    have ord: "received ps = x_got s @ received (content s (rx s))" "intact (content s ?d1)" "intact (content s ?d2)" "keeps s"
      using assms(3) split(2) by (auto simp: in_order_def intact_def)
    have kt: "keeps t" using keeps_cong [OF ord(4)] t(3) by (simp add: same_data_def)
    have g: "x_got u = x_got t @ received (content s ?d1)" "\<forall>i\<in>#fr (map fst ?d2). frames u i = frames t i" "keeps u"
      using process_all_got [OF assms(1) a u(1) kt] ord(2) by (simp_all add: ct)
    have ru: "rx u = rx s" using process_all_account [OF assms(1) a u(1)] t(3) by (simp add: same_data_def)
    have s': "frames s' = frames u" "x_got s' = x_got u" "x_wrote s' = x_wrote u" "x_agent s' = x_agent u"
      using complete_tx_data [OF u(2)] by simp_all
    have "account (fr (map fst ?d2)) (u\<lparr>rx := drop n (rx u)\<rparr>)"
      using process_all_account [OF assms(1) a u(1)] by (simp add: account_def xsk_wf_def held_def free_stack_def)
    from complete_tx_account [OF this assms(1)] u(2) ru have r': "rx s' = ?d2" by (auto simp: same_data_def)
    have "content s' ?d2 = content s ?d2" using g(2) t(4) s'(1) by (intro content_cong) simp
    moreover have "keeps s'" using keeps_cong [OF g(3)] s'(2-4) by simp
    moreover have "delivery s s' = []" using False r' by (simp add: delivery_def)
    ultimately show ?thesis using ord split(2) g(1) s'(2) t(3) r' by (simp add: in_order_def same_data_def)
  qed
qed

lemma step_in_order:
  assumes "xsk_lib_ok lib" and "xsk_ok s" and "in_order ps s" and "xsk_step lib process senders s s'"
  shows "in_order (ps @ delivery s s') s'"
  using assms(4)
proof (cases rule: xsk_step.cases)
  case x_main
  then show ?thesis using handle_in_order assms(1-3) by blast
next
  case (x_send f)
  have "account (fr (map fst (rx s))) s" using assms(2) by (simp add: xsk_ok_def account_def)
  with x_send sender_data [of f "fr (map fst (rx s))" s s'] sender_account [OF assms(1), of f "fr (map fst (rx s))" s s']
  show ?thesis by (intro in_order_same [OF assms(3)]) auto
next
  case (k_recv a r b d)
  have acc: "account (fr (map fst (rx s))) s" using assms(2) by (simp add: xsk_ok_def account_def)
  have "frame_of a \<in># held s" using k_recv by (simp add: held_def)
  then have new: "frame_of b \<notin># fr (map fst (rx s))" using held_not_running [OF acc] k_recv by simp
  have c: "content s' (rx s) = content s (rx s)" using new k_recv by (intro content_cong) auto
  have "keeps s'" using keeps_cong [of s s'] assms(3) k_recv by (simp add: in_order_def)
  moreover have "rx s' = rx s @ [(b, length d)]" "x_got s' = x_got s" "frames s' (frame_of b) = d" using k_recv by simp_all
  ultimately show ?thesis using assms(3) c by (simp add: in_order_def delivery_def intact_def)
qed (use assms(3) in \<open>auto intro!: in_order_same\<close>)

lemma run_in_order:
  assumes "xsk_run lib process senders s1 ps s" and "xsk_lib_ok lib" and "xsk_ok s1" and "rx s1 = []" "x_got s1 = []" and "keeps s1"
  shows "xsk_ok s \<and> in_order ps s"
  using assms(1)
proof induction
  case run_start
  then show ?case using assms(3-6) by (simp add: in_order_def intact_def)
next
  case (run_step ps s s')
  then show ?case using step_ok [OF assms(2)] step_in_order [OF assms(2)] by blast
qed

end

section \<open>The two builds\<close>

interpretation xrs: xsk_receiver lib "process_packet_server lib iters" "{}" "\<lambda>_. True" for lib iters
proof unfold_locales
  fix a len s keep s'
  assume "process_packet_server lib iters a len s = Some (keep, s')"
  then show "x_got s' = x_got s @ received [(frames s (frame_of a), len)] \<and> (\<forall>i. i \<noteq> frame_of a \<longrightarrow> frames s' i = frames s i)"
    by (auto simp: process_packet_server_def xsk_send_packet_def place_packet_def Let_def get_time_ns_eq split: if_splits)
qed simp_all

lemma client_send_data:
  assumes "account R s" and "client_send_pp_packet lib buf i s = Some (r, b, s')"
  shows "x_got s' = x_got s \<and> x_wrote s' = x_wrote s \<and> x_agent s' = x_agent s \<and> (\<forall>i\<in>#R. frames s' i = frames s i)"
proof -
  let ?s = "snd (get_time_ns s)"
  let ?t = "?s\<lparr>calls := calls ?s + 1\<rparr>"
  obtain d r1 where x: "xsk_send_packet lib (User_buffer d) PACKET_SIZE True ?s = Some (r1, s')"
    using assms(2) by (auto simp: client_send_pp_packet_def Let_def split: option.splits)
  have acc: "account R ?t" using assms(1) by (rule account_world) (simp_all add: get_time_ns_eq)
  have same: "x_got ?t = x_got s" "x_wrote ?t = x_wrote s" "x_agent ?t = x_agent s" "frames ?t = frames s" by (simp_all add: get_time_ns_eq)
  show ?thesis
  proof (cases "l_reserve lib (calls ?s) (DEFAULT_NUM_DESCS - length (tx ?s)) 1 = 1")
    case False
    with x same show ?thesis by (auto simp: xsk_send_packet_def)
  next
    case True
    have "xsk_wf ?t" using acc by (simp add: account_def)
    then show ?thesis
    proof (cases rule: alloc_cases)
      case none
      with True x show ?thesis by (simp add: xsk_send_packet_def place_packet_def)
    next
      case (some a n l)
      let ?u = "?t\<lparr>umem_frame_free := n, umem_frame_addr := l, frames := (frames ?t)(frame_of a := take PACKET_SIZE d),
        tx := tx ?t @ [(a, PACKET_SIZE)], outstanding_tx := outstanding_tx ?t + 1\<rparr>"
      have "map_option (Pair 0) (complete_tx lib ?u) = Some (r1, s')"
        using x True some(2) by (simp add: xsk_send_packet_def place_packet_def Let_def split: if_splits)
      then have "complete_tx lib ?u = Some s'" by auto
      from complete_tx_data [OF this] have s': "x_got s' = x_got s" "x_wrote s' = x_wrote s" "x_agent s' = x_agent s"
        "frames s' = (frames s)(frame_of a := take PACKET_SIZE d)" using same by simp_all
      have "frame_of a \<in># held ?t" using some(4) by (simp add: held_def)
      then have "frame_of a \<notin># R" using held_not_running [OF acc] by blast
      with s' show ?thesis by auto
    qed
  qed
qed

lemma xsk_stamped_ts3 [simp]: "xsk_stamped (p\<lparr>ts3 := t\<rparr>) p"
  by (auto simp: xsk_stamped_def)

lemma process_client_got:
  assumes "process_packet_client iters a len s = Some (keep, s')"
  shows "x_got s' = x_got s @ received [(frames s (frame_of a), len)]" and "i \<noteq> frame_of a \<Longrightarrow> frames s' i = frames s i"
    and "xsk_recorded ag s \<Longrightarrow> length (frames s (frame_of a)) = len \<Longrightarrow> xsk_recorded ag s'"
proof -
  let ?pkt = "frames s (frame_of a)"
  show "x_got s' = x_got s @ received [(?pkt, len)]" "i \<noteq> frame_of a \<Longrightarrow> frames s' i = frames s i"
    using assms by (auto simp: process_packet_client_def Let_def get_time_ns_eq split: if_splits option.splits)
  assume rec: "xsk_recorded ag s" and len: "length ?pkt = len"
  show "xsk_recorded ag s'"
  proof (cases "xsk_accepts ?pkt len")
    case False
    with assms rec show ?thesis by (auto simp: process_packet_client_def Let_def get_time_ns_eq xsk_recorded_def)
  next
    case True
    let ?t = "reading s (nread s)"
    have q: "load_payload (store_ts ?pkt packet_payload 3 ?t) packet_payload = (load_payload ?pkt packet_payload)\<lparr>ts3 := ?t\<rparr>"
      using True len by (simp add: load_store_ts xsk_accepts_def packet_payload_def)
    from rec obtain ag' where ag: "x_agent s = Some ag'" "agent_writes ag (x_wrote s) = Some ag'" "list_all2 xsk_stamped (x_wrote s) (x_got s)"
      by (auto simp: xsk_recorded_def)
    with assms True q show ?thesis
      by (auto simp: process_packet_client_def Let_def get_time_ns_eq xsk_recorded_def agent_writes_snoc
          intro!: list_all2_appendI split: option.splits)
  qed
qed

interpretation xrc: xsk_receiver lib "process_packet_client iters"
  "{\<lambda>s. map_option (\<lambda>(r, b, s). s) (client_send_pp_packet lib buf i s) | buf i. True}" "xsk_recorded ag" for lib iters ag
proof unfold_locales
  fix a len s keep s'
  assume "process_packet_client iters a len s = Some (keep, s')"
  from process_client_got [OF this]
  show "x_got s' = x_got s @ received [(frames s (frame_of a), len)] \<and> (\<forall>i. i \<noteq> frame_of a \<longrightarrow> frames s' i = frames s i)"
    and "xsk_recorded ag s \<Longrightarrow> length (frames s (frame_of a)) = len \<Longrightarrow> xsk_recorded ag s'" by blast+
next
  fix f R s s'
  assume *: "f \<in> {\<lambda>s. map_option (\<lambda>(r, b, s). s) (client_send_pp_packet lib buf i s) | buf i. True}" "account R s" "f s = Some s'"
  then obtain buf i r b where "client_send_pp_packet lib buf i s = Some (r, b, s')" by auto
  with client_send_data [OF *(2)]
  show "x_got s' = x_got s \<and> x_wrote s' = x_wrote s \<and> x_agent s' = x_agent s \<and> (\<forall>i\<in>#R. frames s' i = frames s i)" by blast
qed (simp add: xsk_recorded_def)

lemma fill_frames_rings:
  "length (fq (fill_frames n t)) = length (fq t) + n \<and> umem_frame_free (fill_frames n t) = umem_frame_free t - n
   \<and> krx (fill_frames n t) = krx t \<and> tx (fill_frames n t) = tx t \<and> ktx (fill_frames n t) = ktx t \<and> cqr (fill_frames n t) = cqr t
   \<and> leaked (fill_frames n t) = leaked t \<and> rx (fill_frames n t) = rx t \<and> outstanding_tx (fill_frames n t) = outstanding_tx t
   \<and> x_exit (fill_frames n t) = x_exit t \<and> x_got (fill_frames n t) = x_got t \<and> x_wrote (fill_frames n t) = x_wrote t"
  by (induction n arbitrary: t) (auto simp: xsk_alloc_umem_frame_def Let_def split: prod.splits)

lemma configure_data:
  assumes "xsk_fresh s0" and "xsk_configure_socket lib s0 = Some s"
  shows "rx s = []" and "x_got s = []" and "x_wrote s = []"
proof -
  show "rx s = []" "x_got s = []" "x_wrote s = []"
    using assms fill_frames_rings by (auto simp: xsk_configure_socket_def Let_def xsk_fresh_def split: if_splits)
qed

lemma xsk_ok_agent [simp]: "xsk_ok (s\<lparr>x_agent := ag\<rparr>) = xsk_ok s"
  by (simp add: xsk_ok_def xsk_wf_def held_def free_stack_def)

section \<open>Properties\<close>

text \<open>C5: every accepted packet is received once, in order, with the content the kernel delivered. In every run of either build, whatever the
  kernel, the sender thread and the signal handler do in between, the payloads of the accepted packets that were delivered are those
  received, followed by those of the packets that still wait on the receive ring: no frame is overwritten while it waits.\<close>

theorem xsk_receives_in_order:
  assumes "xsk_fresh s0" and "xsk_lib_ok lib" and "xsk_configure_socket lib s0 = Some s1" and "agent_total ag"
    and "xsk_server_run lib iters s1 ps s \<or> xsk_client_run lib iters (s1\<lparr>x_agent := Some ag\<rparr>) ps s"
  shows "received ps = x_got s @ received (content s (rx s))"
proof -
  note ok = configure_ok [OF assms(1,3)] and d = configure_data [OF assms(1,3)]
  have "xsk_recorded ag (s1\<lparr>x_agent := Some ag\<rparr>)" using d by (simp add: xsk_recorded_def)
  then show ?thesis
    using assms(5) xrs.run_in_order [OF _ assms(2) ok d(1,2), of iters ps s]
      xrc.run_in_order [of lib iters "s1\<lparr>x_agent := Some ag\<rparr>" ps s ag, OF _ assms(2)] ok d
    by (auto simp: xsk_server_run_def xsk_client_run_def xrs.in_order_def xrc.in_order_def)
qed

text \<open>The configured socket of the examples, and a run in which the kernel takes the first frame of the fill ring and delivers a packet in it.\<close>

lemma demo_configured:
  assumes "xsk_configure_socket demo_lib demo_xsk = Some s1"
  shows "length (fq s1) = DEFAULT_NUM_DESCS" and "umem_frame_free s1 = DEFAULT_NUM_DESCS" and "krx s1 = []" "tx s1 = []" "rx s1 = []" "cqr s1 = []"
    and "outstanding_tx s1 = 0" "\<not> x_exit s1" "\<forall>a\<in>set (fq s1). valid_addr a"
proof -
  note ok = configure_ok [OF demo_xsk(2) assms] and data = configure_data [OF demo_xsk(2) assms]
  have l: "length (fq s1) = DEFAULT_NUM_DESCS" "umem_frame_free s1 = NUM_FRAMES - DEFAULT_NUM_DESCS" "krx s1 = []" "tx s1 = []"
    "ktx s1 = []" "cqr s1 = []" "leaked s1 = []" "outstanding_tx s1 = 0"
    using assms fill_frames_rings demo_xsk(2) by (auto simp: xsk_configure_socket_def Let_def xsk_fresh_def split: if_splits)
  have "\<not> x_exit demo_xsk" by (simp add: demo_xsk_def world.extend_def)
  then show "\<not> x_exit s1" using assms fill_frames_rings by (auto simp: xsk_configure_socket_def Let_def split: if_splits)
  show "length (fq s1) = DEFAULT_NUM_DESCS" "umem_frame_free s1 = DEFAULT_NUM_DESCS" "krx s1 = []" "tx s1 = []" "rx s1 = []" "cqr s1 = []"
    "outstanding_tx s1 = 0" using l data by (simp_all add: NUM_FRAMES_def DEFAULT_NUM_DESCS_def)
  have "size (held s1) = NUM_FRAMES" using ok data(1) size_all_frames by (metis add.right_neutral fr_simps(1) list.map_disc_iff xsk_ok_def)
  moreover have "length (free_stack s1) = umem_frame_free s1" using ok by (simp add: xsk_ok_def xsk_wf_def free_stack_def)
  ultimately have "length (filter valid_addr (fq s1)) = length (fq s1)"
    using l by (simp add: held_def NUM_FRAMES_def DEFAULT_NUM_DESCS_def)
  then show "\<forall>a\<in>set (fq s1). valid_addr a" by (metis filter_id_conv length_filter_less nat_neq_iff)
qed

lemma demo_delivery:
  assumes "xsk_configure_socket demo_lib demo_xsk = Some s1"
  shows "\<exists>s. xsk_server_run demo_lib 9 s1 [(demo_packet 7, 82)] s \<and> length (rx s) = 1 \<and> x_got s = []"
proof -
  note data = configure_data [OF demo_xsk(2) assms] and l = demo_configured [OF assms]
  obtain a r where f: "fq s1 = a # r" using l(1) by (cases "fq s1") (simp_all add: DEFAULT_NUM_DESCS_def)
  let ?s2 = "s1\<lparr>fq := r, krx := [a]\<rparr>"
  let ?s3 = "?s2\<lparr>krx := [], frames := (frames ?s2)(frame_of a := demo_packet 7), rx := [(a, length (demo_packet 7))]\<rparr>"
  have len: "length (demo_packet 7) = 82" by (simp add: demo_packet_def off_h_proto_def packet_payload_eq payload_size_def)
  let ?P = "process_packet_server demo_lib 9"
  have 2: "xsk_step demo_lib ?P {} s1 ?s2" using k_take [OF f, of demo_lib ?P "{}"] l(9) f l(3) by (simp add: valid_addr_def)
  have 3: "xsk_step demo_lib ?P {} ?s2 ?s3"
    using k_recv [of ?s2 a "[]" a "demo_packet 7" demo_lib ?P "{}"] data(1) len by (simp add: FRAME_SIZE_def)
  have "xsk_run demo_lib ?P {} s1 (([] @ delivery s1 ?s2) @ delivery ?s2 ?s3) ?s3"
    by (rule run_step [OF run_step [OF run_start 2] 3])
  moreover have "([] @ delivery s1 ?s2) @ delivery ?s2 ?s3 = [(demo_packet 7, 82)]" using data(1) len by (simp add: delivery_def)
  ultimately show ?thesis using data(2) by (intro exI [of _ ?s3]) (simp add: xsk_server_run_def)
qed

theorem xsk_receives_in_order_witness:
  "\<exists>s1 s. xsk_server_run demo_lib 9 s1 [(demo_packet 7, 82)] s \<and> x_got s = []
     \<and> received (content s (rx s)) = [new_pingpong_payload 7]"
proof -
  obtain s1 where c: "xsk_configure_socket demo_lib demo_xsk = Some s1" using demo_xsk(3) by blast
  obtain s where s: "xsk_server_run demo_lib 9 s1 [(demo_packet 7, 82)] s" "x_got s = []" using demo_delivery [OF c] by blast
  have "received [(demo_packet 7, 82)] = [new_pingpong_payload 7]"
    using demo_packet_pingpong [of 7] by (auto simp: pingpong_of_def xsk_accepts_def size_defs split: if_splits)
  with xsk_receives_in_order [OF demo_xsk(2,1) c demo_agent_total disjI1 [OF s(1)]] s show ?thesis by auto
qed

text \<open>C12: a whole run of the AF_XDP client, from the command line to the output file. Given well-formed arguments and a system that answers,
  \<^verbatim>\<open>main\<close> starts the loop and the sender thread; and in every run of them, the file that closing the agent leaves is read back as the
  identifiers and time stamps of the accepted packets the kernel delivered, once each, in order, with only the last time stamp
  replaced; only packets that still wait on the receive ring are missing.\<close>

theorem xsk_client_end_to_end:
  assumes "0 < n" "n < 2 ^ 63" "0 < i" "i < 2 ^ 31" and "e_malloc_agent (me_init env)" "e_malloc_data (me_init env)"
    and "e_fopen (me_init env) = Some f" "\<not> f_write_fails f" "\<not> f_close_fails f" "f_out f = ''''"
    and "xsk_fresh (so_socket env)" "xsk_lib_ok xlib"
    and "xsk_main_client env lib xlib [''-d'', dev, ''-p'', show_nat n, ''-i'', show_nat i, ''-s'', ip, ''-m'', show_nat 0] k
      = (Run (iters, s0, d), k1)"
    and "xsk_client_run xlib iters s0 ps s"
  shows "iters = of_nat n \<and> (me_malloc env \<and> me_pthread_create env = 0 \<longrightarrow> (\<exists>sd. d = Some sd \<and> s_iters sd = of_nat n \<and> s_interval sd = of_nat i))
    \<and> received ps = x_got s @ received (content s (rx s)) \<and> list_all2 xsk_stamped (x_wrote s) (x_got s)
    \<and> (\<exists>f'. fst (snd (xsk_main_end lib ix s k2)) = Some (0, Some f', True)
        \<and> parse_dat (f_out f') = map (map unat \<circ> dat_words) (x_wrote s))"
proof -
  let ?fl = "PERSISTENCE_M_ALL_TIMESTAMPS"
  have fl: "word_of_int (pers_measurement_to_flag 0) = ?fl" by (simp add: pers_measurement_to_flag_def)
  obtain ag where ag: "persistence_init (me_init env) (Some xsk_outfile) ?fl (of_nat i) = Some (Some ag)"
    using assms(5-7) by (simp add: persistence_init_def persistence_init0_def flag_defs Let_def)
  define op where "op = (main_opts None)\<lparr>o_iters := of_nat n, o_interval := of_nat i, o_server_ip := Some ip, o_pers_flags := ?fl,
    o_dev := Some dev, o_remove := False\<rparr>"
  have p: "xdp_client_parse_args [''-d'', dev, ''-p'', show_nat n, ''-i'', show_nat i, ''-s'', ip, ''-m'', show_nat 0] (main_opts None) = (True, op)"
    using xdp_client_args_parse [OF assms(1-4), of 0] by (simp add: op_def fl)
  obtain s1 a where m: "xsk_setup env xlib = Run s1" "s0 = s1\<lparr>x_agent := Some ag\<rparr>" "iters = of_nat n"
    "initialize_client env (of_nat n) (of_nat i) (me_ifindex env dev) a = Run d"
    using assms(13) ag by (auto simp: xsk_main_client_def p op_def name_index_def Let_def split: prod.splits option.splits main_out.splits)
  have c: "xsk_configure_socket xlib (so_socket env) = Some s1"
    using m(1) by (auto simp: xsk_setup_def xsk_create_socket_def split: if_splits option.splits)
  note ok = configure_ok [OF assms(11) c] and data = configure_data [OF assms(11) c]
  have "xsk_recorded ag s0" using data m(2) by (simp add: xsk_recorded_def)
  then have inv: "xrc.in_order ag ps s"
    using xrc.run_in_order [of xlib iters s0 ps s ag] assms(14) assms(12) ok data m(2) by (simp add: xsk_client_run_def)
  then obtain ag' where ag': "x_agent s = Some ag'" "agent_writes ag (x_wrote s) = Some ag'" "list_all2 xsk_stamped (x_wrote s) (x_got s)"
    by (auto simp: xrc.in_order_def xsk_recorded_def)
  have "\<exists>f'. agent_close ag' = Some (0, Some f', True) \<and> parse_dat (f_out f') = map (map unat \<circ> dat_words) (x_wrote s)"
    by (rule all_timestamps_end [OF ag assms(7-10) ag'(2)])
  moreover have "fst (snd (xsk_main_end lib ix s k2)) = agent_close ag'" by (simp add: xsk_main_end_def ag'(1) Let_def)
  moreover have "me_malloc env \<and> me_pthread_create env = 0 \<longrightarrow> (\<exists>sd. d = Some sd \<and> s_iters sd = of_nat n \<and> s_interval sd = of_nat i)"
    using m(4) by (auto simp: initialize_client_def start_sending_packets_def Let_def split: option.splits)
  ultimately show ?thesis using m(3) inv ag'(3) by (simp add: xrc.in_order_def)
qed

definition demo_sock_env :: sock_env where
  "demo_sock_env = main_env.extend demo_main_env \<lparr>so_addrs = demo_addrs, so_setrlimit = 0, so_memalign = 0, so_calloc_umem = True,
     so_umem_create = 0, so_calloc_socket = True, so_socket_create = 0, so_update_xskmap = 0, so_base_packet = Some (replicate PACKET_SIZE 0),
     so_socket = demo_xsk\<rparr>"

lemma demo_sock_env_fields:
  "so_socket demo_sock_env = demo_xsk" "me_init demo_sock_env = demo_env" "me_malloc demo_sock_env" "me_pthread_create demo_sock_env = 0"
  "me_ifindex demo_sock_env ''eth0'' = 2" "so_base_packet demo_sock_env = Some (replicate PACKET_SIZE 0)"
  "\<exists>s. xsk_setup demo_sock_env demo_lib = Run s"
  using demo_xsk(3)
  by (auto simp: demo_sock_env_def main_env.extend_def demo_main_env_def xsk_setup_def configure_xsk_umem_def xsk_create_socket_def)

theorem xsk_client_end_to_end_witness:
  "\<exists>s0 d k1 f'. xsk_main_client demo_sock_env demo_libbpf demo_lib
        [''-d'', ''eth0'', ''-p'', show_nat 9, ''-i'', show_nat 1000, ''-s'', ''10.0.0.1'', ''-m'', show_nat 0] demo_host0 = (Run (9, s0, d), k1)
    \<and> (\<exists>sd. d = Some sd \<and> s_iters sd = 9 \<and> s_interval sd = 1000)
    \<and> fst (snd (xsk_main_end demo_libbpf 2 s0 k1)) = Some (0, Some f', True) \<and> parse_dat (f_out f') = []"
proof -
  let ?argv = "[''-d'', ''eth0'', ''-p'', show_nat 9, ''-i'', show_nat 1000, ''-s'', ''10.0.0.1'', ''-m'', show_nat 0]"
  have load: "\<exists>k. xsk_load demo_libbpf 2 False demo_host0 = (None, k)"
    by (simp add: xsk_load_def read_xdp_file_def detach_xdp_def attach_xdp_def demo_libbpf_def demo_host0_def)
  obtain s1 where s1: "xsk_setup demo_sock_env demo_lib = Run s1" using demo_sock_env_fields by blast
  have p: "xdp_client_parse_args ?argv (main_opts None) = (True, (main_opts None)\<lparr>o_iters := of_nat 9, o_interval := of_nat 1000,
      o_server_ip := Some ''10.0.0.1'', o_pers_flags := PERSISTENCE_M_ALL_TIMESTAMPS, o_dev := Some ''eth0'', o_remove := False\<rparr>)"
    using xdp_client_args_parse [of 9 1000 0 "''eth0''" "''10.0.0.1''" "main_opts None"] by (simp add: pers_measurement_to_flag_def)
  obtain ag where ag: "persistence_init demo_env (Some xsk_outfile) PERSISTENCE_M_ALL_TIMESTAMPS 1000 = Some (Some ag)"
    by (simp add: persistence_init_def persistence_init0_def demo_env_def demo_file_def flag_defs Let_def)
  let ?a = "fst (snd (exchange_eth_ip_addresses (me_if demo_sock_env) (me_xchg demo_sock_env) 2 False (me_junk demo_sock_env) (so_addrs demo_sock_env)))"
  obtain d where i: "initialize_client demo_sock_env 9 1000 2 ?a = Run d"
    by (simp add: initialize_client_def demo_sock_env_fields Let_def)
  obtain k1 where m: "xsk_main_client demo_sock_env demo_libbpf demo_lib ?argv demo_host0 = (Run (9, s1\<lparr>x_agent := Some ag\<rparr>, d), k1)"
    using load p s1 ag i by (auto simp: xsk_main_client_def name_index_def demo_sock_env_fields main_opts_def Let_def)
  have run: "xsk_client_run demo_lib 9 (s1\<lparr>x_agent := Some ag\<rparr>) [] (s1\<lparr>x_agent := Some ag\<rparr>)"
    unfolding xsk_client_run_def by (rule run_start)
  have c: "xsk_configure_socket demo_lib demo_xsk = Some s1"
    using s1 by (auto simp: xsk_setup_def xsk_create_socket_def demo_sock_env_fields split: if_splits option.splits)
  have e: "e_malloc_agent (me_init demo_sock_env)" "e_malloc_data (me_init demo_sock_env)" "e_fopen (me_init demo_sock_env) = Some demo_file"
    "\<not> f_write_fails demo_file" "\<not> f_close_fails demo_file" "f_out demo_file = ''''" "xsk_fresh (so_socket demo_sock_env)"
    using demo_xsk by (simp_all add: demo_sock_env_fields demo_env_def demo_file_def)
  from xsk_client_end_to_end [of 9 1000, OF _ _ _ _ e demo_xsk(1) m run] m configure_data(3) [OF demo_xsk(2) c] show ?thesis
    by (auto simp: demo_sock_env_fields)
qed

end
