(* ===== verification/Xsk_Starvation.thy ===== *)
theory Xsk_Starvation
  imports Xsk_Record
begin

text \<open>
  How the client of the AF_XDP program runs out of frames. Receiving hands every free frame to the kernel, so nothing is left for sending; and
  \<^verbatim>\<open>xsk_send_packet\<close> does not test what \<^verbatim>\<open>xsk_alloc_umem_frame\<close> answers.
\<close>

section \<open>A run of the client\<close>

definition client_reach :: "xsk \<Rightarrow> (bytes \<times> nat) list \<Rightarrow> xsk \<Rightarrow> bool" where
  "client_reach = xsk_client_run demo_lib 9"

lemma client_start: "client_reach s [] s"
  unfolding client_reach_def xsk_client_run_def by (rule run_start)

lemma client_next:
  assumes "client_reach s1 ps s" and "xsk_client_step demo_lib 9 s s'" and "qs = ps @ delivery s s'"
  shows "client_reach s1 qs s'"
  using run_step [of demo_lib _ _ s1 ps s s'] assms unfolding client_reach_def xsk_client_run_def xsk_client_step_def by blast

text \<open>The kernel takes all frames of the fill ring.\<close>

lemma kernel_takes:
  assumes "krx s = []" "\<forall>a\<in>set (fq s). valid_addr a"
  shows "n \<le> length (fq s) \<Longrightarrow> client_reach s [] (s\<lparr>fq := drop n (fq s), krx := take n (fq s)\<rparr>)"
proof (induction n)
  case 0
  have "s\<lparr>fq := fq s, krx := []\<rparr> = s" using assms(1) by simp
  then show ?case by (simp add: client_start)
next
  case (Suc n)
  let ?s = "s\<lparr>fq := drop n (fq s), krx := take n (fq s)\<rparr>"
  have n: "n < length (fq s)" using Suc.prems by simp
  then have f: "fq ?s = fq s ! n # drop (Suc n) (fq s)" by (simp add: Cons_nth_drop_Suc)
  have v: "frame_of (fq s ! n) < NUM_FRAMES" using assms(2) n by (simp add: valid_addr_def)
  let ?s' = "?s\<lparr>fq := drop (Suc n) (fq s), krx := krx ?s @ [fq s ! n]\<rparr>"
  have "xsk_client_step demo_lib 9 ?s ?s'"
    unfolding xsk_client_step_def by (rule k_take [OF f v])
  from client_next [OF _ this] Suc n have "client_reach s [] ?s'" by (simp add: delivery_def)
  with n show ?case by (simp add: take_Suc_conv_app_nth)
qed

text \<open>The packet that arrives: it passes the filter and the checks of the program, which records it and frees its frame.\<close>

lemma arriving_packet:
  "length (demo_packet 7) = 82" "xsk_accepts (demo_packet 7) 82" "load_payload (demo_packet 7) packet_payload = new_pingpong_payload 7"
    "xdp_xsk redirect (demo_packet 7) = redirect XDP_DROP"
proof -
  show "length (demo_packet 7) = 82" by (simp add: demo_packet_def off_h_proto_def packet_payload_eq payload_size_def)
  show "xsk_accepts (demo_packet 7) 82" "load_payload (demo_packet 7) packet_payload = new_pingpong_payload 7"
    using demo_packet_pingpong [of 7] by (auto simp: pingpong_of_def xsk_accepts_def size_defs split: if_splits)
  show "xdp_xsk redirect (demo_packet 7) = redirect XDP_DROP" using xsk_filter_agrees [of redirect "demo_packet 7"] demo_packet_pingpong [of 7] by simp
qed

lemma process_arriving:
  assumes "frames t (frame_of a) = demo_packet 7" "x_agent t = Some ag" "agent_total ag"
  obtains t' where "process_packet_client 9 a 82 t = Some (False, t')" "umem_frame_free t' = umem_frame_free t" "tx t' = tx t"
    "outstanding_tx t' = outstanding_tx t" "cqr t' = cqr t" "x_exit t' = x_exit t" "x_got t' = x_got t @ [new_pingpong_payload 7]"
    "length (x_wrote t') = length (x_wrote t) + 1" "rx t' = rx t"
proof -
  let ?q = "load_payload (store_ts (demo_packet 7) packet_payload 3 (fst (get_time_ns t))) packet_payload"
  obtain rc ag' where w: "agent_write ag ?q = Some (rc, ag')" using agent_total_next [OF assms(3), of "[]" ag ?q] by auto
  have "pp_id (new_pingpong_payload 7) = 7" by (simp add: new_pingpong_payload_def)
  then have "\<exists>t'. process_packet_client 9 a 82 t = Some (False, t') \<and> umem_frame_free t' = umem_frame_free t \<and> tx t' = tx t
    \<and> outstanding_tx t' = outstanding_tx t \<and> cqr t' = cqr t \<and> x_exit t' = x_exit t \<and> x_got t' = x_got t @ [new_pingpong_payload 7]
    \<and> length (x_wrote t') = length (x_wrote t) + 1 \<and> rx t' = rx t"
    using assms(1,2) w arriving_packet(2,3) by (simp add: process_packet_client_def Let_def get_time_ns_eq)
  then show thesis using that by blast
qed

lemma fill_frames_frames: "frames (fill_frames n t) = frames t \<and> x_agent (fill_frames n t) = x_agent t"
  by (induction n arbitrary: t) (auto simp: xsk_alloc_umem_frame_def Let_def split: prod.splits)

text \<open>The round that processes it first refills the fill ring with all that is free.\<close>

lemma round_takes_all:
  assumes "fq s = []" "umem_frame_free s = DEFAULT_NUM_DESCS" "rx s = [(a, 82)]" "outstanding_tx s = 0" "tx s = []" "cqr s = []"
    and "frames s (frame_of a) = demo_packet 7" "x_agent s = Some ag" "agent_total ag" "\<not> x_exit s" "x_got s = []" "x_wrote s = []"
  shows "\<exists>s'. handle_receive_packets demo_lib (process_packet_client 9) s = Some s' \<and> umem_frame_free s' = 1 \<and> tx s' = [] \<and> cqr s' = []
    \<and> rx s' = [] \<and> \<not> x_exit s' \<and> x_got s' = [new_pingpong_payload 7] \<and> length (x_wrote s') = 1"
proof -
  let ?t = "s\<lparr>calls := calls s + 3\<rparr>"
  let ?u = "fill_frames DEFAULT_NUM_DESCS ?t"
  have u: "umem_frame_free ?u = 0" "tx ?u = []" "outstanding_tx ?u = 0" "cqr ?u = []" "rx ?u = [(a, 82)]" "\<not> x_exit ?u" "x_got ?u = []" "x_wrote ?u = []"
    using fill_frames_rings [of DEFAULT_NUM_DESCS ?t] assms by simp_all
  have d: "frames ?u (frame_of a) = demo_packet 7" "x_agent ?u = Some ag"
    using fill_frames_frames [of DEFAULT_NUM_DESCS ?t] assms by simp_all
  have w: "wait_reserve demo_lib n m n t = Some t" for n m t by (subst wait_reserve.simps) simp
  have st: "stock_fill_ring demo_lib 1 (s\<lparr>calls := calls s + 1\<rparr>) = Some ?u"
    using assms(1,2) w by (simp add: stock_fill_ring_def demo_lib_def Let_def DEFAULT_NUM_DESCS_def numeral_3_eq_3)
  obtain v where v: "process_packet_client 9 a 82 ?u = Some (False, v)" "umem_frame_free v = 0" "tx v = []" "outstanding_tx v = 0" "cqr v = []"
    "\<not> x_exit v" "x_got v = [new_pingpong_payload 7]" "length (x_wrote v) = 1" "rx v = [(a, 82)]"
    by (rule process_arriving [OF d assms(9)]) (use u in simp_all)
  let ?w = "v\<lparr>umem_frame_addr := (umem_frame_addr v)[0 := a], umem_frame_free := 1\<rparr>"
  have "xsk_free_umem_frame a v = Some ?w" using v by (simp add: xsk_free_umem_frame_def NUM_FRAMES_def)
  then have "process_all (process_packet_client 9) [(a, 82)] ?u = Some ?w" by (simp add: v(1))
  moreover have "l_peek demo_lib (calls s) (length (rx s)) RX_BATCH_SIZE = 1" using assms(3) by (simp add: demo_lib_def RX_BATCH_SIZE_def)
  ultimately have "handle_receive_packets demo_lib (process_packet_client 9) s = Some (?w\<lparr>rx := drop 1 (rx ?w)\<rparr>)"
    using st assms(3) u(5) v(4) by (simp add: handle_receive_packets_def complete_tx_def Let_def del: process_all.simps)
  then show ?thesis using v by simp
qed

text \<open>One send uses the last frame; the next has none.\<close>

lemma send_last_frame:
  assumes "xsk_ok s" "umem_frame_free s = 1" "tx s = []" "cqr s = []"
  shows "\<exists>b s'. client_send_pp_packet demo_lib buf i s = Some (0, b, s') \<and> umem_frame_free s' = 0 \<and> length (tx s') = 1
    \<and> rx s' = rx s \<and> x_exit s' = x_exit s \<and> x_got s' = x_got s \<and> x_wrote s' = x_wrote s"
proof -
  let ?s = "snd (get_time_ns s)"
  let ?t = "?s\<lparr>calls := calls ?s + 1\<rparr>"
  have "account (fr (map fst (rx s))) s" using assms(1) by (simp add: xsk_ok_def account_def)
  then have acc: "account (fr (map fst (rx s))) ?t" by (rule account_world) (simp_all add: get_time_ns_eq)
  have wf: "xsk_wf ?t" using acc by (simp add: account_def)
  then obtain a l where a: "xsk_alloc_umem_frame ?t = (a, ?t\<lparr>umem_frame_free := 0, umem_frame_addr := l\<rparr>)" "a \<in> set (free_stack ?t)"
    by (rule alloc_cases) (use assms(2) in \<open>auto simp: get_time_ns_eq\<close>)
  have n: "a \<noteq> INVALID_UMEM_FRAME" using account_bounds(3) [OF acc] a(2) invalid_frame by metis
  have r: "l_reserve demo_lib k (DEFAULT_NUM_DESCS - length (tx ?s)) (Suc 0) = Suc 0" for k
    using assms(3) by (simp add: demo_lib_def get_time_ns_eq DEFAULT_NUM_DESCS_def)
  define t where "t = ?t\<lparr>umem_frame_free := 0, umem_frame_addr := l\<rparr>"
  have t: "tx t = []" "umem_frame_free t = 0" "cqr t = []" "rx t = rx s" "x_exit t = x_exit s" "x_got t = x_got s" "x_wrote t = x_wrote s"
    using assms(3,4) by (simp_all add: t_def get_time_ns_eq)
  have "xsk_send_packet demo_lib (User_buffer d) PACKET_SIZE True ?s
      = map_option (Pair 0) (complete_tx demo_lib (t\<lparr>frames := (frames t)(frame_of a := take PACKET_SIZE d), tx := [(a, PACKET_SIZE)], outstanding_tx := outstanding_tx t + 1\<rparr>))" for d
    using a(1) n r t(1) by (simp add: xsk_send_packet_def place_packet_def Let_def t_def)
  then show ?thesis using t by (simp add: client_send_pp_packet_def complete_tx_def demo_lib_def Let_def)
qed

lemma send_none:
  assumes "umem_frame_free s = 0" "length (tx s) < DEFAULT_NUM_DESCS"
  shows "client_send_pp_packet demo_lib buf i s = None"
    and "l_reserve demo_lib (calls s) (DEFAULT_NUM_DESCS - length (tx s)) 1 = 1"
    and "t = (snd (get_time_ns s))\<lparr>calls := calls s + 1\<rparr> \<Longrightarrow> xsk_alloc_umem_frame t = (INVALID_UMEM_FRAME, t) \<and> place_packet (User_buffer d) len t = None"
  using assms
  by (simp_all add: client_send_pp_packet_def xsk_send_packet_def place_packet_def xsk_alloc_umem_frame_def demo_lib_def get_time_ns_eq Let_def)

section \<open>Properties\<close>

text \<open>C40: the client of the AF_XDP program can run out of frames and then write outside the packet memory. There is a run in which the kernel
  delivers a single packet, one that the filter redirects to the socket, the program receives it and records it, and the sender thread
  sends a single packet (it waits on the transmit ring), and which ends in a state that has no free frame: the next call of the sender
  thread, whatever it sends, is given a slot of the transmit ring, but the frame it takes for the packet is
  \<^verbatim>\<open>INVALID_UMEM_FRAME\<close>, to which it copies the packet without a test.\<close>

theorem xsk_client_out_of_frames:
  "\<exists>s1 s. xsk_configure_socket demo_lib demo_xsk = Some s1
    \<and> xsk_client_run demo_lib 9 (s1\<lparr>x_agent := Some (demo_agent 4 0)\<rparr>) [(demo_packet 7, 82)] s
    \<and> (\<forall>redirect. xdp_xsk redirect (demo_packet 7) = redirect XDP_DROP)
    \<and> x_got s = [new_pingpong_payload 7] \<and> length (x_wrote s) = 1 \<and> rx s = [] \<and> length (tx s) = 1 \<and> \<not> x_exit s
    \<and> umem_frame_free s = 0 \<and> l_reserve demo_lib (calls s) (DEFAULT_NUM_DESCS - length (tx s)) 1 = 1
    \<and> (let t = (snd (get_time_ns s))\<lparr>calls := calls s + 1\<rparr> in
          xsk_alloc_umem_frame t = (INVALID_UMEM_FRAME, t) \<and> (\<forall>buf. place_packet (User_buffer buf) PACKET_SIZE t = None))
    \<and> (\<forall>buf i. client_send_pp_packet demo_lib buf i s = None)"
proof -
  obtain s1 where c: "xsk_configure_socket demo_lib demo_xsk = Some s1" using demo_xsk(3) by blast
  note l = demo_configured [OF c] configure_data [OF demo_xsk(2) c]
  define s0 where "s0 = s1\<lparr>x_agent := Some (demo_agent 4 0)\<rparr>"
  define sa where "sa = s0\<lparr>fq := [], krx := fq s0\<rparr>"
  have ra: "client_reach s0 [] sa" using kernel_takes [of s0 "length (fq s0)"] l by (simp add: sa_def s0_def)
  obtain a r where f: "fq s0 = a # r" using l(1) by (cases "fq s1") (simp_all add: DEFAULT_NUM_DESCS_def s0_def)
  define sb where "sb = sa\<lparr>krx := r, frames := (frames sa)(frame_of a := demo_packet 7), rx := [(a, length (demo_packet 7))]\<rparr>"
  have "xsk_client_step demo_lib 9 sa sb"
    unfolding xsk_client_step_def using k_recv [of sa a r a "demo_packet 7"] f l(5) arriving_packet(1) by (simp add: sa_def sb_def s0_def FRAME_SIZE_def)
  with ra have rb: "client_reach s0 [(demo_packet 7, 82)] sb"
    by (rule client_next) (use l(5) arriving_packet(1) in \<open>simp add: delivery_def sb_def sa_def s0_def\<close>)
  have sb: "fq sb = []" "umem_frame_free sb = DEFAULT_NUM_DESCS" "rx sb = [(a, 82)]" "outstanding_tx sb = 0" "tx sb = []" "cqr sb = []"
    "frames sb (frame_of a) = demo_packet 7" "x_agent sb = Some (demo_agent 4 0)" "\<not> x_exit sb" "x_got sb = []" "x_wrote sb = []"
    using l arriving_packet(1) by (simp_all add: sb_def sa_def s0_def)
  obtain sc where sc: "handle_receive_packets demo_lib (process_packet_client 9) sb = Some sc" "umem_frame_free sc = 1" "tx sc = []" "cqr sc = []"
    "rx sc = []" "\<not> x_exit sc" "x_got sc = [new_pingpong_payload 7]" "length (x_wrote sc) = 1"
    using round_takes_all [OF sb(1-8) demo_agent_total sb(9-11)] by blast
  have "xsk_client_step demo_lib 9 sb sc" unfolding xsk_client_step_def by (rule x_main [OF sb(9) sc(1)])
  with rb have rc: "client_reach s0 [(demo_packet 7, 82)] sc" by (rule client_next) (simp add: delivery_def sc(5))
  have "xsk_recorded (demo_agent 4 0) s0" using l by (simp add: xsk_recorded_def s0_def)
  then have ok: "xsk_ok sc"
    using xrc.run_in_order [of demo_lib 9 s0 _ sc "demo_agent 4 0", OF _ demo_xsk(1)] rc configure_ok [OF demo_xsk(2) c] l
    unfolding client_reach_def xsk_client_run_def s0_def by auto
  obtain b sd where sd: "client_send_pp_packet demo_lib [] 1 sc = Some (0, b, sd)" "umem_frame_free sd = 0" "length (tx sd) = 1"
    "rx sd = []" "\<not> x_exit sd" "x_got sd = [new_pingpong_payload 7]" "length (x_wrote sd) = 1"
    using send_last_frame [OF ok sc(2-4), of "[]" 1] sc(5-8) by auto
  have "xsk_client_step demo_lib 9 sc sd"
    unfolding xsk_client_step_def
    by (rule x_send [where f = "\<lambda>s. map_option (\<lambda>(r, b, s). s) (client_send_pp_packet demo_lib [] 1 s)"]) (use sd(1) in auto)
  with rc have run: "client_reach s0 [(demo_packet 7, 82)] sd" by (rule client_next) (simp add: delivery_def sd(4))
  have tx: "length (tx sd) < DEFAULT_NUM_DESCS" using sd(3) by (simp add: DEFAULT_NUM_DESCS_def)
  note n = send_none [OF sd(2) tx]
  show ?thesis
    using c run sd(2-7) arriving_packet(4) n(1,2) n(3) [OF refl]
    unfolding client_reach_def s0_def Let_def by (intro exI [of _ s1] exI [of _ sd] conjI allI) simp_all
qed

end
