(* ===== verification/Nobypass.thy ===== *)
theory Nobypass
  imports Net Persistence
begin

text \<open>
  The baseline program over ordinary UDP sockets (\<^verbatim>\<open>no-bypass/main.c\<close>). The two loops consume a list of events: a
  datagram that \<^verbatim>\<open>recvfrom\<close> returns, a failure of it, or the interrupt signal. \<open>N_Undef\<close> marks a call into the
  persistence agent without a defined result. A datagram shorter than the buffer leaves the rest of the buffer as
  it was.
\<close>

section \<open>Definitions\<close>

datatype nb_event = Datagram bytes | Recv_error | Interrupt
datatype nb_pc = N_Run | N_Done | N_Undef

subsection \<open>The server\<close>

record nb_server =
  nb_buf :: bytes
  nb_last :: u64
  nb_exit :: bool
  nb_world :: world
  nb_pc :: nb_pc
  nb_got :: "pingpong_payload list"

text \<open>The loop body after \<^verbatim>\<open>recvfrom\<close> filled the buffer, and the test of the loop condition.\<close>

definition nb_server_body :: "u64 \<Rightarrow> bytes \<Rightarrow> nb_server \<Rightarrow> nb_server" where
  "nb_server_body iters d s =
     (let buf = recv_at (nb_buf s) d;
          ts = get_time_ns (nb_world s);
          b1 = store_ts buf 0 1 (fst ts);
          last_idx = max (nb_last s) (pp_id (load_payload b1 0));
          t2 = get_time_ns (snd ts);
          b2 = store_ts b1 0 2 (fst t2);
          r = sys_sendto (take PACKET_SIZE b2) (snd t2)
      in s\<lparr>nb_buf := b2, nb_last := last_idx, nb_world := snd r, nb_got := nb_got s @ [load_payload buf 0],
           nb_pc := (if fst r < 0 then N_Done else if last_idx < iters \<and> \<not> nb_exit s then N_Run else N_Done)\<rparr>)"

definition nb_server_step :: "u64 \<Rightarrow> nb_server \<Rightarrow> nb_event \<Rightarrow> nb_server" where
  "nb_server_step iters s e =
     (case e of
        Interrupt \<Rightarrow> s\<lparr>nb_exit := True\<rparr>
      | Recv_error \<Rightarrow> (if nb_pc s = N_Run then s\<lparr>nb_world := snd (get_time_ns (nb_world s)), nb_pc := N_Done\<rparr> else s)
      | Datagram d \<Rightarrow> (if nb_pc s = N_Run then nb_server_body iters d s else s))"

definition nb_server_start :: "u64 \<Rightarrow> int \<Rightarrow> bytes \<Rightarrow> world \<Rightarrow> nb_server" where
  "nb_server_start iters bind_ret junk w =
     \<lparr>nb_buf = junk, nb_last = 0, nb_exit = False, nb_world = w,
      nb_pc = (if bind_ret < 0 then N_Done else if 0 < iters then N_Run else N_Done), nb_got = []\<rparr>"

subsection \<open>The client\<close>

definition send_single_packet :: "'a send_packet_t" where
  "send_single_packet buf packet_idx w =
     (let b = store_payload buf 0 (new_pingpong_payload packet_idx);
          t = get_time_ns w;
          b = store_ts b 0 0 (fst t);
          r = sys_sendto (take PACKET_SIZE b) (snd t)
      in (fst r, b, snd r))"

record nb_client =
  nc_buf :: bytes
  nc_last :: u32
  nc_exit :: bool
  nc_agent :: persistence_agent
  nc_world :: world
  nc_pc :: nb_pc
  nc_got :: "pingpong_payload list"
  nc_wrote :: "pingpong_payload list"

text \<open>\<^verbatim>\<open>last_idx\<close> is a 32-bit variable: the maximum is computed in 64 bits and cut when it is stored.\<close>

definition nb_client_body :: "u64 \<Rightarrow> bytes \<Rightarrow> nb_client \<Rightarrow> nb_client" where
  "nb_client_body iters d c =
     (let buf = recv_at (nc_buf c) d;
          t = get_time_ns (nc_world c);
          b = store_ts buf 0 3 (fst t);
          p = load_payload b 0
      in case agent_write (nc_agent c) p of
           None \<Rightarrow> c\<lparr>nc_pc := N_Undef\<rparr>
         | Some (_, ag) \<Rightarrow>
             (let last_idx = ucast (max (ucast (nc_last c)) (pp_id p) :: u64) :: u32 in
              c\<lparr>nc_buf := b, nc_last := last_idx, nc_agent := ag, nc_world := snd t,
                nc_got := nc_got c @ [load_payload buf 0], nc_wrote := nc_wrote c @ [p],
                nc_pc := (if ucast last_idx < iters \<and> \<not> nc_exit c then N_Run else N_Done)\<rparr>))"

definition nb_client_step :: "u64 \<Rightarrow> nb_client \<Rightarrow> nb_event \<Rightarrow> nb_client" where
  "nb_client_step iters c e =
     (case e of
        Interrupt \<Rightarrow> c\<lparr>nc_exit := True\<rparr>
      | Recv_error \<Rightarrow> (if nc_pc c = N_Run then c\<lparr>nc_pc := N_Done\<rparr> else c)
      | Datagram d \<Rightarrow> (if nc_pc c = N_Run then nb_client_body iters d c else c))"

definition nb_client_start :: "u64 \<Rightarrow> bytes \<Rightarrow> persistence_agent \<Rightarrow> world \<Rightarrow> nb_client" where
  "nb_client_start iters junk ag w =
     \<lparr>nc_buf = junk, nc_last = 0, nc_exit = False, nc_agent = ag, nc_world = w,
      nc_pc = (if 0 < iters then N_Run else N_Done), nc_got = [], nc_wrote = []\<rparr>"

section \<open>Sending\<close>

interpretation nb_sender: packet_sender send_single_packet "\<lambda>b. length b = PACKET_SIZE" "\<lambda>p. pp_id (load_payload p 0)"
proof unfold_locales
  fix buf :: bytes and w :: "'a world_scheme" and i
  assume *: "length buf = PACKET_SIZE" "link_up w" "clock_advances w"
  define b where "b = store_ts (store_payload buf 0 (new_pingpong_payload i)) 0 0 (reading w (nread w))"
  have off: "0 + payload_size \<le> length buf" using *(1) by (simp add: payload_size_def PACKET_SIZE_def)
  have len: "length b = PACKET_SIZE" using off *(1) by (simp add: b_def)
  have "load_payload b 0 = (new_pingpong_payload i)\<lparr>ts0 := reading w (nread w)\<rparr>"
    using off by (simp add: b_def load_store_ts load_store_payload)
  moreover have "0 \<le> send_ret w (nsend w)" using *(2) by (simp add: link_up_def)
  ultimately show "\<exists>r buf' w' pkt. send_single_packet buf i w = (r, buf', w') \<and> 0 \<le> r \<and> length buf' = PACKET_SIZE
      \<and> sent w' = sent w @ [pkt] \<and> pp_id (load_payload pkt 0) = i \<and> link_up w' \<and> clock_advances w'"
    using *(2,3) len by (simp add: send_single_packet_def Let_def get_time_ns_eq sys_sendto_def b_def [symmetric])
qed

section \<open>The server loop\<close>

definition nb_echoes :: "bytes \<Rightarrow> pingpong_payload \<Rightarrow> bool" where
  "nb_echoes pkt p \<longleftrightarrow> length pkt = PACKET_SIZE \<and> (\<exists>t1 t2. load_payload pkt 0 = p\<lparr>ts1 := t1, ts2 := t2\<rparr>)"

definition nb_server_inv :: "nb_server \<Rightarrow> bool" where
  "nb_server_inv s \<longleftrightarrow> length (nb_buf s) = PACKET_SIZE \<and> link_up (nb_world s)
     \<and> list_all2 nb_echoes (sent (nb_world s)) (nb_got s) \<and> nb_last s = foldl max 0 (map pp_id (nb_got s))"

lemma nb_server_body_inv:
  assumes "nb_server_inv s"
  shows "nb_server_inv (nb_server_body iters d s)"
proof -
  let ?w = "nb_world s" and ?buf = "recv_at (nb_buf s) d"
  define b1 where "b1 = store_ts ?buf 0 (Suc 0) (reading ?w (nread ?w))"
  define b2 where "b2 = store_ts b1 0 2 (reading ?w (Suc (nread ?w)))"
  have len: "length ?buf = PACKET_SIZE" using assms by (simp add: nb_server_inv_def length_recv_at)
  then have off: "0 + payload_size \<le> length ?buf" by (simp add: payload_size_def PACKET_SIZE_def)
  have l1: "length b1 = PACKET_SIZE" using off len by (simp add: b1_def)
  have l2: "length b2 = PACKET_SIZE" using off len l1 by (simp add: b2_def)
  have ld1: "load_payload b1 0 = (load_payload ?buf 0)\<lparr>ts1 := reading ?w (nread ?w)\<rparr>" using off by (simp add: b1_def load_store_ts)
  then have "load_payload b2 0 = (load_payload ?buf 0)\<lparr>ts1 := reading ?w (nread ?w), ts2 := reading ?w (Suc (nread ?w))\<rparr>"
    using off len l1 by (simp add: b2_def load_store_ts)
  then have "nb_echoes b2 (load_payload ?buf 0)" unfolding nb_echoes_def using l2 by blast
  then have "list_all2 nb_echoes (sent ?w @ [b2]) (nb_got s @ [load_payload ?buf 0])"
    using assms by (simp add: nb_server_inv_def list_all2_appendI)
  moreover have "0 \<le> send_ret ?w (nsend ?w)" using assms by (simp add: nb_server_inv_def link_up_def)
  ultimately show ?thesis
    using assms l2 ld1
    by (simp add: nb_server_body_def nb_server_inv_def Let_def get_time_ns_eq sys_sendto_def b1_def [symmetric] b2_def [symmetric])
qed

lemma nb_server_run_inv:
  assumes "length junk = PACKET_SIZE" and "link_up w" and "sent w = []"
  shows "nb_server_inv (foldl (nb_server_step iters) (nb_server_start iters bind_ret junk w) es)"
proof (induction es rule: rev_induct)
  case Nil
  show ?case using assms by (simp add: nb_server_inv_def nb_server_start_def)
next
  case (snoc e es)
  then show ?case
    by (cases e) (auto simp: nb_server_step_def nb_server_body_inv, auto simp: nb_server_inv_def get_time_ns_eq)
qed

section \<open>The client loop\<close>

definition stamped :: "pingpong_payload \<Rightarrow> pingpong_payload \<Rightarrow> bool" where
  "stamped w p \<longleftrightarrow> (\<exists>t. w = p\<lparr>ts3 := t\<rparr>)"

definition nb_client_inv :: "persistence_agent \<Rightarrow> nb_client \<Rightarrow> bool" where
  "nb_client_inv ag0 c \<longleftrightarrow> length (nc_buf c) = PACKET_SIZE \<and> nc_pc c \<noteq> N_Undef
     \<and> agent_writes ag0 (nc_wrote c) = Some (nc_agent c) \<and> list_all2 stamped (nc_wrote c) (nc_got c)"

lemma nb_client_body_inv:
  assumes "nb_client_inv ag0 c" and "agent_total ag0"
  shows "nb_client_inv ag0 (nb_client_body iters d c)"
proof -
  let ?w = "nc_world c" and ?buf = "recv_at (nc_buf c) d"
  define b where "b = store_ts ?buf 0 3 (reading ?w (nread ?w))"
  have len: "length ?buf = PACKET_SIZE" using assms by (simp add: nb_client_inv_def length_recv_at)
  then have off: "0 + payload_size \<le> length ?buf" by (simp add: payload_size_def PACKET_SIZE_def)
  have lb: "length b = PACKET_SIZE" using off len by (simp add: b_def)
  have ld: "load_payload b 0 = (load_payload ?buf 0)\<lparr>ts3 := reading ?w (nread ?w)\<rparr>" using off by (simp add: b_def load_store_ts)
  obtain rc ag where wr: "agent_write (nc_agent c) (load_payload b 0) = Some (rc, ag)"
    "agent_writes ag0 (nc_wrote c @ [load_payload b 0]) = Some ag"
    using agent_total_next [OF assms(2), of "nc_wrote c" "nc_agent c" "load_payload b 0"] assms(1) unfolding nb_client_inv_def by blast
  have "stamped (load_payload b 0) (load_payload ?buf 0)" unfolding stamped_def ld by blast
  then have "list_all2 stamped (nc_wrote c @ [load_payload b 0]) (nc_got c @ [load_payload ?buf 0])"
    using assms(1) by (simp add: nb_client_inv_def list_all2_appendI)
  with wr lb show ?thesis
    by (simp add: nb_client_body_def nb_client_inv_def Let_def get_time_ns_eq b_def [symmetric])
qed

lemma nb_client_run_inv:
  assumes "length junk = PACKET_SIZE" and "agent_total ag"
  shows "nb_client_inv ag (foldl (nb_client_step iters) (nb_client_start iters junk ag w) es)"
proof (induction es rule: rev_induct)
  case Nil
  show ?case using assms by (simp add: nb_client_inv_def nb_client_start_def)
next
  case (snoc e es)
  then show ?case
    by (cases e) (auto simp: nb_client_step_def nb_client_body_inv [OF _ assms(2)], auto simp: nb_client_inv_def)
qed

lemma nb_client_step_running:
  assumes "\<not> nc_exit c" and "nc_pc c = N_Run" and "nc_pc (nb_client_body iters d c) \<noteq> N_Undef"
    and "\<And>x :: u32. (ucast x :: u64) < iters"
  shows "nc_pc (nb_client_step iters c (Datagram d)) = N_Run"
  using assms by (auto simp: nb_client_step_def nb_client_body_def Let_def split: option.splits)

section \<open>Properties\<close>

text \<open>the UDP server echoes every datagram. While sending succeeds, the packets sent are, one for one and in order, the
  received payloads with only the two server timestamps replaced, each of full size; the progress counter is the
  greatest identifier received.\<close>

theorem nobypass_server_echoes:
  assumes "length junk = PACKET_SIZE" and "link_up w" and "sent w = []"
    and "s = foldl (nb_server_step iters) (nb_server_start iters bind_ret junk w) es"
  shows "list_all2 nb_echoes (sent (nb_world s)) (nb_got s) \<and> nb_last s = foldl max 0 (map pp_id (nb_got s))"
  using nb_server_run_inv [OF assms(1-3), of iters bind_ret es] assms(4) by (simp add: nb_server_inv_def)

theorem nobypass_server_echoes_witness:
  "let s = foldl (nb_server_step 3) (nb_server_start 3 0 (replicate 1024 0) demo_world) [Datagram (replicate 1024 1), Datagram [7]] in
   list_all2 nb_echoes (sent (nb_world s)) (nb_got s)"
  using nobypass_server_echoes [OF _ demo_clock(2) _ refl, where junk = "replicate 1024 0" and iters = 3 and bind_ret = 0
      and es = "[Datagram (replicate 1024 1), Datagram [7]]"]
  by (simp add: PACKET_SIZE_def Let_def) (simp add: demo_world_def)

text \<open>the UDP client records every datagram: its agent is in the state reached by writing, once each and in order, the
  received payloads with only the fourth timestamp replaced.\<close>

theorem nobypass_client_records:
  assumes "length junk = PACKET_SIZE" and "agent_total ag"
    and "c = foldl (nb_client_step iters) (nb_client_start iters junk ag w) es"
  shows "agent_writes ag (nc_wrote c) = Some (nc_agent c) \<and> list_all2 stamped (nc_wrote c) (nc_got c)"
  using nb_client_run_inv [OF assms(1,2), of iters w es] assms(3) by (simp add: nb_client_inv_def)

theorem nobypass_client_records_witness:
  "let c = foldl (nb_client_step 3) (nb_client_start 3 (replicate 1024 0) (demo_agent 4 0) demo_world) [Datagram (replicate 1024 1)] in
   agent_writes (demo_agent 4 0) (nc_wrote c) = Some (nc_agent c)"
  using nobypass_client_records [OF _ demo_agent_total refl, where junk = "replicate 1024 0" and iters = 3 and w = demo_world
      and es = "[Datagram (replicate 1024 1)]"]
  by (simp add: PACKET_SIZE_def Let_def)

text \<open>the UDP client never finishes a long experiment. Its progress counter has 32 bits, so with \<open>2 ^ 32\<close> packets or more
  the loop goes on after any number of datagrams, whatever their identifiers.\<close>

theorem nobypass_client_never_ends:
  assumes "2 ^ 32 \<le> iters" and "length junk = PACKET_SIZE" and "agent_total ag"
  shows "nc_pc (foldl (nb_client_step iters) (nb_client_start iters junk ag w) (map Datagram ds)) = N_Run"
proof (induction ds rule: rev_induct)
  case Nil
  have "0 < (2 ^ 32 :: u64)" by simp
  then have "0 < iters" using assms(1) by (rule less_le_trans)
  then show ?case by (simp add: nb_client_start_def)
next
  case (snoc d ds)
  let ?c = "foldl (nb_client_step iters) (nb_client_start iters junk ag w) (map Datagram ds)"
  have small: "(ucast (x :: u32) :: u64) < iters" for x
  proof -
    have "unat x < 2 ^ 32" using unsigned_less [of x, where 'a = nat] by simp
    then have "(ucast x :: u64) < 2 ^ 32" by (simp add: word_less_nat_alt unsigned_ucast_eq take_bit_nat_def)
    then show ?thesis using assms(1) by (rule less_le_trans)
  qed
  have "nc_exit ?c = False"
    by (induction ds rule: rev_induct) (auto simp: nb_client_start_def nb_client_step_def nb_client_body_def Let_def split: option.splits)
  then have live: "\<not> nc_exit ?c" "nc_pc ?c = N_Run" using snoc by simp_all
  have "nb_client_inv ag (nb_client_body iters d ?c)"
    by (rule nb_client_body_inv [OF nb_client_run_inv [OF assms(2,3)] assms(3)])
  then have "nc_pc (nb_client_body iters d ?c) \<noteq> N_Undef" by (simp add: nb_client_inv_def)
  with live have "nc_pc (nb_client_step iters ?c (Datagram d)) = N_Run"
    by (rule nb_client_step_running) (rule small)
  then show ?case by simp
qed

theorem nobypass_client_never_ends_witness:
  "nc_pc (foldl (nb_client_step 4294967296) (nb_client_start 4294967296 (replicate 1024 0) (demo_agent 4 0) demo_world)
     (map Datagram [replicate 1024 255])) = N_Run"
  by (rule nobypass_client_never_ends) (simp_all add: demo_agent_total PACKET_SIZE_def)

text \<open>the UDP sender loop ends having sent the identifiers from 1 to \<open>iters\<close>, in order.\<close>

theorem nobypass_sender_sends_all:
  assumes "length buf = PACKET_SIZE" and "link_up w" and "clock_advances w" and "iters < - 1"
  shows "\<exists>buf' w' ps. send_loop send_single_packet iters interval 1 buf w = Some (True, buf', w')
    \<and> sent w' = sent w @ ps \<and> map (\<lambda>p. pp_id (load_payload p 0)) ps = map of_nat [1..<unat iters + 1]"
  using assms by (rule nb_sender.sends_all)

theorem nobypass_sender_sends_all_witness:
  "\<exists>buf' w' ps. send_loop send_single_packet 2 500 1 (replicate 1024 0) demo_world = Some (True, buf', w')
    \<and> sent w' = ps \<and> map (\<lambda>p. pp_id (load_payload p 0)) ps = [1, 2]"
  using nobypass_sender_sends_all [OF _ demo_clock(2,1), of "replicate 1024 0" 2 500]
  by (simp add: PACKET_SIZE_def demo_world_def upt_rec)

end
