(* ===== verification/Nobypass_Main.thy ===== *)
theory Nobypass_Main
  imports Nobypass Args
begin

text \<open>
  The rest of \<^verbatim>\<open>no-bypass/main.c\<close>: sockets, addresses, and \<^verbatim>\<open>main\<close> in both builds. Together with the argument parser, the persistence
  agent and the loops of \<open>Nobypass\<close> they make up a whole run of the program, from the command line to the output file.
\<close>

section \<open>Definitions\<close>

text \<open>What the system answers. \<open>ne_ll\<close> is the \<^verbatim>\<open>struct sockaddr_ll\<close> that the sender thread reads at the address of the server's
  \<^verbatim>\<open>struct sockaddr_in\<close>.\<close>

record nb_env =
  ne_socket :: int
  ne_bind :: int
  ne_pton :: "string \<Rightarrow> u32 option"
  ne_init :: init_env
  ne_malloc :: bool
  ne_pthread_create :: int
  ne_ll :: "u16 \<times> u32 \<Rightarrow> sockaddr_ll"
  ne_junk :: bytes
  ne_world :: world

definition new_socket :: "nb_env \<Rightarrow> int" where
  "new_socket env = (let fd = ne_socket env in if fd < 0 then - 1 else fd)"

text \<open>Port and address in network byte order; \<open>None\<close> when the program exits with \<open>-1\<close>.\<close>

definition new_sockaddr :: "nb_env \<Rightarrow> string \<Rightarrow> u16 \<Rightarrow> (u16 \<times> u32) option" where
  "new_sockaddr env ip port = (case ne_pton env ip of None \<Rightarrow> None | Some a \<Rightarrow> Some (htons port, a))"

definition nobypass_main_server :: "nb_env \<Rightarrow> string list \<Rightarrow> (u64 \<times> nb_server) main_out" where
  "nobypass_main_server env argv =
     (case nobypass_server_parse_args argv
         \<lparr>o_dev = None, o_remove = False, o_gidx = 0, o_iters = 0, o_interval = 0, o_server_ip = None, o_pers_flags = 0\<rparr> of
        (ok, op) \<Rightarrow>
          if \<not> ok then Exit EXIT_FAILURE
          else Run (o_iters op, nb_server_start (o_iters op) (ne_bind env) (ne_junk env) (ne_world env)))"

text \<open>\<^verbatim>\<open>start_client\<close> up to its loop. The socket is not checked.\<close>

definition nobypass_start_client ::
  "nb_env \<Rightarrow> u64 \<Rightarrow> u64 \<Rightarrow> string \<Rightarrow> persistence_agent \<Rightarrow> (nb_client \<times> sender_data option) option" where
  "nobypass_start_client env iters interval server_ip ag =
     (case new_sockaddr env server_ip XDP_UDP_PORT of
        None \<Rightarrow> None
      | Some server_addr \<Rightarrow>
          Some (nb_client_start iters (ne_junk env) ag (ne_world env),
            snd (start_sending_packets (ne_malloc env) (ne_pthread_create env) iters interval
              (Some (replicate PACKET_SIZE 0)) (Some (ne_ll env server_addr)))))"

definition nobypass_main_client :: "nb_env \<Rightarrow> string list \<Rightarrow> (u64 \<times> nb_client \<times> sender_data option) main_out" where
  "nobypass_main_client env argv =
     (case nobypass_client_parse_args argv
         \<lparr>o_dev = None, o_remove = False, o_gidx = 0, o_iters = 0, o_interval = 0, o_server_ip = None,
          o_pers_flags = PERSISTENCE_M_ALL_TIMESTAMPS\<rparr> of
        (ok, op) \<Rightarrow>
          if \<not> ok then Exit EXIT_FAILURE
          else
            (case persistence_init (ne_init env) (Some ''no-bypass.dat'') (o_pers_flags op) (o_interval op) of
               None \<Rightarrow> Undefined
             | Some None \<Rightarrow> Exit EXIT_FAILURE
             | Some (Some ag) \<Rightarrow>
                 (case nobypass_start_client env (o_iters op) (o_interval op)
                     (case o_server_ip op of None \<Rightarrow> [] | Some ip \<Rightarrow> ip) ag of
                    None \<Rightarrow> Exit (- 1)
                  | Some (c, d) \<Rightarrow> Run (o_iters op, c, d))))"

text \<open>After the loop the agent is closed.\<close>

definition nobypass_client_end :: "nb_client \<Rightarrow> (int \<times> cfile option \<times> bool) option" where
  "nobypass_client_end c = agent_close (nc_agent c)"

section \<open>Properties\<close>

text \<open>C20: a whole run of the UDP client, from the command line to the output file. Given well-formed arguments and a system that answers, \<^verbatim>\<open>main\<close>
  starts the sender thread with the count and the interval of the command line; and whatever datagrams then arrive, the
  loop reaches no undefined state, and the file that closing the agent leaves is read back as the identifiers and time stamps of
  the received datagrams, once each, in order, with only the last time stamp replaced.\<close>

theorem nobypass_client_end_to_end:
  assumes "0 < n" "n < 2 ^ 63" "0 < i" "i < 2 ^ 31" and "ne_pton env ip = Some a" and "length (ne_junk env) = PACKET_SIZE"
    and "ne_malloc env" "ne_pthread_create env = 0" and "e_malloc_agent (ne_init env)" "e_malloc_data (ne_init env)"
    and "e_fopen (ne_init env) = Some f" "\<not> f_write_fails f" "\<not> f_close_fails f" "f_out f = ''''"
  shows "\<exists>c0 d. nobypass_main_client env [''-p'', show_nat n, ''-i'', show_nat i, ''-s'', ip, ''-m'', show_nat 0] = Run (of_nat n, c0, Some d)
    \<and> s_iters d = of_nat n \<and> s_interval d = of_nat i
    \<and> (\<forall>es. let c = foldl (nb_client_step (of_nat n)) c0 es in
         nc_pc c \<noteq> N_Undef \<and> list_all2 stamped (nc_wrote c) (nc_got c)
         \<and> (\<exists>f'. nobypass_client_end c = Some (0, Some f', True) \<and> parse_dat (f_out f') = map (map unat \<circ> dat_words) (nc_wrote c)))"
proof -
  have fl: "word_of_int (pers_measurement_to_flag 0) = (PERSISTENCE_M_ALL_TIMESTAMPS :: u32)" by (simp add: pers_measurement_to_flag_def)
  obtain ag where ag: "persistence_init (ne_init env) (Some ''no-bypass.dat'') PERSISTENCE_M_ALL_TIMESTAMPS (of_nat i) = Some (Some ag)"
    using assms(9-11) by (simp add: persistence_init_def persistence_init0_def flag_defs Let_def)
  define c0 where "c0 = nb_client_start (of_nat n) (ne_junk env) ag (ne_world env)"
  define d where "d = \<lparr>s_iters = of_nat n :: u64, s_interval = of_nat i, s_base_packet = Some (replicate PACKET_SIZE 0),
    s_sock_addr = Some (ne_ll env (htons XDP_UDP_PORT, a))\<rparr>"
  have "nobypass_main_client env [''-p'', show_nat n, ''-i'', show_nat i, ''-s'', ip, ''-m'', show_nat 0] = Run (of_nat n, c0, Some d)"
    using client_args_parse [OF assms(1-4), of 0] assms(5,7,8) ag
    by (simp add: nobypass_main_client_def fl nobypass_start_client_def new_sockaddr_def start_sending_packets_def c0_def d_def)
  moreover have "let c = foldl (nb_client_step (of_nat n)) c0 es in nc_pc c \<noteq> N_Undef \<and> list_all2 stamped (nc_wrote c) (nc_got c)
      \<and> (\<exists>f'. nobypass_client_end c = Some (0, Some f', True) \<and> parse_dat (f_out f') = map (map unat \<circ> dat_words) (nc_wrote c))" for es
  proof -
    have "nb_client_inv ag (foldl (nb_client_step (of_nat n)) c0 es)"
      unfolding c0_def by (rule nb_client_run_inv [OF assms(6) all_timestamps_start(3) [OF ag assms(11,12)]])
    then show ?thesis
      using all_timestamps_end [OF ag assms(11-14)] by (simp add: Let_def nb_client_inv_def nobypass_client_end_def)
  qed
  ultimately show ?thesis by (intro exI [of _ c0] exI [of _ d]) (simp add: d_def)
qed

definition demo_nb_env :: nb_env where
  "demo_nb_env = \<lparr>ne_socket = 3, ne_bind = 0, ne_pton = \<lambda>_. Some 0x0100000A, ne_init = demo_env, ne_malloc = True, ne_pthread_create = 0,
     ne_ll = \<lambda>_. \<lparr>sll_ifindex = 0, sll_halen = 0, sll_addr = []\<rparr>, ne_junk = replicate PACKET_SIZE 0, ne_world = demo_world\<rparr>"

theorem nobypass_client_end_to_end_witness:
  "\<exists>c0 d. nobypass_main_client demo_nb_env [''-p'', show_nat 3, ''-i'', show_nat 1000, ''-s'', ''10.0.0.1'', ''-m'', show_nat 0] = Run (3, c0, Some d)
    \<and> (\<exists>f'. nobypass_client_end (foldl (nb_client_step 3) c0 [Datagram (replicate 1024 1)]) = Some (0, Some f', True))"
proof -
  have e: "ne_pton demo_nb_env ''10.0.0.1'' = Some 0x0100000A" "length (ne_junk demo_nb_env) = PACKET_SIZE" "ne_malloc demo_nb_env"
    "ne_pthread_create demo_nb_env = 0" "e_malloc_agent (ne_init demo_nb_env)" "e_malloc_data (ne_init demo_nb_env)"
    "e_fopen (ne_init demo_nb_env) = Some demo_file" "\<not> f_write_fails demo_file" "\<not> f_close_fails demo_file" "f_out demo_file = ''''"
    by (simp_all add: demo_nb_env_def demo_env_def demo_file_def)
  have n: "(0 :: nat) < 3" "(3 :: nat) < 2 ^ 63" "(0 :: nat) < 1000" "(1000 :: nat) < 2 ^ 31" by simp_all
  obtain c0 d where m: "nobypass_main_client demo_nb_env [''-p'', show_nat 3, ''-i'', show_nat 1000, ''-s'', ''10.0.0.1'', ''-m'', show_nat 0]
      = Run (of_nat 3, c0, Some d)"
    and c: "\<forall>es. let c = foldl (nb_client_step (of_nat 3)) c0 es in nc_pc c \<noteq> N_Undef \<and> list_all2 stamped (nc_wrote c) (nc_got c)
         \<and> (\<exists>f'. nobypass_client_end c = Some (0, Some f', True) \<and> parse_dat (f_out f') = map (map unat \<circ> dat_words) (nc_wrote c))"
    using nobypass_client_end_to_end [OF n e] by blast
  have three: "(of_nat 3 :: u64) = 3" by simp
  have "\<exists>f'. nobypass_client_end (foldl (nb_client_step 3) c0 [Datagram (replicate 1024 1)]) = Some (0, Some f', True)"
    using spec [OF c, of "[Datagram (replicate 1024 1)]"] unfolding Let_def three by blast
  with m three show ?thesis by (intro exI [of _ c0] exI [of _ d]) simp
qed

end
