(* ===== verification/Hwts.thy ===== *)
theory Hwts
  imports Net Args
begin

text \<open>
  The experiment with hardware time stamps (\<^verbatim>\<open>no-bypass/hwts.cpp\<close>): both ends exchange datagrams in lock step; the kernel reports the
  time at which the adapter sent a datagram through the error queue of the socket, and the time of an arrival with the datagram.

  What \<^verbatim>\<open>recvmsg\<close> answers is a parameter: the control messages of a message, nothing yet (\<^verbatim>\<open>EAGAIN\<close>), or another error. A call that
  fails leaves the control buffer as it was. The program goes on to read it after \<^verbatim>\<open>EAGAIN\<close>; what the uninitialised buffer then seems to
  hold is a parameter as well (\<open>he_stale\<close>). The results of the program are values: \<open>Thrown\<close> is an exception that ends it, \<open>Undef\<close> undefined behaviour
  (an index outside a vector, an overflow of an \<^verbatim>\<open>int\<close>). A run that never returns is \<open>None\<close>.
\<close>

section \<open>Definitions\<close>

datatype 'a hw_result = Ok 'a | Thrown | Undef

fun hw_bind :: "'a hw_result \<Rightarrow> ('a \<Rightarrow> 'b hw_result) \<Rightarrow> 'b hw_result" where
  "hw_bind (Ok x) f = f x"
| "hw_bind Thrown f = Thrown"
| "hw_bind Undef f = Undef"

definition SOL_IP :: int where "SOL_IP = 0"
definition SOL_SOCKET :: int where "SOL_SOCKET = 1"
definition IP_RECVERR :: int where "IP_RECVERR = 11"
definition SO_TIMESTAMPING :: int where "SO_TIMESTAMPING = 37"
definition SCM_TIMESTAMPING :: int where "SCM_TIMESTAMPING = SO_TIMESTAMPING"
definition SO_EE_ORIGIN_TIMESTAMPING :: u8 where "SO_EE_ORIGIN_TIMESTAMPING = 4"

text \<open>A control message: level and type, and its data as the two readings of the program see it, the third \<^verbatim>\<open>timespec\<close> (seconds and
  nanoseconds) and the fields of \<^verbatim>\<open>struct sock_extended_err\<close>.\<close>

record cmsg =
  cmsg_level :: int
  cmsg_type :: int
  cm_ts2 :: "int \<times> int"
  ee_origin :: u8
  ee_data :: u32

definition cm_time :: "cmsg \<Rightarrow> u64" where
  "cm_time c = word_of_int (fst (cm_ts2 c) * 1000000000 + snd (cm_ts2 c))"

datatype recv_result = Msg "cmsg list" | Again | Failed

record hw_env =
  he_errqueue :: "nat \<Rightarrow> recv_result"
  he_stale :: "nat \<Rightarrow> cmsg list"
  he_data :: "nat \<Rightarrow> recv_result"
  he_stale_data :: "nat \<Rightarrow> cmsg list"
  he_sendmsg :: "nat \<Rightarrow> bool"
  he_socket :: int
  he_bindtodevice :: int
  he_priority :: int
  he_ioctl :: int
  he_bind :: int
  he_assign :: "u64 \<Rightarrow> bool"

text \<open>The global vectors and counters, and the numbers of calls made of \<^verbatim>\<open>recvmsg\<close> (on the error queue, on the socket) and of \<^verbatim>\<open>sendmsg\<close>, and of datagrams sent.\<close>

record hw =
  send_ts :: "u64 list"
  send_ts_cnt :: u64
  recv_ts :: "u64 list"
  recv_ts_cnt :: u64
  n_err :: nat
  n_recv :: nat
  n_send :: nat
  n_sent :: nat

text \<open>An assignment to a vector element.\<close>

definition set_send_ts :: "u32 \<Rightarrow> u64 \<Rightarrow> hw \<Rightarrow> hw hw_result" where
  "set_send_ts idx v s =
     (if unat idx < length (send_ts s) then Ok (s\<lparr>send_ts := (send_ts s)[unat idx := v]\<rparr>) else Undef)"

fun extract_recv_timestamp :: "cmsg list \<Rightarrow> hw \<Rightarrow> hw hw_result" where
  "extract_recv_timestamp [] s = Ok s"
| "extract_recv_timestamp (c # cs) s =
     (if cmsg_level c = SOL_SOCKET \<and> cmsg_type c = SCM_TIMESTAMPING then
        (if unat (recv_ts_cnt s) < length (recv_ts s)
         then extract_recv_timestamp cs
                (s\<lparr>recv_ts := (recv_ts s)[unat (recv_ts_cnt s) := cm_time c], recv_ts_cnt := recv_ts_cnt s + 1\<rparr>)
         else Undef)
      else extract_recv_timestamp cs s)"

text \<open>The loop over the control messages, with the variables \<^verbatim>\<open>idx\<close> and \<^verbatim>\<open>_ts\<close>; \<open>- 1\<close> marks both as not seen.\<close>

fun extract_loop :: "cmsg list \<Rightarrow> u32 \<Rightarrow> u64 \<Rightarrow> hw \<Rightarrow> hw hw_result" where
  "extract_loop [] idx t s = Ok s"
| "extract_loop (c # cs) idx t s =
     (if cmsg_level c = SOL_SOCKET \<and> cmsg_type c = SO_TIMESTAMPING then
        (let val = cm_time c in
         if idx \<noteq> - 1
         then hw_bind (set_send_ts idx val s) (\<lambda>s. extract_loop cs (- 1) t (s\<lparr>send_ts_cnt := send_ts_cnt s + 1\<rparr>))
         else extract_loop cs idx val s)
      else if cmsg_level c = SOL_IP \<and> cmsg_type c = IP_RECVERR then
        (if ee_origin c \<noteq> SO_EE_ORIGIN_TIMESTAMPING then extract_loop cs idx t s
         else if idx \<noteq> - 1 then Thrown
         else
           let idx = ee_data c in
           if t \<noteq> - 1
           then hw_bind (set_send_ts idx t s) (\<lambda>s. extract_loop cs (- 1) t (s\<lparr>send_ts_cnt := send_ts_cnt s + 1\<rparr>))
           else extract_loop cs idx t s)
      else extract_loop cs idx t s)"

definition extract_send_timestamps :: "hw_env \<Rightarrow> hw \<Rightarrow> hw hw_result" where
  "extract_send_timestamps env s =
     (let k = n_err s; s = s\<lparr>n_err := k + 1\<rparr> in
      case he_errqueue env k of
        Failed \<Rightarrow> Ok s
      | Again \<Rightarrow> extract_loop (he_stale env k) (- 1) (- 1) s
      | Msg cs \<Rightarrow> extract_loop cs (- 1) (- 1) s)"

definition receive :: "hw_env \<Rightarrow> hw \<Rightarrow> hw hw_result" where
  "receive env s =
     (let k = n_recv s; s = s\<lparr>n_recv := k + 1\<rparr> in
      case he_data env k of
        Failed \<Rightarrow> Ok s
      | Again \<Rightarrow> extract_recv_timestamp (he_stale_data env k) s
      | Msg cs \<Rightarrow> extract_recv_timestamp cs s)"

text \<open>A failing \<^verbatim>\<open>sendmsg\<close> is only reported.\<close>

definition hw_send :: "hw_env \<Rightarrow> hw \<Rightarrow> hw" where
  "hw_send env s = s\<lparr>n_send := n_send s + 1, n_sent := n_sent s + (if he_sendmsg env (n_send s) then 1 else 0)\<rparr>"

subsection \<open>The loops\<close>

definition server_round :: "hw_env \<Rightarrow> hw \<Rightarrow> hw hw_result" where
  "server_round env s =
     hw_bind (receive env s) (\<lambda>s. hw_bind (extract_send_timestamps env s) (\<lambda>s. Ok (hw_send env s)))"

definition client_round :: "hw_env \<Rightarrow> hw \<Rightarrow> hw hw_result" where
  "client_round env s = hw_bind (extract_send_timestamps env (hw_send env s)) (receive env)"

fun rounds :: "(hw \<Rightarrow> hw hw_result) \<Rightarrow> nat \<Rightarrow> hw \<Rightarrow> hw hw_result" where
  "rounds body 0 s = Ok s"
| "rounds body (Suc n) s = hw_bind (body s) (rounds body n)"

text \<open>The counter of the loops is an \<^verbatim>\<open>int\<close>.\<close>

definition hw_loop :: "(hw \<Rightarrow> hw hw_result) \<Rightarrow> u64 \<Rightarrow> hw \<Rightarrow> hw hw_result" where
  "hw_loop body packets s =
     hw_bind (rounds body (min (unat packets) (2 ^ 31)) s) (\<lambda>s. if 2 ^ 31 \<le> unat packets then Undef else Ok s)"

partial_function (option) hw_drain :: "hw_env \<Rightarrow> u64 \<Rightarrow> hw \<Rightarrow> hw hw_result option" where
  "hw_drain env packets s =
     (if send_ts_cnt s < packets then
        (case extract_send_timestamps env s of
           Ok s \<Rightarrow> hw_drain env packets s
         | Thrown \<Rightarrow> Some Thrown
         | Undef \<Rightarrow> Some Undef)
      else Some (Ok s))"

definition hw_line :: "u64 \<Rightarrow> u64 \<Rightarrow> string" where
  "hw_line a b = show_u64 a @ '' '' @ show_u64 b @ [CHR 0x0A]"

text \<open>The final output.\<close>

definition hw_print :: "u64 \<Rightarrow> hw \<Rightarrow> string hw_result" where
  "hw_print packets s =
     (if 2 ^ 31 \<le> unat packets \<or> length (send_ts s) < unat packets \<or> length (recv_ts s) < unat packets then Undef
      else Ok (concat (map (\<lambda>i. hw_line (send_ts s ! i) (recv_ts s ! i)) [0..<unat packets])))"

subsection \<open>Set-up\<close>

record hwtstamp_config =
  tx_on :: bool
  rx_filter_all :: bool

definition IFNAMSIZ :: nat where "IFNAMSIZ = 16"

text \<open>The interface name and the configuration handed to \<^verbatim>\<open>ioctl\<close>, and the result.\<close>

definition set_hw_timestamps :: "hw_env \<Rightarrow> string \<Rightarrow> bool \<Rightarrow> int \<times> string \<times> hwtstamp_config" where
  "set_hw_timestamps env ifname enabled =
     (let hwconfig = (if enabled then \<lparr>tx_on = True, rx_filter_all = True\<rparr> else \<lparr>tx_on = False, rx_filter_all = False\<rparr>) in
      (if he_ioctl env < 0 then - 1 else 0, take (IFNAMSIZ - 1) ifname, hwconfig))"

text \<open>\<^verbatim>\<open>start_program\<close>: the exit code and the output; \<open>None\<close> when it does not return. The result of \<^verbatim>\<open>set_hw_timestamps\<close> is ignored.\<close>

definition start_program :: "hw_env \<Rightarrow> bool \<Rightarrow> u64 \<Rightarrow> hw \<Rightarrow> (int \<times> string) hw_result option" where
  "start_program env is_server packets s =
     (if he_socket env < 0 then Some (Ok (EXIT_FAILURE, ''''))
      else if he_bindtodevice env < 0 then Some (Ok (EXIT_FAILURE, ''''))
      else if he_priority env < 0 then Some (Ok (EXIT_FAILURE, ''''))
      else if he_bind env < 0 then Some (Ok (EXIT_FAILURE, ''''))
      else
        (case hw_loop (if is_server then server_round env else client_round env) packets s of
           Thrown \<Rightarrow> Some Thrown
         | Undef \<Rightarrow> Some Undef
         | Ok s \<Rightarrow>
             Option.bind (hw_drain env packets s)
               (\<lambda>r. Some (hw_bind r (\<lambda>s. hw_bind (hw_print packets s) (\<lambda>out. Ok (EXIT_SUCCESS, out)))))))"

text \<open>\<^verbatim>\<open>stoll\<close>: an exception when there is no number or it is out of range.\<close>

definition stoll :: "string \<Rightarrow> int option" where
  "stoll s =
     (let s1 = dropWhile is_blank s;
          neg = (s1 \<noteq> [] \<and> hd s1 = CHR ''-'');
          s2 = (if s1 \<noteq> [] \<and> (hd s1 = CHR ''-'' \<or> hd s1 = CHR ''+'') then tl s1 else s1);
          ds = takeWhile is_digit s2; v = (if neg then - int (read_nat ds) else int (read_nat ds))
      in if ds = [] \<or> v < - (2 ^ 63) \<or> 2 ^ 63 \<le> v then None else Some v)"

text \<open>\<^verbatim>\<open>main\<close>; the arguments are those after the program's name. The exit code of \<^verbatim>\<open>start_program\<close> is dropped.\<close>

definition hw_main :: "hw_env \<Rightarrow> bool \<Rightarrow> string list \<Rightarrow> (int \<times> string) hw_result option" where
  "hw_main env is_server argv =
     (if length argv < 3 then Some (Ok (EXIT_FAILURE, ''''))
      else
        (case stoll (argv ! 2) of
           None \<Rightarrow> Some Thrown
         | Some v \<Rightarrow>
             let packets = word_of_int v :: u64 in
             if \<not> he_assign env packets then Some Thrown
             else
               Option.bind (start_program env is_server packets
                   \<lparr>send_ts = replicate (unat packets) 0, send_ts_cnt = 0, recv_ts = replicate (unat packets) 0, recv_ts_cnt = 0,
                    n_err = 0, n_recv = 0, n_send = 0, n_sent = 0\<rparr>)
                 (\<lambda>r. Some (hw_bind r (\<lambda>(_, out). Ok (0, out))))))"

section \<open>Control messages\<close>

definition is_time :: "cmsg \<Rightarrow> bool" where
  "is_time c \<longleftrightarrow> cmsg_level c = SOL_SOCKET \<and> cmsg_type c = SO_TIMESTAMPING"

definition is_report :: "cmsg \<Rightarrow> bool" where
  "is_report c \<longleftrightarrow> cmsg_level c = SOL_IP \<and> cmsg_type c = IP_RECVERR \<and> ee_origin c = SO_EE_ORIGIN_TIMESTAMPING"

definition relevant :: "cmsg list \<Rightarrow> cmsg list" where
  "relevant cs = filter (\<lambda>c. is_time c \<or> is_report c) cs"

lemma time_not_report: "is_time c \<Longrightarrow> \<not> is_report c"
  by (simp add: is_time_def is_report_def SOL_IP_def SOL_SOCKET_def)

lemma relevant_simps [simp]:
  "relevant [] = []" "relevant (c # cs) = (if is_time c \<or> is_report c then c # relevant cs else relevant cs)"
  by (simp_all add: relevant_def)

text \<open>One turn of the loop, by the kind of the message.\<close>

lemma extract_loop_Cons:
  "is_time c \<Longrightarrow> extract_loop (c # cs) idx t s =
     (if idx \<noteq> - 1 then hw_bind (set_send_ts idx (cm_time c) s) (\<lambda>s. extract_loop cs (- 1) t (s\<lparr>send_ts_cnt := send_ts_cnt s + 1\<rparr>))
      else extract_loop cs idx (cm_time c) s)"
  "is_report c \<Longrightarrow> extract_loop (c # cs) idx t s =
     (if idx \<noteq> - 1 then Thrown
      else if t \<noteq> - 1 then hw_bind (set_send_ts (ee_data c) t s) (\<lambda>s. extract_loop cs (- 1) t (s\<lparr>send_ts_cnt := send_ts_cnt s + 1\<rparr>))
      else extract_loop cs (ee_data c) t s)"
  "\<not> is_time c \<Longrightarrow> \<not> is_report c \<Longrightarrow> extract_loop (c # cs) idx t s = extract_loop cs idx t s"
  by (auto simp: is_time_def is_report_def SOL_IP_def SOL_SOCKET_def)

text \<open>Other control messages are skipped.\<close>

lemma extract_loop_relevant: "extract_loop cs idx t s = extract_loop (relevant cs) idx t s"
proof (induction cs arbitrary: idx t s)
  case (Cons c cs)
  have IH: "extract_loop cs = extract_loop (relevant cs)" using Cons by (intro ext)
  show ?case
  proof (cases "is_time c \<or> is_report c")
    case True
    then show ?thesis by (auto simp: extract_loop_Cons IH simp del: extract_loop.simps dest: time_not_report)
  next
    case False
    then show ?thesis using extract_loop_Cons(3) [of c cs idx t s] by (simp add: IH del: extract_loop.simps)
  qed
qed simp

text \<open>A message that reports the time of datagram \<open>i\<close>: the two control messages in either order, among others that do not matter.\<close>

definition reports_send :: "cmsg list \<Rightarrow> nat \<Rightarrow> u64 \<Rightarrow> bool" where
  "reports_send cs i v \<longleftrightarrow>
     (\<exists>a b. (relevant cs = [a, b] \<or> relevant cs = [b, a]) \<and> is_time a \<and> is_report b \<and> cm_time a = v \<and> unat (ee_data b) = i)"

lemma extract_report:
  assumes "reports_send cs i v" and "v \<noteq> - 1" and "i < length (send_ts s)" and "i < 2 ^ 31"
  shows "extract_loop cs (- 1) (- 1) s = Ok (s\<lparr>send_ts := (send_ts s)[i := v], send_ts_cnt := send_ts_cnt s + 1\<rparr>)"
proof -
  obtain a b where ab: "relevant cs = [a, b] \<or> relevant cs = [b, a]" "is_time a" "is_report b" "cm_time a = v" "unat (ee_data b) = i"
    using assms(1) unfolding reports_send_def by blast
  have "unat (- 1 :: u32) = 2 ^ 32 - 1" by (simp add: unsigned_minus_1_eq_mask mask_eq_exp_minus_1)
  then have d: "ee_data b \<noteq> - 1" using ab(5) assms(4) by auto
  have set: "set_send_ts (ee_data b) v s = Ok (s\<lparr>send_ts := (send_ts s)[i := v]\<rparr>)" using ab(5) assms(3) by (simp add: set_send_ts_def)
  show ?thesis
    unfolding extract_loop_relevant [of cs] using ab(1)
  proof
    assume "relevant cs = [a, b]"
    with ab d set assms(2) show "extract_loop (relevant cs) (- 1) (- 1) s = Ok (s\<lparr>send_ts := (send_ts s)[i := v], send_ts_cnt := send_ts_cnt s + 1\<rparr>)"
      by (simp add: is_time_def is_report_def SOL_IP_def SOL_SOCKET_def)
  next
    assume "relevant cs = [b, a]"
    with ab d set assms(2) show "extract_loop (relevant cs) (- 1) (- 1) s = Ok (s\<lparr>send_ts := (send_ts s)[i := v], send_ts_cnt := send_ts_cnt s + 1\<rparr>)"
      by (simp add: is_time_def is_report_def SOL_IP_def SOL_SOCKET_def)
  qed
qed

lemma extract_recv_one:
  assumes "map cm_time (filter is_time cs) = [v]" and "unat (recv_ts_cnt s) < length (recv_ts s)"
  shows "extract_recv_timestamp cs s = Ok (s\<lparr>recv_ts := (recv_ts s)[unat (recv_ts_cnt s) := v], recv_ts_cnt := recv_ts_cnt s + 1\<rparr>)"
proof -
  have none: "filter is_time cs = [] \<Longrightarrow> extract_recv_timestamp cs s = Ok s" for cs s
    by (induction cs) (auto simp: is_time_def SCM_TIMESTAMPING_def split: if_splits)
  show ?thesis using assms(1)
  proof (induction cs)
    case (Cons c cs)
    show ?case
    proof (cases "is_time c")
      case True
      then have "cm_time c = v" "filter is_time cs = []" using Cons.prems by simp_all
      with True none assms(2) show ?thesis by (simp add: is_time_def SCM_TIMESTAMPING_def)
    next
      case False
      with Cons show ?thesis by (auto simp: is_time_def SCM_TIMESTAMPING_def)
    qed
  qed simp
qed

section \<open>What the kernel reports\<close>

text \<open>Call \<open>k\<close> on the error queue shows the program nothing that matters: it fails, or the control messages read (those of the message, or
  those the buffer seems to hold after \<^verbatim>\<open>EAGAIN\<close>) are of other kinds.\<close>

definition shows_nothing :: "hw_env \<Rightarrow> nat \<Rightarrow> bool" where
  "shows_nothing env k \<longleftrightarrow>
     (case he_errqueue env k of Failed \<Rightarrow> True | Again \<Rightarrow> relevant (he_stale env k) = [] | Msg cs \<Rightarrow> relevant cs = [])"

text \<open>Among the first \<open>K\<close> calls, call \<open>k\<close> delivers the report of datagram \<open>i\<close> when \<open>rep k = Some i\<close>, otherwise nothing that matters. No
  datagram is reported twice, and no report is for a datagram beyond the \<open>n\<close> of the run.\<close>

definition errqueue_ok :: "hw_env \<Rightarrow> nat \<Rightarrow> (nat \<Rightarrow> u64) \<Rightarrow> (nat \<Rightarrow> nat option) \<Rightarrow> nat \<Rightarrow> bool" where
  "errqueue_ok env n tx rep K \<longleftrightarrow>
     (\<forall>k<K. case rep k of
            Some i \<Rightarrow> i < n \<and> (\<exists>cs. he_errqueue env k = Msg cs \<and> reports_send cs i (tx i))
          | None \<Rightarrow> shows_nothing env k)
     \<and> (\<forall>j<K. \<forall>k<K. rep j \<noteq> None \<longrightarrow> rep j = rep k \<longrightarrow> j = k)"

text \<open>Every datagram received carries one time stamp.\<close>

definition data_ok :: "hw_env \<Rightarrow> nat \<Rightarrow> (nat \<Rightarrow> u64) \<Rightarrow> bool" where
  "data_ok env n rx \<longleftrightarrow> (\<forall>k<n. \<exists>cs. he_data env k = Msg cs \<and> map cm_time (filter is_time cs) = [rx k])"

text \<open>The state after \<open>k\<close> calls on the error queue and \<open>m\<close> on the socket.\<close>

definition reported :: "(nat \<Rightarrow> nat option) \<Rightarrow> nat \<Rightarrow> nat set" where
  "reported rep k = {i. \<exists>j<k. rep j = Some i}"

definition hw_inv :: "nat \<Rightarrow> (nat \<Rightarrow> u64) \<Rightarrow> (nat \<Rightarrow> u64) \<Rightarrow> (nat \<Rightarrow> nat option) \<Rightarrow> hw \<Rightarrow> bool" where
  "hw_inv n tx rx rep s \<longleftrightarrow>
     length (send_ts s) = n \<and> length (recv_ts s) = n
     \<and> (\<forall>i<n. send_ts s ! i = (if i \<in> reported rep (n_err s) then tx i else 0))
     \<and> unat (send_ts_cnt s) = card (reported rep (n_err s))
     \<and> unat (recv_ts_cnt s) = n_recv s \<and> n_recv s \<le> n \<and> (\<forall>i<n_recv s. recv_ts s ! i = rx i)"

lemma reported_Suc: "reported rep (Suc k) = (case rep k of None \<Rightarrow> reported rep k | Some i \<Rightarrow> insert i (reported rep k))"
  by (auto simp: reported_def less_Suc_eq split: option.splits)

lemma errqueue_some:
  assumes "errqueue_ok env n tx rep K" and "k < K" and "rep k = Some i"
  shows "i < n" and "\<exists>cs. he_errqueue env k = Msg cs \<and> reports_send cs i (tx i)"
  using assms by (auto simp: errqueue_ok_def split: option.splits)

lemma errqueue_none: "errqueue_ok env n tx rep K \<Longrightarrow> k < K \<Longrightarrow> rep k = None \<Longrightarrow> shows_nothing env k"
  by (auto simp: errqueue_ok_def split: option.splits)

lemma errqueue_inj: "errqueue_ok env n tx rep K \<Longrightarrow> j < K \<Longrightarrow> k < K \<Longrightarrow> rep j = Some i \<Longrightarrow> rep k = Some i \<Longrightarrow> j = k"
  unfolding errqueue_ok_def by (metis option.distinct(1))

lemma reported_subset: "errqueue_ok env n tx rep K \<Longrightarrow> k \<le> K \<Longrightarrow> reported rep k \<subseteq> {..<n}"
  unfolding reported_def by clarsimp (meson errqueue_some(1) less_le_trans)

lemma reported_fresh: "errqueue_ok env n tx rep K \<Longrightarrow> k < K \<Longrightarrow> rep k = Some i \<Longrightarrow> i \<notin> reported rep k"
  unfolding reported_def by clarsimp (metis errqueue_inj less_irrefl less_trans)

lemma reported_finite: "errqueue_ok env n tx rep K \<Longrightarrow> k \<le> K \<Longrightarrow> finite (reported rep k)"
  by (rule finite_subset [OF reported_subset]) simp_all

section \<open>Steps keep the invariant\<close>

lemma extract_quiet: "relevant cs = [] \<Longrightarrow> extract_loop cs idx t s = Ok s"
  by (simp add: extract_loop_relevant [of cs])

lemma unat_inc: "unat (w :: u64) < 2 ^ 63 \<Longrightarrow> unat (w + 1) = Suc (unat w)"
  by (simp add: unat_word_ariths)

lemma extract_step:
  assumes ok: "errqueue_ok env n tx rep K" and K: "n_err s < K" and inv: "hw_inv n tx rx rep s" and n: "n < 2 ^ 31" and tx: "\<And>i. i < n \<Longrightarrow> tx i \<noteq> - 1"
  shows "\<exists>s'. extract_send_timestamps env s = Ok s' \<and> hw_inv n tx rx rep s' \<and> n_err s' = Suc (n_err s) \<and> n_recv s' = n_recv s"
proof (cases "rep (n_err s)")
  case None
  have "extract_send_timestamps env s = Ok (s\<lparr>n_err := Suc (n_err s)\<rparr>)"
    using errqueue_none [OF ok K None] by (auto simp: shows_nothing_def extract_send_timestamps_def Let_def extract_quiet split: recv_result.splits)
  moreover have "hw_inv n tx rx rep (s\<lparr>n_err := Suc (n_err s)\<rparr>)" using inv None by (simp add: hw_inv_def reported_Suc)
  ultimately show ?thesis by simp
next
  case (Some i)
  have i: "i < n" by (rule errqueue_some(1) [OF ok K Some])
  obtain cs where cs: "he_errqueue env (n_err s) = Msg cs" "reports_send cs i (tx i)" using errqueue_some(2) [OF ok K Some] by blast
  let ?s = "s\<lparr>n_err := Suc (n_err s)\<rparr>" and ?s' = "s\<lparr>send_ts := (send_ts s)[i := tx i], send_ts_cnt := send_ts_cnt s + 1, n_err := Suc (n_err s)\<rparr>"
  have len: "length (send_ts s) = n" using inv by (simp add: hw_inv_def)
  have "extract_send_timestamps env s = Ok ?s'"
    using extract_report [OF cs(2) tx [OF i], of ?s] i n len cs(1) by (simp add: extract_send_timestamps_def)
  moreover have "hw_inv n tx rx rep ?s'"
  proof -
    have "card (reported rep (Suc (n_err s))) = Suc (card (reported rep (n_err s)))"
      using reported_fresh [OF ok K Some] reported_finite [OF ok, of "n_err s"] K by (simp add: reported_Suc Some)
    moreover have "card (reported rep (n_err s)) \<le> n" using card_mono [OF _ reported_subset [OF ok, of "n_err s"]] K by fastforce
    then have "unat (send_ts_cnt s + 1) = Suc (unat (send_ts_cnt s))"
      using inv n by (intro unat_inc) (simp add: hw_inv_def)
    moreover have "(send_ts s)[i := tx i] ! j = (if j \<in> insert i (reported rep (n_err s)) then tx j else 0)" if "j < n" for j
      using inv i that by (cases "j = i") (simp_all add: hw_inv_def)
    ultimately show ?thesis using inv by (simp add: hw_inv_def reported_Suc Some)
  qed
  ultimately show ?thesis by simp
qed

lemma receive_step:
  assumes ok: "data_ok env n rx" and inv: "hw_inv n tx rx rep s" and n: "n < 2 ^ 31" and more: "n_recv s < n"
  shows "\<exists>s'. receive env s = Ok s' \<and> hw_inv n tx rx rep s' \<and> n_err s' = n_err s \<and> n_recv s' = Suc (n_recv s)"
proof -
  let ?k = "n_recv s"
  obtain cs where cs: "he_data env ?k = Msg cs" "map cm_time (filter is_time cs) = [rx ?k]"
    using ok [unfolded data_ok_def, rule_format, OF more] by (elim exE conjE) (rule that)
  let ?s = "s\<lparr>n_recv := Suc ?k\<rparr>"
  let ?s' = "s\<lparr>recv_ts := (recv_ts s)[?k := rx ?k], recv_ts_cnt := recv_ts_cnt s + 1, n_recv := Suc ?k\<rparr>"
  have k: "unat (recv_ts_cnt s) = ?k" "length (recv_ts s) = n" using inv by (simp_all add: hw_inv_def)
  have "receive env s = Ok ?s'" using extract_recv_one [OF cs(2), of ?s] cs(1) k more by (simp add: receive_def Let_def)
  moreover have "unat (recv_ts_cnt s + 1) = Suc ?k" using unat_inc [of "recv_ts_cnt s"] k(1) more n by simp
  then have "hw_inv n tx rx rep ?s'" using inv more by (simp add: hw_inv_def less_Suc_eq nth_list_update)
  ultimately show ?thesis by simp
qed

lemma hw_inv_send: "hw_inv n tx rx rep s \<Longrightarrow> hw_inv n tx rx rep (hw_send env s)" "n_recv (hw_send env s) = n_recv s"
  "n_err (hw_send env s) = n_err s"
  by (simp_all add: hw_inv_def hw_send_def)

text \<open>Both builds make one round of the same effect: one call on each queue.\<close>

lemma round_step:
  assumes "errqueue_ok env n tx rep K" and "data_ok env n rx" and "hw_inv n tx rx rep s" and "n < 2 ^ 31" and "\<And>i. i < n \<Longrightarrow> tx i \<noteq> - 1"
    and "n_recv s < n" and "n_err s < K"
  shows "\<exists>s'. (if is_server then server_round env else client_round env) s = Ok s' \<and> hw_inv n tx rx rep s' \<and> n_recv s' = Suc (n_recv s)
    \<and> n_err s' = Suc (n_err s)"
proof (cases is_server)
  case True
  obtain s1 where 1: "receive env s = Ok s1" "hw_inv n tx rx rep s1" "n_recv s1 = Suc (n_recv s)" "n_err s1 = n_err s"
    using receive_step [OF assms(2,3,4,6)] by blast
  have "n_err s1 < K" using 1(4) assms(7) by simp
  then obtain s2 where 2: "extract_send_timestamps env s1 = Ok s2" "hw_inv n tx rx rep s2" "n_recv s2 = n_recv s1" "n_err s2 = Suc (n_err s1)"
    using extract_step [OF assms(1) _ 1(2) assms(4,5)] by blast
  show ?thesis using 1 2 True hw_inv_send [where s = s2 and env = env] by (simp add: server_round_def)
next
  case False
  have "n_err (hw_send env s) < K" using assms(7) hw_inv_send(3) by simp
  then obtain s2 where 2: "extract_send_timestamps env (hw_send env s) = Ok s2" "hw_inv n tx rx rep s2" "n_recv s2 = n_recv s" "n_err s2 = Suc (n_err s)"
    using extract_step [OF assms(1) _ hw_inv_send(1) [OF assms(3)] assms(4,5)] hw_inv_send(2,3) by metis
  obtain s1 where 1: "receive env s2 = Ok s1" "hw_inv n tx rx rep s1" "n_recv s1 = Suc (n_recv s2)" "n_err s1 = n_err s2"
    using receive_step [OF assms(2) 2(2) assms(4)] assms(6) 2(3) by auto
  show ?thesis using 1 2 False by (simp add: client_round_def)
qed

lemma rounds_inv:
  assumes "errqueue_ok env n tx rep K" and "data_ok env n rx" and "hw_inv n tx rx rep s" and "n < 2 ^ 31" and "\<And>i. i < n \<Longrightarrow> tx i \<noteq> - 1"
    and "n_recv s + m \<le> n" and "n_err s + m \<le> K"
  shows "\<exists>s'. rounds (if is_server then server_round env else client_round env) m s = Ok s' \<and> hw_inv n tx rx rep s' \<and> n_recv s' = n_recv s + m
    \<and> n_err s' = n_err s + m"
  using assms(3,6,7)
proof (induction m arbitrary: s)
  case (Suc m)
  obtain s1 where s1: "(if is_server then server_round env else client_round env) s = Ok s1" "hw_inv n tx rx rep s1" "n_recv s1 = Suc (n_recv s)"
    "n_err s1 = Suc (n_err s)"
    using round_step [OF assms(1,2) Suc.prems(1) assms(4,5), of is_server] Suc.prems(2,3) by auto
  with Suc.IH [OF s1(2)] Suc.prems(2,3) show ?case by simp
qed simp

text \<open>The count reaches \<open>n\<close> exactly when every datagram was reported.\<close>

lemma count_complete:
  assumes "errqueue_ok env n tx rep K" and "n_err s \<le> K" and "hw_inv n tx rx rep s"
  shows "unat (send_ts_cnt s) \<le> n" and "n \<le> unat (send_ts_cnt s) \<longleftrightarrow> reported rep (n_err s) = {..<n}"
proof -
  have sub: "reported rep (n_err s) \<subseteq> {..<n}" by (rule reported_subset [OF assms(1,2)])
  have c: "unat (send_ts_cnt s) = card (reported rep (n_err s))" using assms(3) by (simp add: hw_inv_def)
  have le: "card (reported rep (n_err s)) \<le> n" using card_mono [OF finite_lessThan sub] by simp
  then show "unat (send_ts_cnt s) \<le> n" using c by simp
  show "n \<le> unat (send_ts_cnt s) \<longleftrightarrow> reported rep (n_err s) = {..<n}"
  proof
    assume "n \<le> unat (send_ts_cnt s)"
    then have "card (reported rep (n_err s)) = card {..<n}" using c le by simp
    then show "reported rep (n_err s) = {..<n}" by (rule card_subset_eq [OF finite_lessThan sub])
  next
    assume "reported rep (n_err s) = {..<n}"
    then show "n \<le> unat (send_ts_cnt s)" using c by simp
  qed
qed

lemma drain_ends:
  assumes ok: "errqueue_ok env n tx rep K" and n: "n < 2 ^ 31" and tx: "\<And>i. i < n \<Longrightarrow> tx i \<noteq> - 1"
    and all: "\<And>i. i < n \<Longrightarrow> \<exists>k<K. rep k = Some i" and inv: "hw_inv n tx rx rep s" "n_err s \<le> K" and p: "unat packets = n"
  shows "\<exists>s'. hw_drain env packets s = Some (Ok s') \<and> hw_inv n tx rx rep s' \<and> reported rep (n_err s') = {..<n} \<and> n_recv s' = n_recv s"
  using inv
proof (induction "K - n_err s" arbitrary: s rule: less_induct)
  case less
  have stop: "send_ts_cnt s < packets \<longleftrightarrow> reported rep (n_err s) \<noteq> {..<n}"
    using count_complete(2) [OF ok less.prems(2,1)] unfolding word_less_nat_alt p by linarith
  show ?case
  proof (cases "reported rep (n_err s) = {..<n}")
    case True
    with stop less.prems show ?thesis by (subst hw_drain.simps) simp
  next
    case False
    have "n_err s < K"
    proof (rule ccontr)
      assume "\<not> n_err s < K"
      then have "{..<n} \<subseteq> reported rep (n_err s)"
        using all by (auto simp: reported_def) (meson leD leI less_le_trans)
      with False reported_subset [OF ok less.prems(2)] show False by blast
    qed
    obtain s1 where s1: "extract_send_timestamps env s = Ok s1" "hw_inv n tx rx rep s1" "n_err s1 = Suc (n_err s)" "n_recv s1 = n_recv s"
      using extract_step [OF ok \<open>n_err s < K\<close> less.prems(1) n tx] by blast
    have "K - n_err s1 < K - n_err s" using s1(3) \<open>n_err s < K\<close> by simp
    from less.hyps [OF this s1(2)] s1 \<open>n_err s < K\<close> stop False show ?thesis by (subst hw_drain.simps) simp
  qed
qed

text \<open>If one report never comes, the loop does not end.\<close>

lemma drain_hangs:
  assumes ok: "\<And>K. errqueue_ok env n tx rep K" and n: "n < 2 ^ 31" and tx: "\<And>i. i < n \<Longrightarrow> tx i \<noteq> - 1"
    and lost: "i < n" "\<And>k. rep k \<noteq> Some i" and p: "unat packets = n" and r: "hw_drain env packets s = Some r"
  shows "\<not> hw_inv n tx rx rep s"
proof -
  have "env = env \<longrightarrow> packets = packets \<longrightarrow> \<not> hw_inv n tx rx rep s"
  proof (rule hw_drain.raw_induct [where P = "\<lambda>e q s r. e = env \<longrightarrow> q = packets \<longrightarrow> \<not> hw_inv n tx rx rep s", OF _ r])
    fix f e q s r
    assume IH: "\<And>e q s r. f e q s = Some r \<Longrightarrow> e = env \<longrightarrow> q = packets \<longrightarrow> \<not> hw_inv n tx rx rep s"
      and body: "(if send_ts_cnt s < q then (case extract_send_timestamps e s of
          Ok s \<Rightarrow> f e q s | Thrown \<Rightarrow> Some Thrown | Undef \<Rightarrow> Some Undef) else Some (Ok s)) = Some r"
    show "e = env \<longrightarrow> q = packets \<longrightarrow> \<not> hw_inv n tx rx rep s"
    proof (intro impI notI)
      assume eq: "e = env" "q = packets" and inv: "hw_inv n tx rx rep s"
      have "i \<notin> reported rep (n_err s)" using lost(2) by (simp add: reported_def)
      then have "reported rep (n_err s) \<noteq> {..<n}" using lost(1) by auto
      then have more: "send_ts_cnt s < packets"
        using count_complete(2) [OF ok order_refl inv] unfolding word_less_nat_alt p by linarith
      obtain s1 where s1: "extract_send_timestamps env s = Ok s1" "hw_inv n tx rx rep s1" using extract_step [OF ok lessI inv n tx] by blast
      have "f env packets s1 = Some r" using body eq more s1(1) by simp
      from IH [OF this] s1(2) show False by simp
    qed
  qed
  then show ?thesis by simp
qed

section \<open>Whole runs\<close>

definition sockets_ok :: "hw_env \<Rightarrow> bool" where
  "sockets_ok env \<longleftrightarrow> 0 \<le> he_socket env \<and> 0 \<le> he_bindtodevice env \<and> 0 \<le> he_priority env \<and> 0 \<le> he_bind env"

definition hw_zero :: "nat \<Rightarrow> hw" where
  "hw_zero n = \<lparr>send_ts = replicate n 0, send_ts_cnt = 0, recv_ts = replicate n 0, recv_ts_cnt = 0, n_err = 0, n_recv = 0, n_send = 0, n_sent = 0\<rparr>"

lemma hw_zero_inv: "hw_inv n tx rx rep (hw_zero n)"
  by (simp add: hw_inv_def hw_zero_def reported_def)

lemma stoll_show_nat: "n < 2 ^ 31 \<Longrightarrow> stoll (show_nat n) = Some (int n)"
proof -
  assume n: "n < 2 ^ 31"
  have d: "\<not> is_blank (hd (show_nat n))" "hd (show_nat n) \<noteq> CHR ''-''" "hd (show_nat n) \<noteq> CHR ''+''"
    using digit_not_special [OF show_nat_start(2)] by simp_all
  have "dropWhile is_blank (show_nat n) = show_nat n" using d(1) show_nat_start(1) by (cases "show_nat n") simp_all
  then show ?thesis using n d show_nat_start(1) by (simp add: stoll_def Let_def takeWhile_digits)
qed

lemma hw_main_eq:
  assumes "n < 2 ^ 31" and "he_assign env (of_nat n)"
  shows "hw_main env is_server [ifname, remote, show_nat n]
    = Option.bind (start_program env is_server (of_nat n) (hw_zero n)) (\<lambda>r. Some (hw_bind r (\<lambda>(_, out). Ok (0, out))))"
proof -
  have "unat (of_nat n :: u64) = n" using assms(1) by (simp add: unat_of_nat)
  then show ?thesis using assms by (simp add: hw_main_def stoll_show_nat hw_zero_def)
qed

lemma start_program_loop:
  assumes "errqueue_ok env n tx rep K" "data_ok env n rx" "sockets_ok env" and "n \<le> K" and "n < 2 ^ 31" and "\<And>i. i < n \<Longrightarrow> tx i \<noteq> - 1"
  obtains s where "hw_inv n tx rx rep s" "n_recv s = n" "n_err s = n"
    "start_program env is_server (of_nat n) (hw_zero n)
      = Option.bind (hw_drain env (of_nat n) s) (\<lambda>r. Some (hw_bind r (\<lambda>s. hw_bind (hw_print (of_nat n) s) (\<lambda>out. Ok (EXIT_SUCCESS, out)))))"
proof -
  have u: "unat (of_nat n :: u64) = n" using assms(5) by (simp add: unat_of_nat)
  obtain s where s: "rounds (if is_server then server_round env else client_round env) n (hw_zero n) = Ok s" "hw_inv n tx rx rep s" "n_recv s = n" "n_err s = n"
    using rounds_inv [OF assms(1,2) hw_zero_inv assms(5,6), of n is_server] assms(4) by (auto simp: hw_zero_def)
  have "hw_loop (if is_server then server_round env else client_round env) (of_nat n) (hw_zero n) = Ok s"
    using s(1) assms(5) by (simp add: hw_loop_def u)
  then have "start_program env is_server (of_nat n) (hw_zero n)
      = Option.bind (hw_drain env (of_nat n) s) (\<lambda>r. Some (hw_bind r (\<lambda>s. hw_bind (hw_print (of_nat n) s) (\<lambda>out. Ok (EXIT_SUCCESS, out)))))"
    using assms(3) by (simp add: start_program_def sockets_ok_def not_less)
  with s(2-4) that show thesis by blast
qed

section \<open>Properties\<close>

text \<open>C17: a run of the time stamp experiment, in either build. Suppose every datagram received carries its time, and among the first \<open>K\<close> calls
  on the error queue each of the \<open>n\<close> sending times is reported once, in any order, at any call and among calls that fail, find nothing
  yet or show other control messages. What the program does then depends on memory it has not initialised, because after \<^verbatim>\<open>EAGAIN\<close> it parses its
  control buffer. If no call answers \<^verbatim>\<open>EAGAIN\<close>, or if whenever one does that buffer shows no time stamp, the program returns and its output is one
  line per datagram: the time at which it was sent, and the time of the datagram received in the same round. But a call that answers \<^verbatim>\<open>EAGAIN\<close>
  while the buffer shows a report of datagram \<open>i\<close>, such as the one left over from an earlier call, counts that report as a new one.\<close>

theorem hwts_prints_every_pair:
  assumes "\<And>k. k < K \<Longrightarrow> case rep k of None \<Rightarrow> \<forall>cs. he_errqueue env k = Msg cs \<longrightarrow> relevant cs = []
      | Some i \<Rightarrow> i < n \<and> (\<exists>cs. he_errqueue env k = Msg cs \<and> reports_send cs i (tx i))"
    and "\<And>j k. j < K \<Longrightarrow> k < K \<Longrightarrow> rep j \<noteq> None \<Longrightarrow> rep j = rep k \<Longrightarrow> j = k"
    and "\<And>i. i < n \<Longrightarrow> \<exists>k<K. rep k = Some i" and "n \<le> K" and "n < 2 ^ 31" and "\<And>i. i < n \<Longrightarrow> tx i \<noteq> - 1"
    and "data_ok env n rx" "sockets_ok env" "he_assign env (of_nat n)"
  shows "((\<forall>k<K. he_errqueue env k = Again \<longrightarrow> relevant (he_stale env k) = []) \<longrightarrow>
       hw_main env is_server [ifname, remote, show_nat n] = Some (Ok (0, concat (map (\<lambda>i. hw_line (tx i) (rx i)) [0..<n]))))
    \<and> (\<forall>s i t. he_errqueue env (n_err s) = Again \<and> reports_send (he_stale env (n_err s)) i t \<and> t \<noteq> - 1 \<and> i < length (send_ts s) \<and> i < 2 ^ 31 \<longrightarrow>
       extract_send_timestamps env s
         = Ok (s\<lparr>send_ts := (send_ts s)[i := t], send_ts_cnt := send_ts_cnt s + 1, n_err := n_err s + 1\<rparr>))"
proof (intro conjI impI allI)
  assume quiet: "\<forall>k<K. he_errqueue env k = Again \<longrightarrow> relevant (he_stale env k) = []"
  have u: "unat (of_nat n :: u64) = n" using assms(5) by (simp add: unat_of_nat)
  have "shows_nothing env k" if "k < K" "rep k = None" for k
    using quiet assms(1) [OF that(1)] that by (simp add: shows_nothing_def split: recv_result.splits)
  then have "case rep k of Some i \<Rightarrow> i < n \<and> (\<exists>cs. he_errqueue env k = Msg cs \<and> reports_send cs i (tx i)) | None \<Rightarrow> shows_nothing env k"
    if "k < K" for k using assms(1) [OF that] that by (cases "rep k") simp_all
  then have ok: "errqueue_ok env n tx rep K" using assms(2) unfolding errqueue_ok_def by blast
  obtain s where s: "hw_inv n tx rx rep s" "n_recv s = n" "n_err s = n"
    "start_program env is_server (of_nat n) (hw_zero n)
      = Option.bind (hw_drain env (of_nat n) s) (\<lambda>r. Some (hw_bind r (\<lambda>s. hw_bind (hw_print (of_nat n) s) (\<lambda>out. Ok (EXIT_SUCCESS, out)))))"
    by (rule start_program_loop [OF ok assms(7,8,4-6)])
  have "n_err s \<le> K" using s(3) assms(4) by simp
  then obtain s' where s': "hw_drain env (of_nat n) s = Some (Ok s')" "hw_inv n tx rx rep s'" "reported rep (n_err s') = {..<n}" "n_recv s' = n_recv s"
    using drain_ends [OF ok assms(5,6,3) s(1) _ u] by blast
  have "hw_print (of_nat n) s' = Ok (concat (map (\<lambda>i. hw_line (tx i) (rx i)) [0..<n]))"
    using s'(2-4) s(2) assms(5) by (auto simp: hw_print_def u hw_inv_def intro!: arg_cong [where f = concat])
  then show "hw_main env is_server [ifname, remote, show_nat n] = Some (Ok (0, concat (map (\<lambda>i. hw_line (tx i) (rx i)) [0..<n])))"
    unfolding hw_main_eq [OF assms(5,9)] s(4) s'(1) by simp
next
  fix s :: hw and i t
  assume "he_errqueue env (n_err s) = Again \<and> reports_send (he_stale env (n_err s)) i t \<and> t \<noteq> - 1 \<and> i < length (send_ts s) \<and> i < 2 ^ 31"
  then show "extract_send_timestamps env s = Ok (s\<lparr>send_ts := (send_ts s)[i := t], send_ts_cnt := send_ts_cnt s + 1, n_err := n_err s + 1\<rparr>)"
    using extract_report [of "he_stale env (n_err s)" i t "s\<lparr>n_err := Suc (n_err s)\<rparr>"] by (simp add: extract_send_timestamps_def)
qed

definition demo_time :: "int \<Rightarrow> cmsg" where
  "demo_time t = \<lparr>cmsg_level = SOL_SOCKET, cmsg_type = SO_TIMESTAMPING, cm_ts2 = (0, t), ee_origin = 0, ee_data = 0\<rparr>"

definition demo_report :: "u32 \<Rightarrow> cmsg" where
  "demo_report i = \<lparr>cmsg_level = SOL_IP, cmsg_type = IP_RECVERR, cm_ts2 = (0, 0), ee_origin = SO_EE_ORIGIN_TIMESTAMPING, ee_data = i\<rparr>"

definition demo_hw :: "(nat \<Rightarrow> recv_result) \<Rightarrow> hw_env" where
  "demo_hw q = \<lparr>he_errqueue = q, he_stale = \<lambda>_. [], he_data = \<lambda>k. Msg [demo_time (int k + 70)], he_stale_data = \<lambda>_. [],
     he_sendmsg = \<lambda>_. True, he_socket = 3, he_bindtodevice = 0, he_priority = 0, he_ioctl = 0, he_bind = 0, he_assign = \<lambda>_. True\<rparr>"

text \<open>Two datagrams; the first call finds nothing, the second datagram is reported first, the report of the first comes late and in the other order.\<close>

definition demo_queue :: "nat \<Rightarrow> recv_result" where
  "demo_queue k = (if k = 1 then Msg [demo_time 51, demo_report 1] else if k = 4 then Msg [demo_report 0, demo_time 50]
     else if k = 3 then Failed else Again)"

definition demo_rep :: "nat \<Rightarrow> nat option" where
  "demo_rep k = (if k = 1 then Some 1 else if k = 4 then Some 0 else None)"

lemma demo_relevant [simp]:
  "is_time (demo_time t)" "is_report (demo_report i)" "cm_time (demo_time t) = word_of_int t" "ee_data (demo_report i) = i"
  by (simp_all add: demo_time_def demo_report_def is_time_def is_report_def cm_time_def)

lemma demo_reports:
  "reports_send [demo_time t, demo_report i] (unat i) (word_of_int t)" "reports_send [demo_report i, demo_time t] (unat i) (word_of_int t)"
  unfolding reports_send_def by (intro exI [of _ "demo_time t"] exI [of _ "demo_report i"], simp)+

lemma demo_hw_ok:
  "data_ok (demo_hw q) n (\<lambda>k. word_of_int (int k + 70))" "sockets_ok (demo_hw q)"
  by (simp_all add: data_ok_def sockets_ok_def demo_hw_def)

theorem hwts_prints_every_pair_witness:
  "hw_main (demo_hw demo_queue) True [''eth0'', ''10.0.0.2'', show_nat 2] = Some (Ok (0, hw_line 50 70 @ hw_line 51 71))"
proof -
  let ?tx = "\<lambda>i. word_of_int (int i + 50) :: u64" and ?rx = "\<lambda>k. word_of_int (int k + 70) :: u64"
  have r: "reports_send [demo_time 51, demo_report 1] 1 51" "reports_send [demo_report 0, demo_time 50] 0 50"
    using demo_reports(1) [of 51 1] demo_reports(2) [of 0 50] by simp_all
  have q: "case demo_rep k of None \<Rightarrow> \<forall>cs. he_errqueue (demo_hw demo_queue) k = Msg cs \<longrightarrow> relevant cs = []
      | Some i \<Rightarrow> i < 2 \<and> (\<exists>cs. he_errqueue (demo_hw demo_queue) k = Msg cs \<and> reports_send cs i (?tx i))" for k
    using r by (simp add: demo_hw_def demo_queue_def demo_rep_def)
  have once: "j = k" if "demo_rep j \<noteq> None" "demo_rep j = demo_rep k" for j k using that by (auto simp: demo_rep_def split: if_splits)
  have all: "\<exists>k<5. demo_rep k = Some i" if "i < 2" for i
    using that by (cases "i = 0") (auto simp: demo_rep_def intro: exI [of _ 4] exI [of _ 1])
  have tx: "?tx i \<noteq> - 1" if "i < 2" for i using that by (cases i) (simp_all add: less_Suc_eq)
  have assign: "he_assign (demo_hw demo_queue) (of_nat 2)" by (simp add: demo_hw_def)
  have "\<forall>k<5. he_errqueue (demo_hw demo_queue) k = Again \<longrightarrow> relevant (he_stale (demo_hw demo_queue) k) = []"
    by (simp add: demo_hw_def relevant_def)
  with hwts_prints_every_pair [where K = 5 and rep = demo_rep and is_server = True and ifname = "''eth0''" and remote = "''10.0.0.2''",
      OF q once all _ _ tx demo_hw_ok assign]
  have "hw_main (demo_hw demo_queue) True [''eth0'', ''10.0.0.2'', show_nat 2]
    = Some (Ok (0, concat (map (\<lambda>i. hw_line (?tx i) (?rx i)) [0..<2])))" by simp
  then show ?thesis by (simp add: upt_rec)
qed

text \<open>nothing makes up for a lost report: if the sending time of one datagram never arrives, the program never returns, and
  prints nothing.\<close>

theorem hwts_lost_report_hangs:
  assumes "\<And>K. errqueue_ok env n tx rep K" "data_ok env n rx" "sockets_ok env" "he_assign env (of_nat n)"
    and "n < 2 ^ 31" and "\<And>i. i < n \<Longrightarrow> tx i \<noteq> - 1" and "i < n" "\<And>k. rep k \<noteq> Some i"
  shows "hw_main env is_server [ifname, remote, show_nat n] = None"
proof -
  have u: "unat (of_nat n :: u64) = n" using assms(5) by (simp add: unat_of_nat)
  obtain s where s: "hw_inv n tx rx rep s"
    "start_program env is_server (of_nat n) (hw_zero n)
      = Option.bind (hw_drain env (of_nat n) s) (\<lambda>r. Some (hw_bind r (\<lambda>s. hw_bind (hw_print (of_nat n) s) (\<lambda>out. Ok (EXIT_SUCCESS, out)))))"
    by (rule start_program_loop [OF assms(1-3) order_refl assms(5,6)])
  have "hw_drain env (of_nat n) s = None" using drain_hangs [OF assms(1,5-8) u] s(1) by (cases "hw_drain env (of_nat n) s") auto
  then show ?thesis unfolding hw_main_eq [OF assms(5,4)] s(2) by simp
qed

theorem hwts_lost_report_hangs_witness:
  "hw_main (demo_hw (\<lambda>_. Again)) False [''eth0'', ''10.0.0.2'', show_nat 1] = None"
proof -
  have e: "errqueue_ok (demo_hw (\<lambda>_. Again)) 1 (\<lambda>_. 0) (\<lambda>_. None) K" for K
    by (simp add: errqueue_ok_def shows_nothing_def demo_hw_def)
  show ?thesis by (rule hwts_lost_report_hangs [OF e demo_hw_ok, of 0]) (simp_all add: demo_hw_def)
qed

text \<open>the control buffer that is read after \<^verbatim>\<open>EAGAIN\<close>. When it still holds the messages of the previous call, a report is counted twice: the program
  ends before the second report was read and prints 0 for it.\<close>

theorem hwts_stale_report_counts_twice:
  "hw_main ((demo_hw (\<lambda>k. if k = 0 then Msg [demo_time 50, demo_report 0] else Again))\<lparr>he_stale := \<lambda>_. [demo_time 50, demo_report 0]\<rparr>)
     True [''eth0'', ''10.0.0.2'', show_nat 2] = Some (Ok (0, hw_line 50 70 @ hw_line 0 71))"
proof -
  let ?env = "(demo_hw (\<lambda>k. if k = 0 then Msg [demo_time 50, demo_report 0] else Again))\<lparr>he_stale := \<lambda>_. [demo_time 50, demo_report 0]\<rparr>"
  have r: "reports_send [demo_time 50, demo_report 0] 0 50" using demo_reports(1) [of 50 0] by simp
  have x: "extract_loop [demo_time 50, demo_report 0] (- 1) (- 1) s = Ok (s\<lparr>send_ts := (send_ts s)[0 := 50], send_ts_cnt := send_ts_cnt s + 1\<rparr>)"
    if "0 < length (send_ts s)" for s using extract_report [OF r _ that] by simp
  have y: "extract_recv_timestamp [demo_time t] s = Ok (s\<lparr>recv_ts := (recv_ts s)[unat (recv_ts_cnt s) := word_of_int t], recv_ts_cnt := recv_ts_cnt s + 1\<rparr>)"
    if "unat (recv_ts_cnt s) < length (recv_ts s)" for s t by (rule extract_recv_one [OF _ that]) simp
  have z: "(2 :: nat) < 2 ^ 31" "he_assign ?env (of_nat 2)" by (simp_all add: demo_hw_def)
  have u: "unat (of_nat 2 :: u64) = Suc (Suc 0)" by simp
  have l: "hw_loop b (of_nat 2) s = hw_bind (b s) (\<lambda>s. hw_bind (b s) Ok)" for b s
  proof -
    have "hw_bind r (\<lambda>s. if 2 ^ 31 \<le> Suc (Suc 0) then Undef else Ok s) = r" for r :: "hw hw_result" by (cases r) simp_all
    moreover have "rounds b 0 = Ok" by (intro ext) simp
    ultimately show ?thesis unfolding hw_loop_def u by (cases "b s") simp_all
  qed
  define s0 where "s0 = hw_zero 2"
  define s1 where "s1 = s0\<lparr>send_ts := [50, 0], send_ts_cnt := 1, recv_ts := [70, 0], recv_ts_cnt := 1, n_err := 1, n_recv := 1, n_send := 1, n_sent := 1\<rparr>"
  define s2 where "s2 = s0\<lparr>send_ts := [50, 0], send_ts_cnt := 2, recv_ts := [70, 71], recv_ts_cnt := 2, n_err := 2, n_recv := 2, n_send := 2, n_sent := 2\<rparr>"
  have z0: "s0 = \<lparr>send_ts = [0, 0], send_ts_cnt = 0, recv_ts = [0, 0], recv_ts_cnt = 0, n_err = 0, n_recv = 0, n_send = 0, n_sent = 0\<rparr>"
    by (simp add: s0_def hw_zero_def numeral_2_eq_2)
  have "server_round ?env s0 = Ok s1"
    by (simp add: z0 s1_def server_round_def receive_def extract_send_timestamps_def demo_hw_def x y hw_send_def Let_def
        del: extract_recv_timestamp.simps extract_loop.simps)
  moreover have "server_round ?env s1 = Ok s2"
    by (simp add: z0 s1_def s2_def server_round_def receive_def extract_send_timestamps_def demo_hw_def x y hw_send_def Let_def
        del: extract_recv_timestamp.simps extract_loop.simps)
  moreover have "hw_drain ?env (of_nat 2) s2 = Some (Ok s2)" by (subst hw_drain.simps) (simp add: s2_def)
  moreover have "hw_print (of_nat 2) s2 = Ok (hw_line 50 70 @ hw_line 0 71)" by (simp add: hw_print_def s2_def u upt_rec)
  ultimately show ?thesis
    unfolding hw_main_eq [OF z] start_program_def l s0_def [symmetric] by (simp add: demo_hw_def)
qed

end
