(* ===== verification/Rdma_UD.thy ===== *)
theory Rdma_UD
  imports Net Bitset Persistence "HOL-Library.Multiset"
begin

text \<open>
  The RDMA program over unreliable datagrams (\<^verbatim>\<open>rdma/ud_pingpong.c\<close>): the allocation and release of the verbs
  resources, the posting of work requests, the handling of completions, and the server's main loop.

  The verbs library is outside: \<open>verbs\<close> gives the results of the posting calls, and the network adapter is the
  environment of the step relation \<open>ud_step\<close>. What the program relies on is in its two environment rules: the
  adapter completes each outstanding request at most once, a completed receive has written a packet into the
  buffer of that request and nowhere else. Outstanding requests (\<open>rq\<close>, \<open>sq\<close>) and unread completions (\<open>cq\<close>) may
  complete and be read in any order that respects the completion queue.

  A packet buffer starts with the 40 bytes of the global routing header that a datagram receive leaves free.
\<close>

section \<open>Definitions\<close>

definition QUEUE_SIZE :: nat where "QUEUE_SIZE = 128"
definition PINGPONG_SEND_WRID :: nat where "PINGPONG_SEND_WRID = 0"
definition PINGPONG_RECV_WRID :: nat where "PINGPONG_RECV_WRID = QUEUE_SIZE"
definition GRH_SIZE :: nat where "GRH_SIZE = 40"

subsection \<open>Resources\<close>

datatype ud_res =
  R_ctx | R_send_buf | R_recv_bufs | R_context | R_pd | R_send_mr | R_recv_mr | R_cq | R_qp | R_ah

text \<open>The cleanup labels of \<^verbatim>\<open>pp_init_context\<close>: what is released from each label on.\<close>

definition clean_ctx :: "ud_res list" where "clean_ctx = [R_ctx]"
definition clean_send_buf :: "ud_res list" where "clean_send_buf = R_send_buf # clean_ctx"
definition clean_recv_buf :: "ud_res list" where "clean_recv_buf = R_recv_bufs # clean_send_buf"
definition clean_context :: "ud_res list" where "clean_context = R_context # clean_recv_buf"
definition clean_pd :: "ud_res list" where "clean_pd = R_pd # clean_context"
definition clean_send_mr :: "ud_res list" where "clean_send_mr = R_send_mr # clean_pd"
definition clean_recv_mr :: "ud_res list" where "clean_recv_mr = R_recv_mr # clean_send_mr"
definition clean_cq :: "ud_res list" where "clean_cq = R_cq # clean_recv_mr"
definition clean_qp :: "ud_res list" where "clean_qp = R_qp # clean_cq"

text \<open>\<open>ok r\<close> tells whether the allocation of \<open>r\<close> succeeds, \<open>modify_ok\<close> whether the queue pair can be initialised. The
  result: whether a context is returned, what was acquired, what was released, both in order.\<close>

definition pp_init_context :: "(ud_res \<Rightarrow> bool) \<Rightarrow> bool \<Rightarrow> bool \<times> ud_res list \<times> ud_res list" where
  "pp_init_context ok modify_ok =
     (if \<not> ok R_ctx then (False, [], [])
      else if \<not> ok R_send_buf then (False, [R_ctx], clean_ctx)
      else if \<not> ok R_recv_bufs then (False, [R_ctx, R_send_buf], clean_send_buf)
      else if \<not> ok R_context then (False, [R_ctx, R_send_buf, R_recv_bufs], clean_recv_buf)
      else if \<not> ok R_pd then (False, [R_ctx, R_send_buf, R_recv_bufs, R_context], clean_context)
      else if \<not> ok R_send_mr then (False, [R_ctx, R_send_buf, R_recv_bufs, R_context, R_pd], clean_pd)
      else if \<not> ok R_recv_mr then (False, [R_ctx, R_send_buf, R_recv_bufs, R_context, R_pd, R_send_mr], clean_send_mr)
      else if \<not> ok R_cq then (False, [R_ctx, R_send_buf, R_recv_bufs, R_context, R_pd, R_send_mr, R_recv_mr], clean_recv_mr)
      else if \<not> ok R_qp then (False, [R_ctx, R_send_buf, R_recv_bufs, R_context, R_pd, R_send_mr, R_recv_mr, R_cq], clean_cq)
      else if \<not> modify_ok then (False, [R_ctx, R_send_buf, R_recv_bufs, R_context, R_pd, R_send_mr, R_recv_mr, R_cq, R_qp], clean_qp)
      else (True, [R_ctx, R_send_buf, R_recv_bufs, R_context, R_pd, R_send_mr, R_recv_mr, R_cq, R_qp], []))"

text \<open>\<^verbatim>\<open>pp_close_context\<close>: releases in order and stops at the first call that fails. \<open>ah\<close> is whether the field
  \<^verbatim>\<open>ctx->ah\<close> is not null.\<close>

fun release_until :: "(ud_res \<Rightarrow> bool) \<Rightarrow> ud_res list \<Rightarrow> bool \<times> ud_res list" where
  "release_until ok [] = (True, [])"
| "release_until ok (r # rs) =
     (if \<not> ok r then (False, []) else (case release_until ok rs of (b, l) \<Rightarrow> (b, r # l)))"

definition pp_close_context :: "(ud_res \<Rightarrow> bool) \<Rightarrow> bool \<Rightarrow> int \<times> ud_res list" where
  "pp_close_context ok ah =
     (case release_until ok ([R_qp, R_cq, R_recv_mr, R_send_mr] @ (if ah then [R_ah] else []) @ [R_pd, R_context]) of
        (False, l) \<Rightarrow> (1, l)
      | (True, l) \<Rightarrow> (0, l @ [R_recv_bufs, R_send_buf, R_ctx]))"

subsection \<open>Work requests\<close>

record wc =
  wr_id :: nat
  success :: bool

record verbs =
  v_post_recv :: "nat \<Rightarrow> int"
  v_post_send :: "nat \<Rightarrow> int"

text \<open>The context, with the outstanding requests, the unread completions and the packets handed to the adapter. It
  extends the world, whose clock \<^verbatim>\<open>get_time_ns\<close> reads.\<close>

record ud_ctx = world +
  pending_send :: bytes
  send_buf :: bytes
  recv_bufs :: bytes
  rq :: "nat list"
  sq :: "nat list"
  cq :: "wc list"
  npost_recv :: nat
  npost_send :: nat
  posted :: "bytes list"

definition recv_off :: "nat \<Rightarrow> nat" where
  "recv_off queue_idx = queue_idx * PACKET_SIZE"

definition recv_payload :: "nat \<Rightarrow> nat" where
  "recv_payload queue_idx = queue_idx * PACKET_SIZE + GRH_SIZE"

definition pp_post_recv :: "verbs \<Rightarrow> nat \<Rightarrow> ud_ctx \<Rightarrow> int \<times> ud_ctx" where
  "pp_post_recv v queue_idx ctx =
     (let r = v_post_recv v (npost_recv ctx); ctx = ctx\<lparr>npost_recv := npost_recv ctx + 1\<rparr> in
      if r \<noteq> 0 then (1, ctx) else (0, ctx\<lparr>rq := rq ctx @ [PINGPONG_RECV_WRID + queue_idx]\<rparr>))"

text \<open>\<open>mem\<close> and \<open>buffer\<close> are the memory block and the offset of the buffer in it; the packet is what the adapter reads
  there.\<close>

definition pp_post_send :: "verbs \<Rightarrow> bytes \<Rightarrow> nat \<Rightarrow> int \<Rightarrow> ud_ctx \<Rightarrow> int \<times> ud_ctx" where
  "pp_post_send v mem buffer queue_idx ctx =
     (let i = (if queue_idx = - 1 then PINGPONG_SEND_WRID else PINGPONG_SEND_WRID + nat queue_idx);
          ctx = ctx\<lparr>pending_send := BITSET_SET (pending_send ctx) (if queue_idx \<noteq> - 1 then nat queue_idx else 0)\<rparr>;
          r = v_post_send v (npost_send ctx); ctx = ctx\<lparr>npost_send := npost_send ctx + 1\<rparr> in
      if r \<noteq> 0 then (r, ctx)
      else (0, ctx\<lparr>sq := sq ctx @ [i], posted := posted ctx @ [mread mem (buffer + GRH_SIZE) (PACKET_SIZE - GRH_SIZE)]\<rparr>))"

text \<open>\<^verbatim>\<open>parse_single_wc\<close> in the server build. \<open>None\<close>: the busy-wait on the pending bit spins forever (the server has one
  thread, nobody else would clear the bit).\<close>

definition parse_single_wc_server :: "verbs \<Rightarrow> wc \<Rightarrow> ud_ctx \<Rightarrow> (int \<times> ud_ctx) option" where
  "parse_single_wc_server v c ctx =
     (let ts = get_time_ns ctx; ctx = snd ts in
      if \<not> success c then Some (1, ctx)
      else if wr_id c \<ge> PINGPONG_RECV_WRID + QUEUE_SIZE then Some (1, ctx)
      else if wr_id c < PINGPONG_SEND_WRID + QUEUE_SIZE then
        (let i = wr_id c - PINGPONG_SEND_WRID;
             r = pp_post_recv v i (ctx\<lparr>pending_send := BITSET_CLEAR (pending_send ctx) i\<rparr>)
         in Some (if fst r \<noteq> 0 then 1 else 0, snd r))
      else
        (let i = wr_id c - PINGPONG_RECV_WRID in
         if BITSET_TEST (pending_send ctx) i then None
         else
           (let ctx = ctx\<lparr>recv_bufs := store_ts (recv_bufs ctx) (recv_payload i) 1 (fst ts)\<rparr>;
                t2 = get_time_ns ctx; ctx = snd t2;
                ctx = ctx\<lparr>recv_bufs := store_ts (recv_bufs ctx) (recv_payload i) 2 (fst t2)\<rparr>;
                r = pp_post_send v (recv_bufs ctx) (recv_off i) (int i) ctx
            in Some (if fst r \<noteq> 0 then 1 else 0, snd r))))"

text \<open>\<^verbatim>\<open>parse_single_wc\<close> in the client build. \<open>None\<close>: the persistence agent has no defined result.\<close>

definition parse_single_wc_client ::
  "verbs \<Rightarrow> wc \<Rightarrow> persistence_agent \<times> ud_ctx \<Rightarrow> (int \<times> persistence_agent \<times> ud_ctx) option" where
  "parse_single_wc_client v c s =
     (let ag = fst s; ctx = snd (get_time_ns (snd s)) in
      if \<not> success c then Some (1, ag, ctx)
      else if wr_id c \<ge> PINGPONG_RECV_WRID + QUEUE_SIZE then Some (1, ag, ctx)
      else if wr_id c < PINGPONG_SEND_WRID + QUEUE_SIZE then
        Some (0, ag, ctx\<lparr>pending_send := BITSET_CLEAR (pending_send ctx) (wr_id c - PINGPONG_SEND_WRID)\<rparr>)
      else
        (let i = wr_id c - PINGPONG_RECV_WRID; t = get_time_ns ctx; ctx = snd t;
             ctx = ctx\<lparr>recv_bufs := store_ts (recv_bufs ctx) (recv_payload i) 3 (fst t)\<rparr>
         in case agent_write ag (load_payload (recv_bufs ctx) (recv_payload i)) of
              None \<Rightarrow> None
            | Some (_, ag) \<Rightarrow>
                (let r = pp_post_recv v i ctx in Some (if fst r \<noteq> 0 then 1 else 0, ag, snd r))))"

text \<open>\<^verbatim>\<open>pp_send_single_packet\<close>: \<open>None\<close> while the busy-wait on bit 0 holds (here the other thread clears it).\<close>

definition pp_send_single_packet :: "verbs \<Rightarrow> u64 \<Rightarrow> ud_ctx \<Rightarrow> (int \<times> ud_ctx) option" where
  "pp_send_single_packet v packet_id ctx =
     (if BITSET_TEST (pending_send ctx) 0 then None
      else
        (let ctx = ctx\<lparr>send_buf := store_payload (send_buf ctx) GRH_SIZE (new_pingpong_payload packet_id)\<rparr>;
             t = get_time_ns ctx; ctx = snd t;
             ctx = ctx\<lparr>send_buf := store_ts (send_buf ctx) GRH_SIZE 0 (fst t)\<rparr>
         in Some (pp_post_send v (send_buf ctx) 0 (- 1) ctx)))"

subsection \<open>The server\<close>

text \<open>\<open>U_Done\<close> is the label \<^verbatim>\<open>done\<close>, \<open>U_Fail\<close> the early return of \<^verbatim>\<open>main\<close> after a failing \<^verbatim>\<open>ibv_poll_cq\<close>. The flag \<open>uexit\<close> is
  \<^verbatim>\<open>global_exit\<close>, which the signal handler sets.\<close>

datatype ud_pc = U_Run | U_Done | U_Fail | U_Spin

record ud_server =
  ctx :: ud_ctx
  recv_idx :: u64
  upc :: ud_pc
  uexit :: bool
  got :: "pingpong_payload list"

text \<open>The initial receives: one per queue index. \<open>False\<close> when one cannot be posted.\<close>

fun post_all :: "verbs \<Rightarrow> nat list \<Rightarrow> ud_ctx \<Rightarrow> bool \<times> ud_ctx" where
  "post_all v [] c = (True, c)"
| "post_all v (i # is) c = (case pp_post_recv v i c of (r, c') \<Rightarrow> if r \<noteq> 0 then (False, c') else post_all v is c')"

text \<open>The body of the main loop for one completion: the handler, and the update of the progress counter. The list \<open>got\<close>
  is the history of the payloads of the completed receives.\<close>

definition ud_handle :: "verbs \<Rightarrow> wc \<Rightarrow> ud_server \<Rightarrow> ud_server" where
  "ud_handle v c s =
     (case parse_single_wc_server v c (ctx s) of
        None \<Rightarrow> s\<lparr>upc := U_Spin\<rparr>
      | Some (rc, c') \<Rightarrow>
          if rc \<noteq> 0 then s\<lparr>ctx := c', upc := U_Done\<rparr>
          else if wr_id c \<ge> PINGPONG_RECV_WRID then
            s\<lparr>ctx := c',
              recv_idx := max (recv_idx s) (pp_id (load_payload (recv_bufs c') (recv_payload (wr_id c - PINGPONG_RECV_WRID)))),
              got := got s @ [load_payload (recv_bufs (ctx s)) (recv_payload (wr_id c - PINGPONG_RECV_WRID))]\<rparr>
          else s\<lparr>ctx := c'\<rparr>)"

text \<open>The step relation. \<open>nic_recv\<close> and \<open>nic_send\<close> are the adapter; \<open>poll\<close> takes one completion off the queue (the two that
  \<^verbatim>\<open>ibv_poll_cq\<close> may return are handled one after the other, without looking at the exit flag in between) and handles it; \<open>poll_fails\<close> is
  a negative result of it. The loop is left when the last identifier has been received, or when the flag is set, then possibly with the up to
  two completions just polled discarded.\<close>

inductive ud_step :: "verbs \<Rightarrow> u64 \<Rightarrow> ud_server \<Rightarrow> ud_server \<Rightarrow> bool" for v iters where
  nic_recv: "PINGPONG_RECV_WRID + i \<in> set (rq (ctx s)) \<Longrightarrow> length pkt = PACKET_SIZE \<Longrightarrow>
     c' = (ctx s)\<lparr>rq := remove1 (PINGPONG_RECV_WRID + i) (rq (ctx s)), recv_bufs := mwrite (recv_bufs (ctx s)) (recv_off i) pkt,
                  cq := cq (ctx s) @ [\<lparr>wr_id = PINGPONG_RECV_WRID + i, success = b\<rparr>]\<rparr> \<Longrightarrow>
     ud_step v iters s (s\<lparr>ctx := c'\<rparr>)"
| nic_send: "i \<in> set (sq (ctx s)) \<Longrightarrow>
     c' = (ctx s)\<lparr>sq := remove1 i (sq (ctx s)), cq := cq (ctx s) @ [\<lparr>wr_id = i, success = b\<rparr>]\<rparr> \<Longrightarrow>
     ud_step v iters s (s\<lparr>ctx := c'\<rparr>)"
| poll: "upc s = U_Run \<Longrightarrow> cq (ctx s) = c # cs \<Longrightarrow> ud_step v iters s (ud_handle v c (s\<lparr>ctx := (ctx s)\<lparr>cq := cs\<rparr>\<rparr>))"
| poll_fails: "upc s = U_Run \<Longrightarrow> recv_idx s < iters \<Longrightarrow> ud_step v iters s (s\<lparr>upc := U_Fail\<rparr>)"
| leave: "upc s = U_Run \<Longrightarrow> iters \<le> recv_idx s \<Longrightarrow> ud_step v iters s (s\<lparr>upc := U_Done\<rparr>)"
| sigint: "ud_step v iters s (s\<lparr>uexit := True\<rparr>)"
| interrupted: "upc s = U_Run \<Longrightarrow> uexit s \<Longrightarrow> n \<le> 2 \<Longrightarrow>
     ud_step v iters s (s\<lparr>ctx := (ctx s)\<lparr>cq := drop n (cq (ctx s))\<rparr>, upc := U_Done\<rparr>)"

definition ud_init :: "ud_ctx \<Rightarrow> bool" where
  "ud_init c \<longleftrightarrow> rq c = [] \<and> sq c = [] \<and> cq c = [] \<and> posted c = [] \<and> length (pending_send c) = BITSET_SLOTS QUEUE_SIZE
     \<and> length (recv_bufs c) = PACKET_SIZE * QUEUE_SIZE"

definition ud_ready :: "verbs \<Rightarrow> ud_ctx \<Rightarrow> ud_server" where
  "ud_ready v c =
     (case post_all v [0..<QUEUE_SIZE] (c\<lparr>pending_send := BITSET_INIT (pending_send c) QUEUE_SIZE\<rparr>) of
        (b, c') \<Rightarrow> \<lparr>ctx = c', recv_idx = 0, upc = (if b then U_Run else U_Done), uexit = False, got = []\<rparr>)"

inductive ud_reach :: "verbs \<Rightarrow> u64 \<Rightarrow> ud_ctx \<Rightarrow> ud_server \<Rightarrow> bool" for v iters c0 where
  ud_start: "ud_reach v iters c0 (ud_ready v c0)"
| ud_next: "ud_reach v iters c0 s \<Longrightarrow> ud_step v iters s s' \<Longrightarrow> ud_reach v iters c0 s'"

section \<open>Queue indices\<close>

text \<open>Every queue index is in exactly one place: a posted receive, a posted send, or an unread completion.\<close>

definition tokens :: "ud_ctx \<Rightarrow> nat multiset" where
  "tokens c = mset (rq c) + mset (sq c) + mset (map wr_id (cq c))"

definition ud_ok :: "ud_ctx \<Rightarrow> bool" where
  "ud_ok c \<longleftrightarrow> bitset_wf QUEUE_SIZE (pending_send c) \<and> length (recv_bufs c) = PACKET_SIZE * QUEUE_SIZE
     \<and> set (rq c) \<subseteq> {QUEUE_SIZE..<2 * QUEUE_SIZE} \<and> set (sq c) \<subseteq> {..<QUEUE_SIZE}
     \<and> wr_id ` set (cq c) \<subseteq> {..<2 * QUEUE_SIZE}
     \<and> image_mset (\<lambda>x. x mod QUEUE_SIZE) (tokens c) = mset [0..<QUEUE_SIZE]
     \<and> bits (pending_send c) = set (sq c) \<union> {x \<in> wr_id ` set (cq c). x < QUEUE_SIZE}"

definition echoes :: "bytes \<Rightarrow> pingpong_payload \<Rightarrow> bool" where
  "echoes bs p \<longleftrightarrow> length bs = PACKET_SIZE - GRH_SIZE \<and> (\<exists>t1 t2. load_payload bs 0 = p\<lparr>ts1 := t1, ts2 := t2\<rparr>)"

definition ud_inv :: "ud_server \<Rightarrow> bool" where
  "ud_inv s \<longleftrightarrow> upc s \<noteq> U_Spin \<and> (upc s = U_Run \<longrightarrow> ud_ok (ctx s)) \<and> list_all2 echoes (posted (ctx s)) (got s)"

lemma token_unique:
  assumes "image_mset (\<lambda>x. x mod QUEUE_SIZE) (add_mset x M) = mset [0..<QUEUE_SIZE]" and "y \<in># M"
  shows "x mod QUEUE_SIZE \<noteq> y mod QUEUE_SIZE"
proof
  assume *: "x mod QUEUE_SIZE = y mod QUEUE_SIZE"
  obtain N where "M = add_mset y N" using assms(2) by (meson mset_add)
  then have "count (image_mset (\<lambda>x. x mod QUEUE_SIZE) (add_mset x M)) (x mod QUEUE_SIZE) \<ge> 2" using * by simp
  moreover have "count (mset [0..<QUEUE_SIZE]) (x mod QUEUE_SIZE) \<le> 1"
    by (metis distinct_count_atmost_1 distinct_upt le_zero_eq linorder_linear)
  ultimately show False unfolding assms(1) by linarith
qed

lemma queue_size_pos [simp]: "0 < QUEUE_SIZE"
  by (simp add: QUEUE_SIZE_def)

lemma mset_remove1_add: "x \<in> set xs \<Longrightarrow> add_mset x (mset (remove1 x xs)) = mset xs"
  by simp

subsection \<open>The adapter keeps the invariant\<close>

lemma recv_slot_fits: "i < QUEUE_SIZE \<Longrightarrow> length b = PACKET_SIZE * QUEUE_SIZE \<Longrightarrow>
  recv_off i + PACKET_SIZE \<le> length b \<and> recv_payload i + payload_size \<le> length b"
proof -
  assume "i < QUEUE_SIZE" and b: "length b = PACKET_SIZE * QUEUE_SIZE"
  then have "Suc i * PACKET_SIZE \<le> QUEUE_SIZE * PACKET_SIZE" by (intro mult_le_mono1) simp
  with b show ?thesis by (simp add: recv_off_def recv_payload_def GRH_SIZE_def payload_size_def PACKET_SIZE_def)
qed

lemma nic_recv_ok:
  assumes "ud_ok c" and "PINGPONG_RECV_WRID + i \<in> set (rq c)" and "length pkt = PACKET_SIZE"
  shows "ud_ok (c\<lparr>rq := remove1 (PINGPONG_RECV_WRID + i) (rq c), recv_bufs := mwrite (recv_bufs c) (recv_off i) pkt,
      cq := cq c @ [\<lparr>wr_id = PINGPONG_RECV_WRID + i, success = b\<rparr>]\<rparr>)"
proof -
  have i: "i < QUEUE_SIZE" using assms(1,2) by (auto simp: ud_ok_def PINGPONG_RECV_WRID_def)
  have "tokens (c\<lparr>rq := remove1 (PINGPONG_RECV_WRID + i) (rq c), recv_bufs := mwrite (recv_bufs c) (recv_off i) pkt,
      cq := cq c @ [\<lparr>wr_id = PINGPONG_RECV_WRID + i, success = b\<rparr>]\<rparr>) = tokens c"
    unfolding tokens_def mset_remove1_add [OF assms(2), symmetric] by simp
  with assms i recv_slot_fits [OF i, of "recv_bufs c"] show ?thesis
    by (auto simp: ud_ok_def PINGPONG_RECV_WRID_def dest: notin_set_remove1 [THEN contrapos_nn] set_remove1_subset [THEN subsetD])
qed

lemma nic_send_ok:
  assumes "ud_ok c" and "i \<in> set (sq c)"
  shows "ud_ok (c\<lparr>sq := remove1 i (sq c), cq := cq c @ [\<lparr>wr_id = i, success = b\<rparr>]\<rparr>)"
proof -
  have i: "i < QUEUE_SIZE" using assms by (auto simp: ud_ok_def)
  have "tokens (c\<lparr>sq := remove1 i (sq c), cq := cq c @ [\<lparr>wr_id = i, success = b\<rparr>]\<rparr>) = tokens c"
    unfolding tokens_def mset_remove1_add [OF assms(2), symmetric] by simp
  moreover have "insert i (set (remove1 i (sq c))) = set (sq c)"
    using mset_remove1_add [OF assms(2)] by (metis set_mset_add_mset_insert set_mset_mset)
  ultimately show ?thesis
    using assms i by (auto simp: ud_ok_def dest: set_remove1_subset [THEN subsetD])
qed

subsection \<open>The handler keeps it\<close>

lemma handle_send_ok:
  assumes "ud_ok (c\<lparr>cq := w # cs\<rparr>)" and "wr_id w < QUEUE_SIZE"
  shows "ud_ok (c\<lparr>cq := cs, pending_send := BITSET_CLEAR (pending_send c) (wr_id w), rq := rq c @ [PINGPONG_RECV_WRID + wr_id w]\<rparr>)"
proof -
  let ?i = "wr_id w" and ?T = "mset (rq c) + mset (sq c) + mset (map wr_id cs)"
  have img: "image_mset (\<lambda>x. x mod QUEUE_SIZE) (add_mset ?i ?T) = mset [0..<QUEUE_SIZE]"
    using assms(1) by (simp add: ud_ok_def tokens_def ac_simps)
  have uniq: "?i \<notin> set (sq c)" "?i \<notin> wr_id ` set cs"
    using token_unique [OF img, of ?i] by auto
  have wf: "bitset_wf QUEUE_SIZE (pending_send c)" using assms(1) by (simp add: ud_ok_def)
  have bits: "bits (BITSET_CLEAR (pending_send c) ?i) = set (sq c) \<union> {x \<in> wr_id ` set cs. x < QUEUE_SIZE}"
    using bs.members_clear [OF wf assms(2)] assms(1) uniq by (auto simp: ud_ok_def)
  have "image_mset (\<lambda>x. x mod QUEUE_SIZE) (mset (rq c @ [PINGPONG_RECV_WRID + ?i]) + mset (sq c) + mset (map wr_id cs))
      = mset [0..<QUEUE_SIZE]" using img by (simp add: PINGPONG_RECV_WRID_def ac_simps)
  with assms bits bs.wf_clear [OF wf assms(2)] show ?thesis
    by (auto simp: ud_ok_def tokens_def PINGPONG_RECV_WRID_def)
qed

lemma recv_not_pending:
  assumes "ud_ok (c\<lparr>cq := w # cs\<rparr>)" and "wr_id w = PINGPONG_RECV_WRID + i" and "i < QUEUE_SIZE"
  shows "i \<notin> bits (pending_send c)"
proof -
  let ?T = "mset (rq c) + mset (sq c) + mset (map wr_id cs)"
  have img: "image_mset (\<lambda>x. x mod QUEUE_SIZE) (add_mset (wr_id w) ?T) = mset [0..<QUEUE_SIZE]"
    using assms(1) by (simp add: ud_ok_def tokens_def ac_simps)
  have "wr_id w mod QUEUE_SIZE = i mod QUEUE_SIZE" using assms(2) by (simp add: PINGPONG_RECV_WRID_def)
  then have "i \<notin> set (sq c)" "i \<notin> wr_id ` set cs" using token_unique [OF img, of i] by auto
  with assms show ?thesis by (auto simp: ud_ok_def PINGPONG_RECV_WRID_def)
qed

lemma handle_recv_ok:
  assumes "ud_ok (c\<lparr>cq := w # cs\<rparr>)" and "wr_id w = PINGPONG_RECV_WRID + i" and "i < QUEUE_SIZE"
    and "length b = PACKET_SIZE * QUEUE_SIZE"
  shows "ud_ok (c\<lparr>cq := cs, pending_send := BITSET_SET (pending_send c) i, recv_bufs := b, sq := sq c @ [i]\<rparr>)"
proof -
  have wf: "bitset_wf QUEUE_SIZE (pending_send c)" using assms(1) by (simp add: ud_ok_def)
  have "image_mset (\<lambda>x. x mod QUEUE_SIZE) (mset (rq c) + mset (sq c @ [i]) + mset (map wr_id cs)) = mset [0..<QUEUE_SIZE]"
    using assms(1,2,3) by (simp add: ud_ok_def tokens_def PINGPONG_RECV_WRID_def ac_simps)
  with assms bs.members_set [OF wf assms(3)] bs.wf_set [OF wf assms(3)] show ?thesis
    by (auto simp: ud_ok_def tokens_def PINGPONG_RECV_WRID_def)
qed

text \<open>The packet a receive completion sends back.\<close>

lemma mread_payload: "load_payload (mread b (o1 + o2) n) 0 = load_payload b (o1 + o2)" if "payload_size \<le> n"
  using that by (simp add: load_payload_def mread_mread)

lemma reply_echoes:
  assumes "i < QUEUE_SIZE" and "length b = PACKET_SIZE * QUEUE_SIZE"
  shows "echoes (mread (store_ts (store_ts b (recv_payload i) (Suc 0) t1) (recv_payload i) 2 t2) (recv_off i + GRH_SIZE) (PACKET_SIZE - GRH_SIZE))
    (load_payload b (recv_payload i))"
proof -
  let ?b = "store_ts (store_ts b (recv_payload i) (Suc 0) t1) (recv_payload i) 2 t2"
  have fits: "recv_off i + PACKET_SIZE \<le> length b" "recv_payload i + payload_size \<le> length b"
    using recv_slot_fits [OF assms] by auto
  have eq: "recv_off i + GRH_SIZE = recv_payload i" by (simp add: recv_off_def recv_payload_def)
  have "load_payload ?b (recv_payload i) = (load_payload b (recv_payload i))\<lparr>ts1 := t1, ts2 := t2\<rparr>"
    using fits(2) by (simp add: load_store_ts)
  moreover have "load_payload (mread ?b (recv_off i + GRH_SIZE) (PACKET_SIZE - GRH_SIZE)) 0 = load_payload ?b (recv_payload i)"
    using mread_payload [of "PACKET_SIZE - GRH_SIZE" ?b "recv_off i" GRH_SIZE]
    unfolding eq by (simp add: PACKET_SIZE_def GRH_SIZE_def payload_size_def)
  moreover have "length (mread ?b (recv_off i + GRH_SIZE) (PACKET_SIZE - GRH_SIZE)) = PACKET_SIZE - GRH_SIZE"
    using fits by (simp add: PACKET_SIZE_def GRH_SIZE_def)
  ultimately show ?thesis unfolding echoes_def by metis
qed

lemma ud_ok_world [simp]: "ud_ok (c\<lparr>nread := n\<rparr>) = ud_ok c" "ud_ok (c\<lparr>npost_recv := n\<rparr>) = ud_ok c"
  "ud_ok (c\<lparr>npost_send := n\<rparr>) = ud_ok c" "ud_ok (c\<lparr>posted := l\<rparr>) = ud_ok c"
  by (simp_all add: ud_ok_def tokens_def)

lemma ud_handle_send:
  assumes "ud_ok ((ctx s)\<lparr>cq := w # cs\<rparr>)" and "wr_id w < QUEUE_SIZE" and "list_all2 echoes (posted (ctx s)) (got s)" and "upc s = U_Run"
  shows "ud_inv (ud_handle v w (s\<lparr>ctx := (ctx s)\<lparr>cq := cs\<rparr>\<rparr>))"
proof -
  let ?c = "ctx s"
  note ok = handle_send_ok [OF assms(1,2)]
  have "ud_ok (?c\<lparr>cq := cs, nread := n, pending_send := BITSET_CLEAR (pending_send ?c) (wr_id w),
      npost_recv := k, rq := rq ?c @ [PINGPONG_RECV_WRID + wr_id w]\<rparr>)" for n k
    using ok by (simp add: ud_ok_def tokens_def)
  with assms(2-4) show ?thesis
    by (auto simp: ud_handle_def ud_inv_def parse_single_wc_server_def pp_post_recv_def get_time_ns_eq Let_def
        PINGPONG_RECV_WRID_def PINGPONG_SEND_WRID_def)
qed

lemma ud_handle_recv:
  assumes "ud_ok ((ctx s)\<lparr>cq := w # cs\<rparr>)" and "wr_id w = PINGPONG_RECV_WRID + i" and "i < QUEUE_SIZE"
    and "list_all2 echoes (posted (ctx s)) (got s)" and "upc s = U_Run"
  shows "ud_inv (ud_handle v w (s\<lparr>ctx := (ctx s)\<lparr>cq := cs\<rparr>\<rparr>))"
proof -
  let ?c = "ctx s"
  have len: "length (recv_bufs ?c) = PACKET_SIZE * QUEUE_SIZE" and wf: "bitset_wf QUEUE_SIZE (pending_send ?c)"
    using assms(1) by (simp_all add: ud_ok_def)
  have free: "\<not> BITSET_TEST (pending_send ?c) i"
    using recv_not_pending [OF assms(1-3)] bs.test [OF wf assms(3)] by simp
  have fits: "recv_payload i + payload_size \<le> length (recv_bufs ?c)" using recv_slot_fits [OF assms(3) len] by simp
  have ok: "ud_ok (?c\<lparr>cq := cs, nread := n, recv_bufs := store_ts (store_ts (recv_bufs ?c) (recv_payload i) (Suc 0) t1) (recv_payload i) 2 t2,
      pending_send := BITSET_SET (pending_send ?c) i, npost_send := k, sq := sq ?c @ [i], posted := l\<rparr>)" for n t1 t2 k l
    using handle_recv_ok [OF assms(1-3), of "store_ts (store_ts (recv_bufs ?c) (recv_payload i) (Suc 0) t1) (recv_payload i) 2 t2"]
      fits len assms(3) by (simp add: ud_ok_def tokens_def)
  have echo: "list_all2 echoes (posted ?c @ [mread (store_ts (store_ts (recv_bufs ?c) (recv_payload i) (Suc 0) t1) (recv_payload i) 2 t2)
      (recv_off i + GRH_SIZE) (PACKET_SIZE - GRH_SIZE)]) (got s @ [load_payload (recv_bufs ?c) (recv_payload i)])" for t1 t2
    using assms(4) reply_echoes [OF assms(3) len] by (simp add: list_all2_appendI)
  have id: "\<not> PINGPONG_RECV_WRID + QUEUE_SIZE \<le> wr_id w" "\<not> wr_id w < PINGPONG_SEND_WRID + QUEUE_SIZE" "wr_id w - PINGPONG_RECV_WRID = i"
    "PINGPONG_RECV_WRID \<le> wr_id w"
    using assms(2,3) by (simp_all add: PINGPONG_RECV_WRID_def PINGPONG_SEND_WRID_def)
  show ?thesis
  proof (cases "success w \<and> v_post_send v (npost_send ?c) = 0")
    case True
    with id free ok echo assms(5) show ?thesis
      by (simp add: ud_handle_def ud_inv_def parse_single_wc_server_def pp_post_send_def get_time_ns_eq Let_def PINGPONG_SEND_WRID_def)
  next
    case False
    with id free assms(4,5) show ?thesis
      by (auto simp: ud_handle_def ud_inv_def parse_single_wc_server_def pp_post_send_def get_time_ns_eq Let_def)
  qed
qed

lemma ud_handle_inv:
  assumes "ud_inv s" and "upc s = U_Run" and "cq (ctx s) = w # cs"
  shows "ud_inv (ud_handle v w (s\<lparr>ctx := (ctx s)\<lparr>cq := cs\<rparr>\<rparr>))"
proof -
  have "(ctx s)\<lparr>cq := w # cs\<rparr> = ctx s" using assms(3) by (metis ud_ctx.surjective ud_ctx.update_convs(6))
  then have ok: "ud_ok ((ctx s)\<lparr>cq := w # cs\<rparr>)" and ech: "list_all2 echoes (posted (ctx s)) (got s)"
    using assms(1,2) by (simp_all add: ud_inv_def)
  have "wr_id w < 2 * QUEUE_SIZE" using ok by (simp add: ud_ok_def)
  then consider "wr_id w < QUEUE_SIZE" | i where "wr_id w = PINGPONG_RECV_WRID + i" "i < QUEUE_SIZE"
    unfolding PINGPONG_RECV_WRID_def by (metis add_less_cancel_left le_add_diff_inverse mult_2 not_le)
  then show ?thesis
    by cases (use ud_handle_send [OF ok _ ech assms(2)] ud_handle_recv [OF ok _ _ ech assms(2)] in blast)+
qed

section \<open>Reachable states\<close>

lemma post_all_rq:
  "post_all v is c = (True, c') \<Longrightarrow>
   \<exists>n. c' = c\<lparr>npost_recv := n, rq := rq c @ map (\<lambda>i. PINGPONG_RECV_WRID + i) is\<rparr>"
proof (induction "is" arbitrary: c)
  case Nil
  then show ?case by (intro exI [of _ "npost_recv c"]) simp
next
  case (Cons i "is")
  then have "post_all v is (c\<lparr>npost_recv := npost_recv c + 1, rq := rq c @ [PINGPONG_RECV_WRID + i]\<rparr>) = (True, c')"
    by (auto simp: pp_post_recv_def Let_def split: if_splits)
  from Cons.IH [OF this] show ?case by auto
qed

lemma post_all_posted: "posted (snd (post_all v is c)) = posted c"
  by (induction "is" arbitrary: c) (auto simp: pp_post_recv_def Let_def split: prod.splits)

lemma ud_inv_ready: "ud_init c \<Longrightarrow> ud_inv (ud_ready v c)"
proof -
  assume c: "ud_init c"
  let ?c = "c\<lparr>pending_send := BITSET_INIT (pending_send c) QUEUE_SIZE\<rparr>"
  obtain b c' where p: "post_all v [0..<QUEUE_SIZE] ?c = (b, c')" by fastforce
  have wf: "bitset_wf QUEUE_SIZE (pending_send c)" using c by (simp add: ud_init_def bitset_wf_def)
  have post: "posted c' = []" using post_all_posted [of v "[0..<QUEUE_SIZE]" ?c] p c by (simp add: ud_init_def)
  have "ud_ok c'" if bt: b
  proof -
    obtain n where c': "c' = ?c\<lparr>npost_recv := n, rq := rq ?c @ map (\<lambda>i. PINGPONG_RECV_WRID + i) [0..<QUEUE_SIZE]\<rparr>"
      using post_all_rq [of v "[0..<QUEUE_SIZE]" ?c c'] p bt by auto
    have "image_mset (\<lambda>x. x mod QUEUE_SIZE) (mset (map (\<lambda>i. PINGPONG_RECV_WRID + i) [0..<QUEUE_SIZE])) = mset (map (\<lambda>i. i) [0..<QUEUE_SIZE])"
      unfolding mset_map [symmetric] map_map
      by (rule arg_cong [of _ _ mset], rule map_cong) (simp_all add: PINGPONG_RECV_WRID_def)
    then show ?thesis
      using c bits_INIT [OF wf] bitset_wf_INIT [OF wf]
      by (auto simp: c' ud_ok_def tokens_def ud_init_def PINGPONG_RECV_WRID_def)
  qed
  with p post show ?thesis by (auto simp: ud_ready_def ud_inv_def)
qed

lemma ud_reach_inv: "ud_reach v iters c0 s \<Longrightarrow> ud_init c0 \<Longrightarrow> ud_inv s"
proof (induction rule: ud_reach.induct)
  case ud_start
  then show ?case by (rule ud_inv_ready)
next
  case (ud_next s s')
  then have inv: "ud_inv s" by simp
  from ud_next.hyps(2) show ?case
  proof cases
    case (nic_recv i pkt c' b)
    with inv nic_recv_ok [of "ctx s" i pkt b] show ?thesis by (auto simp: ud_inv_def)
  next
    case (nic_send i c' b)
    with inv nic_send_ok [of "ctx s" i b] show ?thesis by (auto simp: ud_inv_def)
  next
    case (poll c cs)
    with ud_handle_inv [OF inv] show ?thesis by simp
  qed (use inv in \<open>auto simp: ud_inv_def\<close>)
qed

section \<open>Properties\<close>

text \<open>C6: the datagram server never blocks on its own pending bits and never overruns its queues. In every reachable
  state, whatever the adapter does and whichever posts fail, the busy-wait on the pending bit of a received
  packet's buffer has not spun; and while the loop runs the 128 queue indices are partitioned among posted
  receives, posted sends and unread completions, so none of the three queues of depth 128 can overflow, and the
  pending bit of an index is set exactly from the post of its send until its completion is read.\<close>

theorem ud_server_queue_discipline:
  assumes "ud_reach v iters c0 s" and "ud_init c0"
  shows "upc s \<noteq> U_Spin \<and> (upc s = U_Run \<longrightarrow>
     length (rq (ctx s)) + length (sq (ctx s)) + length (cq (ctx s)) = QUEUE_SIZE
     \<and> image_mset (\<lambda>x. x mod QUEUE_SIZE) (mset (rq (ctx s) @ sq (ctx s) @ map wr_id (cq (ctx s)))) = mset [0..<QUEUE_SIZE]
     \<and> (\<forall>i<QUEUE_SIZE. BITSET_TEST (pending_send (ctx s)) i \<longleftrightarrow> i \<in> set (sq (ctx s)) \<or> i \<in> wr_id ` set (cq (ctx s))))"
proof -
  have inv: "ud_inv s" by (rule ud_reach_inv [OF assms])
  let ?c = "ctx s"
  have "length (rq ?c) + length (sq ?c) + length (cq ?c) = QUEUE_SIZE
      \<and> image_mset (\<lambda>x. x mod QUEUE_SIZE) (mset (rq ?c @ sq ?c @ map wr_id (cq ?c))) = mset [0..<QUEUE_SIZE]
      \<and> (\<forall>i<QUEUE_SIZE. BITSET_TEST (pending_send ?c) i \<longleftrightarrow> i \<in> set (sq ?c) \<or> i \<in> wr_id ` set (cq ?c))"
    if "upc s = U_Run"
  proof -
    have ok: "ud_ok ?c" using inv that by (simp add: ud_inv_def)
    then have img: "image_mset (\<lambda>x. x mod QUEUE_SIZE) (tokens ?c) = mset [0..<QUEUE_SIZE]" and wf: "bitset_wf QUEUE_SIZE (pending_send ?c)"
      by (simp_all add: ud_ok_def)
    have "size (tokens ?c) = QUEUE_SIZE" using arg_cong [OF img, of size] by simp
    then have "length (rq ?c) + length (sq ?c) + length (cq ?c) = QUEUE_SIZE" by (simp add: tokens_def)
    moreover have "mset (rq ?c @ sq ?c @ map wr_id (cq ?c)) = tokens ?c" by (simp add: tokens_def)
    moreover have "BITSET_TEST (pending_send ?c) i \<longleftrightarrow> i \<in> set (sq ?c) \<or> i \<in> wr_id ` set (cq ?c)" if "i < QUEUE_SIZE" for i
      using bs.test [OF wf that] ok that by (auto simp: ud_ok_def)
    ultimately show ?thesis using img by metis
  qed
  with inv show ?thesis by (simp add: ud_inv_def)
qed

definition demo_verbs :: verbs where
  "demo_verbs = \<lparr>v_post_recv = \<lambda>_. 0, v_post_send = \<lambda>_. 0\<rparr>"

definition demo_ctx :: ud_ctx where
  "demo_ctx = \<lparr>ticks = \<lambda>n. (0, int n), nread = 0, slept = [], send_ret = \<lambda>_. 0, nsend = 0, sent = [],
     pending_send = replicate 16 255, send_buf = replicate PACKET_SIZE 0, recv_bufs = replicate (PACKET_SIZE * QUEUE_SIZE) 0,
     rq = [], sq = [], cq = [], npost_recv = 0, npost_send = 0, posted = []\<rparr>"

lemma demo_ctx_init: "ud_init demo_ctx"
  by (simp add: ud_init_def demo_ctx_def BITSET_SLOTS_def QUEUE_SIZE_def)

lemma post_all_succeeds: "fst (post_all demo_verbs is c)"
  by (induction "is" arbitrary: c) (simp_all add: pp_post_recv_def demo_verbs_def)

theorem ud_server_queue_discipline_witness:
  "upc (ud_ready demo_verbs demo_ctx) = U_Run
   \<and> length (rq (ctx (ud_ready demo_verbs demo_ctx))) + length (sq (ctx (ud_ready demo_verbs demo_ctx)))
     + length (cq (ctx (ud_ready demo_verbs demo_ctx))) = QUEUE_SIZE"
proof -
  have run: "upc (ud_ready demo_verbs demo_ctx) = U_Run"
    using post_all_succeeds by (simp add: ud_ready_def case_prod_beta)
  with ud_server_queue_discipline [OF ud_start demo_ctx_init, of demo_verbs] show ?thesis by blast
qed

text \<open>C38: the server echoes. In every reachable state the packets handed to the adapter are, one for one and in order,
  the received payloads with only the second and third timestamp replaced.\<close>

theorem ud_server_echoes:
  assumes "ud_reach v iters c0 s" and "ud_init c0"
  shows "list_all2 echoes (posted (ctx s)) (got s)"
  using ud_reach_inv [OF assms] by (simp add: ud_inv_def)

text \<open>A run for the witness: one packet arrives on index 5 and its completion is handled.\<close>

definition demo_arrival :: "bytes \<Rightarrow> ud_server \<Rightarrow> ud_server" where
  "demo_arrival pkt s = s\<lparr>ctx := (ctx s)\<lparr>rq := remove1 (PINGPONG_RECV_WRID + 5) (rq (ctx s)),
     recv_bufs := mwrite (recv_bufs (ctx s)) (recv_off 5) pkt, cq := cq (ctx s) @ [\<lparr>wr_id = PINGPONG_RECV_WRID + 5, success = True\<rparr>]\<rparr>\<rparr>"

lemma demo_ready:
  "ctx (ud_ready demo_verbs demo_ctx) = demo_ctx\<lparr>pending_send := BITSET_INIT (pending_send demo_ctx) QUEUE_SIZE,
     npost_recv := npost_recv (ctx (ud_ready demo_verbs demo_ctx)), rq := map (\<lambda>i. PINGPONG_RECV_WRID + i) [0..<QUEUE_SIZE]\<rparr>"
  "upc (ud_ready demo_verbs demo_ctx) = U_Run" "got (ud_ready demo_verbs demo_ctx) = []"
proof -
  obtain c where p: "post_all demo_verbs [0..<QUEUE_SIZE] (demo_ctx\<lparr>pending_send := BITSET_INIT (pending_send demo_ctx) QUEUE_SIZE\<rparr>) = (True, c)"
    by (metis post_all_succeeds prod.collapse)
  then show "ctx (ud_ready demo_verbs demo_ctx) = demo_ctx\<lparr>pending_send := BITSET_INIT (pending_send demo_ctx) QUEUE_SIZE,
     npost_recv := npost_recv (ctx (ud_ready demo_verbs demo_ctx)), rq := map (\<lambda>i. PINGPONG_RECV_WRID + i) [0..<QUEUE_SIZE]\<rparr>"
    using post_all_rq [OF p] by (auto simp: ud_ready_def demo_ctx_def)
  show "upc (ud_ready demo_verbs demo_ctx) = U_Run" "got (ud_ready demo_verbs demo_ctx) = []"
    using p by (simp_all add: ud_ready_def)
qed

theorem ud_server_echoes_witness:
  "\<exists>s. ud_reach demo_verbs 10 demo_ctx s \<and> length (got s) = 1 \<and> list_all2 echoes (posted (ctx s)) (got s)"
proof -
  let ?s0 = "ud_ready demo_verbs demo_ctx" and ?pkt = "replicate PACKET_SIZE 7"
  let ?s1 = "demo_arrival ?pkt ?s0"
  have "PINGPONG_RECV_WRID + 5 \<in> set (rq (ctx ?s0))" by (subst demo_ready(1)) (simp add: QUEUE_SIZE_def)
  then have "ud_step demo_verbs 10 ?s0 ?s1"
    unfolding demo_arrival_def by (rule nic_recv [where b = True]) simp_all
  then have r1: "ud_reach demo_verbs 10 demo_ctx ?s1" by (rule ud_next [OF ud_start])
  have c1: "cq (ctx ?s1) = [\<lparr>wr_id = PINGPONG_RECV_WRID + 5, success = True\<rparr>]" "upc ?s1 = U_Run" "got ?s1 = []"
    using demo_ready(1) [THEN arg_cong, of cq] demo_ready(2,3) by (simp_all add: demo_arrival_def demo_ctx_def)
  let ?s2 = "ud_handle demo_verbs \<lparr>wr_id = PINGPONG_RECV_WRID + 5, success = True\<rparr> (?s1\<lparr>ctx := (ctx ?s1)\<lparr>cq := []\<rparr>\<rparr>)"
  have r2: "ud_reach demo_verbs 10 demo_ctx ?s2" by (rule ud_next [OF r1]) (rule poll [OF c1(2,1)])
  have ok: "ud_ok (ctx ?s1)" using ud_reach_inv [OF r1 demo_ctx_init] c1(2) by (simp add: ud_inv_def)
  have eq: "(ctx ?s1)\<lparr>cq := [\<lparr>wr_id = PINGPONG_RECV_WRID + 5, success = True\<rparr>]\<rparr> = ctx ?s1"
    using c1(1) by (metis ud_ctx.surjective ud_ctx.update_convs(6))
  have q5: "5 < QUEUE_SIZE" by (simp add: QUEUE_SIZE_def)
  have wf: "bitset_wf QUEUE_SIZE (pending_send (ctx ?s1))" using ok by (simp add: ud_ok_def)
  have "\<not> BITSET_TEST (pending_send (ctx ?s1)) 5"
    using recv_not_pending [where c = "ctx ?s1" and cs = "[]" and i = 5 and w = "\<lparr>wr_id = PINGPONG_RECV_WRID + 5, success = True\<rparr>"] ok eq q5 bs.test [OF wf q5] by simp
  then have "length (got ?s2) = 1"
    using c1(3) q5 by (simp add: ud_handle_def parse_single_wc_server_def get_time_ns_eq pp_post_send_def demo_verbs_def Let_def
        PINGPONG_RECV_WRID_def PINGPONG_SEND_WRID_def QUEUE_SIZE_def)
  with r2 ud_server_echoes [OF r2 demo_ctx_init] show ?thesis by blast
qed

text \<open>the goto-cleanup of \<^verbatim>\<open>pp_init_context\<close> is exact. Whatever allocation fails, the function returns no context and
  has released everything it acquired, in reverse order; if nothing fails it has released nothing, and a successful
  \<^verbatim>\<open>pp_close_context\<close> releases every resource it acquired once (and the address handle, when there is one).\<close>

theorem ud_init_cleanup_exact:
  assumes "pp_init_context ok modify_ok = (created, acquired, released)"
  shows "if created then released = [] \<and> distinct acquired
           \<and> mset (snd (pp_close_context (\<lambda>_. True) ah)) = mset acquired + (if ah then {#R_ah#} else {#})
           \<and> fst (pp_close_context (\<lambda>_. True) ah) = 0
         else released = rev acquired"
  using assms
  by (auto simp: pp_init_context_def pp_close_context_def clean_ctx_def clean_send_buf_def clean_recv_buf_def clean_context_def
      clean_pd_def clean_send_mr_def clean_recv_mr_def clean_cq_def clean_qp_def split: if_splits)

theorem ud_init_cleanup_exact_witness:
  "pp_init_context (\<lambda>r. r \<noteq> R_cq) True = (False, [R_ctx, R_send_buf, R_recv_bufs, R_context, R_pd, R_send_mr, R_recv_mr],
     rev [R_ctx, R_send_buf, R_recv_bufs, R_context, R_pd, R_send_mr, R_recv_mr])"
proof -
  obtain c a r where p: "pp_init_context (\<lambda>r. r \<noteq> R_cq) True = (c, a, r)" by (rule prod_cases3)
  then have "\<not> c" "a = [R_ctx, R_send_buf, R_recv_bufs, R_context, R_pd, R_send_mr, R_recv_mr]"
    by (auto simp: pp_init_context_def)
  with p ud_init_cleanup_exact [OF p, of False] show ?thesis by simp
qed

end
