(* ===== verification/Rdma_UD_Client.thy ===== *)
theory Rdma_UD_Client
  imports Rdma_UD
begin

text \<open>
  The client of the datagram program: the sender thread (\<^verbatim>\<open>pp_send_single_packet\<close>) and the main loop
  (\<^verbatim>\<open>parse_single_wc\<close>) run concurrently and share the pending bit and the send buffer, without a lock. A step is one
  packet sent by the thread, one action of the adapter, or one completion handled. The payload of a completed
  receive is read in the same step as the receive is posted again.
\<close>

section \<open>Definitions\<close>

record ud_client =
  cctx :: ud_ctx
  cagent :: persistence_agent
  cpc :: ud_pc
  cexit :: bool
  crecv_idx :: u64
  cgot :: "pingpong_payload list"
  cwrote :: "pingpong_payload list"

definition udc_handle :: "verbs \<Rightarrow> wc \<Rightarrow> ud_client \<Rightarrow> ud_client" where
  "udc_handle v c s =
     (case parse_single_wc_client v c (cagent s, cctx s) of
        None \<Rightarrow> s\<lparr>cpc := U_Spin\<rparr>
      | Some (rc, ag, c') \<Rightarrow>
          (let s' = (if success c \<and> PINGPONG_RECV_WRID \<le> wr_id c \<and> wr_id c < PINGPONG_RECV_WRID + QUEUE_SIZE
                     then s\<lparr>cgot := cgot s @ [load_payload (recv_bufs (cctx s)) (recv_payload (wr_id c - PINGPONG_RECV_WRID))],
                            cwrote := cwrote s @ [load_payload (recv_bufs c') (recv_payload (wr_id c - PINGPONG_RECV_WRID))]\<rparr>
                     else s) in
           if rc \<noteq> 0 then s'\<lparr>cctx := c', cagent := ag, cpc := U_Done\<rparr>
           else if wr_id c \<ge> PINGPONG_RECV_WRID then
             s'\<lparr>cctx := c', cagent := ag,
                crecv_idx := max (crecv_idx s) (pp_id (load_payload (recv_bufs c') (recv_payload (wr_id c - PINGPONG_RECV_WRID))))\<rparr>
           else s'\<lparr>cctx := c', cagent := ag\<rparr>))"

inductive udc_step :: "verbs \<Rightarrow> u64 \<Rightarrow> ud_client \<Rightarrow> ud_client \<Rightarrow> bool" for v iters where
  c_send: "pp_send_single_packet v packet_id (cctx s) = Some (r, c') \<Longrightarrow> udc_step v iters s (s\<lparr>cctx := c'\<rparr>)"
| c_nic_recv: "PINGPONG_RECV_WRID + i \<in> set (rq (cctx s)) \<Longrightarrow> length pkt = PACKET_SIZE \<Longrightarrow>
     c' = (cctx s)\<lparr>rq := remove1 (PINGPONG_RECV_WRID + i) (rq (cctx s)), recv_bufs := mwrite (recv_bufs (cctx s)) (recv_off i) pkt,
                   cq := cq (cctx s) @ [\<lparr>wr_id = PINGPONG_RECV_WRID + i, success = b\<rparr>]\<rparr> \<Longrightarrow>
     udc_step v iters s (s\<lparr>cctx := c'\<rparr>)"
| c_nic_send: "i \<in> set (sq (cctx s)) \<Longrightarrow>
     c' = (cctx s)\<lparr>sq := remove1 i (sq (cctx s)), cq := cq (cctx s) @ [\<lparr>wr_id = i, success = b\<rparr>]\<rparr> \<Longrightarrow>
     udc_step v iters s (s\<lparr>cctx := c'\<rparr>)"
| c_poll: "cpc s = U_Run \<Longrightarrow> cq (cctx s) = c # cs \<Longrightarrow> udc_step v iters s (udc_handle v c (s\<lparr>cctx := (cctx s)\<lparr>cq := cs\<rparr>\<rparr>))"
| c_poll_fails: "cpc s = U_Run \<Longrightarrow> crecv_idx s < iters \<Longrightarrow> udc_step v iters s (s\<lparr>cpc := U_Fail\<rparr>)"
| c_leave: "cpc s = U_Run \<Longrightarrow> iters \<le> crecv_idx s \<Longrightarrow> udc_step v iters s (s\<lparr>cpc := U_Done\<rparr>)"
| c_sigint: "udc_step v iters s (s\<lparr>cexit := True\<rparr>)"
| c_interrupted: "cpc s = U_Run \<Longrightarrow> cexit s \<Longrightarrow> n \<le> 2 \<Longrightarrow>
     udc_step v iters s (s\<lparr>cctx := (cctx s)\<lparr>cq := drop n (cq (cctx s))\<rparr>, cpc := U_Done\<rparr>)"

definition udc_ready :: "verbs \<Rightarrow> ud_ctx \<Rightarrow> persistence_agent \<Rightarrow> ud_client" where
  "udc_ready v c ag =
     (case post_all v [0..<QUEUE_SIZE] (c\<lparr>pending_send := BITSET_INIT (pending_send c) QUEUE_SIZE\<rparr>) of
        (b, c') \<Rightarrow> \<lparr>cctx = c', cagent = ag, cpc = (if b then U_Run else U_Done), cexit = False, crecv_idx = 0, cgot = [], cwrote = []\<rparr>)"

inductive udc_reach :: "verbs \<Rightarrow> u64 \<Rightarrow> ud_ctx \<Rightarrow> persistence_agent \<Rightarrow> ud_client \<Rightarrow> bool" for v iters c0 ag0 where
  udc_start: "udc_reach v iters c0 ag0 (udc_ready v c0 ag0)"
| udc_next: "udc_reach v iters c0 ag0 s \<Longrightarrow> udc_step v iters s s' \<Longrightarrow> udc_reach v iters c0 ag0 s'"

subsection \<open>The invariant\<close>

definition sends_out :: "ud_ctx \<Rightarrow> nat multiset" where
  "sends_out c = mset (sq c) + filter_mset (\<lambda>x. x < QUEUE_SIZE) (mset (map wr_id (cq c)))"

definition recvs_out :: "ud_ctx \<Rightarrow> nat multiset" where
  "recvs_out c = mset (rq c) + filter_mset (\<lambda>x. QUEUE_SIZE \<le> x) (mset (map wr_id (cq c)))"

definition send_side :: "ud_ctx \<Rightarrow> bool" where
  "send_side c \<longleftrightarrow> bitset_wf QUEUE_SIZE (pending_send c) \<and> length (send_buf c) = PACKET_SIZE
     \<and> size (sends_out c) \<le> 1 \<and> set_mset (sends_out c) \<subseteq> {0} \<and> set_mset (sends_out c) \<subseteq> bits (pending_send c)"

definition recv_side :: "ud_ctx \<Rightarrow> bool" where
  "recv_side c \<longleftrightarrow> length (recv_bufs c) = PACKET_SIZE * QUEUE_SIZE \<and> set_mset (recvs_out c) \<subseteq> {QUEUE_SIZE..<2 * QUEUE_SIZE}
     \<and> size (recvs_out c) \<le> QUEUE_SIZE"

definition recorded_pong :: "pingpong_payload \<Rightarrow> pingpong_payload \<Rightarrow> bool" where
  "recorded_pong w p \<longleftrightarrow> (\<exists>t. w = p\<lparr>ts3 := t\<rparr>)"

definition udc_inv :: "persistence_agent \<Rightarrow> ud_client \<Rightarrow> bool" where
  "udc_inv ag0 s \<longleftrightarrow> send_side (cctx s) \<and> recv_side (cctx s) \<and> cpc s \<noteq> U_Spin
     \<and> agent_writes ag0 (cwrote s) = Some (cagent s) \<and> list_all2 recorded_pong (cwrote s) (cgot s)"

section \<open>The invariant is inductive\<close>

lemma out_cong [simp]:
  "sends_out (c\<lparr>nread := n\<rparr>) = sends_out c" "recvs_out (c\<lparr>nread := n\<rparr>) = recvs_out c"
  "sends_out (c\<lparr>send_buf := b\<rparr>) = sends_out c" "recvs_out (c\<lparr>send_buf := b\<rparr>) = recvs_out c"
  "sends_out (c\<lparr>recv_bufs := b\<rparr>) = sends_out c" "recvs_out (c\<lparr>recv_bufs := b\<rparr>) = recvs_out c"
  "sends_out (c\<lparr>pending_send := b\<rparr>) = sends_out c" "recvs_out (c\<lparr>pending_send := b\<rparr>) = recvs_out c"
  "sends_out (c\<lparr>npost_send := n\<rparr>) = sends_out c" "recvs_out (c\<lparr>npost_send := n\<rparr>) = recvs_out c"
  "sends_out (c\<lparr>npost_recv := n\<rparr>) = sends_out c" "recvs_out (c\<lparr>npost_recv := n\<rparr>) = recvs_out c"
  "sends_out (c\<lparr>posted := l\<rparr>) = sends_out c" "recvs_out (c\<lparr>posted := l\<rparr>) = recvs_out c"
  "sends_out (c\<lparr>rq := q\<rparr>) = sends_out c" "recvs_out (c\<lparr>sq := q\<rparr>) = recvs_out c"
  "sends_out (c\<lparr>sq := sq c @ [x]\<rparr>) = add_mset x (sends_out c)" "recvs_out (c\<lparr>rq := rq c @ [x]\<rparr>) = add_mset x (recvs_out c)"
  by (simp_all add: sends_out_def recvs_out_def)

text \<open>The sender finds the bit clear only when nothing of an earlier send is outstanding.\<close>

lemma bit_clear_no_send:
  assumes "send_side c" and "\<not> BITSET_TEST (pending_send c) 0"
  shows "sends_out c = {#}"
proof -
  have wf: "bitset_wf QUEUE_SIZE (pending_send c)" using assms(1) by (simp add: send_side_def)
  have "0 \<notin> bits (pending_send c)" using assms(2) bs.test [OF wf queue_size_pos] by simp
  with assms(1) have "set_mset (sends_out c) = {}" by (auto simp: send_side_def)
  then show ?thesis by simp
qed

lemma send_step:
  assumes "send_side c" and "recv_side c" and "pp_send_single_packet v i c = Some (r, c')"
  shows "send_side c' \<and> recv_side c' \<and> sends_out c = {#} \<and> rq c' = rq c \<and> cq c' = cq c"
proof -
  have clear: "\<not> BITSET_TEST (pending_send c) 0" using assms(3) by (auto simp: pp_send_single_packet_def split: if_splits)
  note none = bit_clear_no_send [OF assms(1) clear]
  have wf: "bitset_wf QUEUE_SIZE (pending_send c)" and len: "length (send_buf c) = PACKET_SIZE"
    using assms(1) by (simp_all add: send_side_def)
  have fits: "GRH_SIZE + payload_size \<le> length (send_buf c)"
    using len by (simp add: GRH_SIZE_def payload_size_def PACKET_SIZE_def)
  let ?b = "store_ts (store_payload (send_buf c) GRH_SIZE (new_pingpong_payload i)) GRH_SIZE 0 (reading c (nread c))"
  let ?c1 = "c\<lparr>nread := nread c + 1, send_buf := ?b, pending_send := BITSET_SET (pending_send c) 0, npost_send := npost_send c + 1\<rparr>"
  have lb: "length ?b = PACKET_SIZE" using fits len by simp
  have "reading (c\<lparr>send_buf := b\<rparr>) k = reading c k" for b k by (simp add: reading_def)
  then have "c' = ?c1 \<or> (\<exists>l. c' = ?c1\<lparr>sq := sq ?c1 @ [0], posted := l\<rparr>)"
    using assms(3) clear
    by (auto simp: pp_send_single_packet_def pp_post_send_def get_time_ns_eq Let_def PINGPONG_SEND_WRID_def split: if_splits)
  moreover have "sends_out (?c1\<lparr>sq := sq ?c1 @ [0], posted := l\<rparr>) = {#0#}" for l
    using none by (simp add: sends_out_def)
  moreover have "recvs_out (?c1\<lparr>sq := sq ?c1 @ [0], posted := l\<rparr>) = recvs_out c" for l
    by (simp add: recvs_out_def)
  ultimately show ?thesis
    using bs.wf_set [OF wf queue_size_pos] bs.members_set [OF wf queue_size_pos] none lb assms(2)
    by (elim disjE exE) (simp_all add: send_side_def recv_side_def)
qed

lemma nic_recv_step:
  assumes "send_side c" and "recv_side c" and "PINGPONG_RECV_WRID + i \<in> set (rq c)" and "length pkt = PACKET_SIZE"
  shows "send_side (c\<lparr>rq := remove1 (PINGPONG_RECV_WRID + i) (rq c), recv_bufs := mwrite (recv_bufs c) (recv_off i) pkt,
      cq := cq c @ [\<lparr>wr_id = PINGPONG_RECV_WRID + i, success = b\<rparr>]\<rparr>)"
    and "recv_side (c\<lparr>rq := remove1 (PINGPONG_RECV_WRID + i) (rq c), recv_bufs := mwrite (recv_bufs c) (recv_off i) pkt,
      cq := cq c @ [\<lparr>wr_id = PINGPONG_RECV_WRID + i, success = b\<rparr>]\<rparr>)"
proof -
  let ?c = "c\<lparr>rq := remove1 (PINGPONG_RECV_WRID + i) (rq c), recv_bufs := mwrite (recv_bufs c) (recv_off i) pkt,
      cq := cq c @ [\<lparr>wr_id = PINGPONG_RECV_WRID + i, success = b\<rparr>]\<rparr>"
  have "PINGPONG_RECV_WRID + i \<in># recvs_out c" using assms(3) by (simp add: recvs_out_def)
  then have i: "i < QUEUE_SIZE" using assms(2) by (auto simp: recv_side_def PINGPONG_RECV_WRID_def)
  have "recvs_out ?c = recvs_out c"
    unfolding recvs_out_def mset_remove1_add [OF assms(3), symmetric] by (simp add: PINGPONG_RECV_WRID_def)
  moreover have "sends_out ?c = sends_out c" by (simp add: sends_out_def PINGPONG_RECV_WRID_def)
  ultimately show "send_side ?c" "recv_side ?c"
    using assms recv_slot_fits [OF i, of "recv_bufs c"] by (simp_all add: send_side_def recv_side_def)
qed

lemma nic_send_step:
  assumes "send_side c" and "recv_side c" and "i \<in> set (sq c)"
  shows "send_side (c\<lparr>sq := remove1 i (sq c), cq := cq c @ [\<lparr>wr_id = i, success = b\<rparr>]\<rparr>)"
    and "recv_side (c\<lparr>sq := remove1 i (sq c), cq := cq c @ [\<lparr>wr_id = i, success = b\<rparr>]\<rparr>)"
proof -
  let ?c = "c\<lparr>sq := remove1 i (sq c), cq := cq c @ [\<lparr>wr_id = i, success = b\<rparr>]\<rparr>"
  have "i \<in># sends_out c" using assms(3) by (simp add: sends_out_def)
  then have i: "i = 0" using assms(1) by (auto simp: send_side_def)
  have "sends_out ?c = sends_out c"
    unfolding sends_out_def mset_remove1_add [OF assms(3), symmetric] by (simp add: i)
  moreover have "recvs_out ?c = recvs_out c" by (simp add: recvs_out_def i)
  ultimately show "send_side ?c" "recv_side ?c" using assms by (simp_all add: send_side_def recv_side_def)
qed

subsection \<open>Completions\<close>

lemma poll_out:
  assumes "cq c = w # cs"
  shows "sends_out c = (if wr_id w < QUEUE_SIZE then add_mset (wr_id w) (sends_out (c\<lparr>cq := cs\<rparr>)) else sends_out (c\<lparr>cq := cs\<rparr>))"
    and "recvs_out c = (if wr_id w < QUEUE_SIZE then recvs_out (c\<lparr>cq := cs\<rparr>) else add_mset (wr_id w) (recvs_out (c\<lparr>cq := cs\<rparr>)))"
  using assms by (simp_all add: sends_out_def recvs_out_def)

text \<open>Both sides only get easier when something stops being outstanding.\<close>

lemma send_side_mono:
  assumes "send_side c" and "sends_out c' \<subseteq># sends_out c" and "pending_send c' = pending_send c" and "send_buf c' = send_buf c"
  shows "send_side c'"
proof -
  have "set_mset (sends_out c') \<subseteq> set_mset (sends_out c)" "size (sends_out c') \<le> size (sends_out c)"
    using assms(2) by (rule set_mset_mono, rule size_mset_mono)
  with assms(1,3,4) show ?thesis by (auto simp: send_side_def)
qed

lemma recv_side_mono:
  assumes "recv_side c" and "recvs_out c' \<subseteq># recvs_out c" and "length (recv_bufs c') = length (recv_bufs c)"
  shows "recv_side c'"
proof -
  have "set_mset (recvs_out c') \<subseteq> set_mset (recvs_out c)" "size (recvs_out c') \<le> size (recvs_out c)"
    using assms(2) by (rule set_mset_mono, rule size_mset_mono)
  with assms(1,3) show ?thesis by (auto simp: recv_side_def)
qed

lemma poll_send_step:
  assumes "send_side c" and "recv_side c" and "cq c = w # cs" and "wr_id w < QUEUE_SIZE"
  shows "send_side (c\<lparr>cq := cs, nread := n, pending_send := BITSET_CLEAR (pending_send c) (wr_id w)\<rparr>)"
    and "recv_side (c\<lparr>cq := cs, nread := n, pending_send := BITSET_CLEAR (pending_send c) (wr_id w)\<rparr>)"
proof -
  have out: "sends_out c = add_mset (wr_id w) (sends_out (c\<lparr>cq := cs\<rparr>))" "recvs_out c = recvs_out (c\<lparr>cq := cs\<rparr>)"
    using poll_out [OF assms(3)] assms(4) by simp_all
  then have "sends_out (c\<lparr>cq := cs\<rparr>) = {#}" using assms(1) by (auto simp: send_side_def)
  then have "sends_out (c\<lparr>cq := cs, nread := n, pending_send := x\<rparr>) = {#}" for x by (simp add: sends_out_def)
  moreover have "recvs_out (c\<lparr>cq := cs, nread := n, pending_send := x\<rparr>) = recvs_out c" for x
    using out(2) by (simp add: recvs_out_def)
  moreover have "bitset_wf QUEUE_SIZE (pending_send c)" using assms(1) by (simp add: send_side_def)
  ultimately show "send_side (c\<lparr>cq := cs, nread := n, pending_send := BITSET_CLEAR (pending_send c) (wr_id w)\<rparr>)"
    "recv_side (c\<lparr>cq := cs, nread := n, pending_send := BITSET_CLEAR (pending_send c) (wr_id w)\<rparr>)"
    using assms(1,2) bs.wf_clear [OF _ assms(4)] by (simp_all add: send_side_def recv_side_def)
qed

lemma poll_recv_step:
  assumes "send_side c" and "recv_side c" and "cq c = w # cs" and "wr_id w = PINGPONG_RECV_WRID + i"
    and "length b = PACKET_SIZE * QUEUE_SIZE" and "q = rq c \<or> q = rq c @ [wr_id w]"
  shows "send_side (c\<lparr>cq := cs, nread := n, recv_bufs := b, npost_recv := k, rq := q\<rparr>)"
    and "recv_side (c\<lparr>cq := cs, nread := n, recv_bufs := b, npost_recv := k, rq := q\<rparr>)"
proof -
  have nw: "\<not> wr_id w < QUEUE_SIZE" using assms(4) by (simp add: PINGPONG_RECV_WRID_def)
  have out: "sends_out c = sends_out (c\<lparr>cq := cs\<rparr>)" "recvs_out c = add_mset (wr_id w) (recvs_out (c\<lparr>cq := cs\<rparr>))"
    using poll_out [OF assms(3)] nw by simp_all
  have "sends_out (c\<lparr>cq := cs, nread := n, recv_bufs := b, npost_recv := k, rq := q\<rparr>) = sends_out c"
    using out(1) by (simp add: sends_out_def)
  then show "send_side (c\<lparr>cq := cs, nread := n, recv_bufs := b, npost_recv := k, rq := q\<rparr>)"
    by (intro send_side_mono [OF assms(1)]) simp_all
  have r: "recvs_out (c\<lparr>cq := cs, nread := n, recv_bufs := b, npost_recv := k, rq := q\<rparr>) \<subseteq># recvs_out c"
    using assms(6) out(2) by (auto simp: recvs_out_def)
  show "recv_side (c\<lparr>cq := cs, nread := n, recv_bufs := b, npost_recv := k, rq := q\<rparr>)"
    by (rule recv_side_mono [OF assms(2) r]) (use assms(2,5) in \<open>simp add: recv_side_def\<close>)
qed

lemma poll_fail_step:
  assumes "send_side c" and "recv_side c" and "cq c = w # cs"
  shows "send_side (c\<lparr>cq := cs, nread := n\<rparr>)" and "recv_side (c\<lparr>cq := cs, nread := n\<rparr>)"
proof -
  have out: "sends_out (c\<lparr>cq := cs, nread := n\<rparr>) \<subseteq># sends_out c" "recvs_out (c\<lparr>cq := cs, nread := n\<rparr>) \<subseteq># recvs_out c"
    using assms(3) by (auto simp: sends_out_def recvs_out_def)
  show "send_side (c\<lparr>cq := cs, nread := n\<rparr>)" by (rule send_side_mono [OF assms(1) out(1)]) simp_all
  show "recv_side (c\<lparr>cq := cs, nread := n\<rparr>)" by (rule recv_side_mono [OF assms(2) out(2)]) simp
qed

lemma recorded_pong_snoc:
  "list_all2 recorded_pong ws ps \<Longrightarrow> list_all2 recorded_pong (ws @ [p\<lparr>ts3 := t\<rparr>]) (ps @ [p])"
  by (rule list_all2_appendI) (auto simp: recorded_pong_def)

lemma udc_handle_recv:
  assumes inv: "udc_inv ag0 s" and tot: "agent_total ag0" and run: "cpc s = U_Run" and cq: "cq (cctx s) = w # cs"
    and w: "success w" "wr_id w = PINGPONG_RECV_WRID + i" "i < QUEUE_SIZE"
  shows "udc_inv ag0 (udc_handle v w (s\<lparr>cctx := (cctx s)\<lparr>cq := cs\<rparr>\<rparr>))"
proof -
  let ?c = "cctx s"
  let ?b = "store_ts (recv_bufs ?c) (recv_payload i) 3 (reading ?c (nread ?c + 1))"
  have side: "send_side ?c" "recv_side ?c" using inv by (simp_all add: udc_inv_def)
  have len: "length (recv_bufs ?c) = PACKET_SIZE * QUEUE_SIZE" using side(2) by (simp add: recv_side_def)
  have fits: "recv_payload i + payload_size \<le> length (recv_bufs ?c)" using recv_slot_fits [OF w(3) len] by simp
  have lb: "length ?b = PACKET_SIZE * QUEUE_SIZE" using fits len by simp
  have load: "load_payload ?b (recv_payload i) = (load_payload (recv_bufs ?c) (recv_payload i))\<lparr>ts3 := reading ?c (nread ?c + 1)\<rparr>"
    using fits by (simp add: load_store_ts)
  obtain rc ag' where wr: "agent_write (cagent s) (load_payload ?b (recv_payload i)) = Some (rc, ag')"
    "agent_writes ag0 (cwrote s @ [load_payload ?b (recv_payload i)]) = Some ag'"
    using agent_total_next [OF tot, of "cwrote s" "cagent s" "load_payload ?b (recv_payload i)"] inv unfolding udc_inv_def by blast
  have rec: "list_all2 recorded_pong (cwrote s @ [load_payload ?b (recv_payload i)]) (cgot s @ [load_payload (recv_bufs ?c) (recv_payload i)])"
    unfolding load using inv by (intro recorded_pong_snoc) (simp add: udc_inv_def)
  have id: "\<not> PINGPONG_RECV_WRID + QUEUE_SIZE \<le> wr_id w" "\<not> wr_id w < PINGPONG_SEND_WRID + QUEUE_SIZE" "wr_id w - PINGPONG_RECV_WRID = i"
    "PINGPONG_RECV_WRID \<le> wr_id w" "wr_id w < PINGPONG_RECV_WRID + QUEUE_SIZE"
    using w by (simp_all add: PINGPONG_RECV_WRID_def PINGPONG_SEND_WRID_def)
  note sides = poll_recv_step [OF side cq w(2) lb]
  let ?k = "npost_recv ?c + 1" and ?n = "nread ?c + 2"
  have parse: "parse_single_wc_client v w (cagent s, ?c\<lparr>cq := cs\<rparr>) = Some
      (if v_post_recv v (npost_recv ?c) \<noteq> 0 then 1 else 0, ag',
       ?c\<lparr>cq := cs, nread := ?n, recv_bufs := ?b, npost_recv := ?k, rq := (if v_post_recv v (npost_recv ?c) \<noteq> 0 then rq ?c else rq ?c @ [wr_id w])\<rparr>)"
    using w(1) id wr(1) by (simp add: parse_single_wc_client_def get_time_ns_eq pp_post_recv_def Let_def reading_def w(2) [symmetric])
  have "send_side (?c\<lparr>cq := cs, nread := ?n, recv_bufs := ?b, npost_recv := ?k, rq := (if v_post_recv v (npost_recv ?c) \<noteq> 0 then rq ?c else rq ?c @ [wr_id w])\<rparr>)"
    "recv_side (?c\<lparr>cq := cs, nread := ?n, recv_bufs := ?b, npost_recv := ?k, rq := (if v_post_recv v (npost_recv ?c) \<noteq> 0 then rq ?c else rq ?c @ [wr_id w])\<rparr>)"
    using sides by auto
  with parse wr(2) rec id w(1) run show ?thesis
    by (simp add: udc_handle_def udc_inv_def Let_def)
qed

lemma udc_handle_inv:
  assumes inv: "udc_inv ag0 s" and tot: "agent_total ag0" and run: "cpc s = U_Run" and cq: "cq (cctx s) = w # cs"
  shows "udc_inv ag0 (udc_handle v w (s\<lparr>cctx := (cctx s)\<lparr>cq := cs\<rparr>\<rparr>))"
proof -
  have side: "send_side (cctx s)" "recv_side (cctx s)" using inv by (simp_all add: udc_inv_def)
  have "wr_id w < 2 * QUEUE_SIZE"
    using side(2) poll_out(2) [OF cq] by (auto simp: recv_side_def split: if_splits)
  then consider (failed) "\<not> success w" | (send) "success w" "wr_id w < QUEUE_SIZE"
    | (recv) i where "success w" "wr_id w = PINGPONG_RECV_WRID + i" "i < QUEUE_SIZE"
    unfolding PINGPONG_RECV_WRID_def by (metis add_less_cancel_left le_add_diff_inverse mult_2 not_le)
  then show ?thesis
  proof cases
    case failed
    with inv poll_fail_step [OF side cq] show ?thesis
      by (simp add: udc_handle_def udc_inv_def parse_single_wc_client_def get_time_ns_eq Let_def)
  next
    case send
    with inv run poll_send_step [OF side cq send(2)] show ?thesis
      by (simp add: udc_handle_def udc_inv_def parse_single_wc_client_def get_time_ns_eq Let_def PINGPONG_RECV_WRID_def PINGPONG_SEND_WRID_def)
  next
    case recv
    with udc_handle_recv [OF inv tot run cq] show ?thesis by blast
  qed
qed

text \<open>Completions polled and then discarded.\<close>

lemma drop_out:
  "sends_out (c\<lparr>cq := drop n (cq c)\<rparr>) \<subseteq># sends_out c" "recvs_out (c\<lparr>cq := drop n (cq c)\<rparr>) \<subseteq># recvs_out c"
proof -
  have "mset (map wr_id (drop n (cq c))) \<subseteq># mset (map wr_id (cq c))"
    by (metis append_take_drop_id map_append mset_append mset_subset_eq_add_right)
  then have "filter_mset P (mset (map wr_id (drop n (cq c)))) \<subseteq># filter_mset P (mset (map wr_id (cq c)))" for P
    by (rule multiset_filter_mono)
  then show "sends_out (c\<lparr>cq := drop n (cq c)\<rparr>) \<subseteq># sends_out c" "recvs_out (c\<lparr>cq := drop n (cq c)\<rparr>) \<subseteq># recvs_out c"
    unfolding sends_out_def recvs_out_def ud_ctx.select_convs ud_ctx.update_convs by (auto simp del: mset_map)
qed

lemma poll_discard:
  assumes "send_side c" and "recv_side c"
  shows "send_side (c\<lparr>cq := drop n (cq c)\<rparr>)" "recv_side (c\<lparr>cq := drop n (cq c)\<rparr>)"
  by (rule send_side_mono [OF assms(1) drop_out(1)], simp, simp) (rule recv_side_mono [OF assms(2) drop_out(2)], simp)

lemma post_all_sides:
  "recv_side c \<Longrightarrow> send_side c \<Longrightarrow> size (recvs_out c) + length is \<le> QUEUE_SIZE \<Longrightarrow> \<forall>i\<in>set is. i < QUEUE_SIZE \<Longrightarrow>
   recv_side (snd (post_all v is c)) \<and> send_side (snd (post_all v is c))"
proof (induction "is" arbitrary: c)
  case Nil
  then show ?case by simp
next
  case (Cons i "is")
  let ?c = "c\<lparr>npost_recv := npost_recv c + 1, rq := rq c @ [PINGPONG_RECV_WRID + i]\<rparr>"
  have out: "recvs_out ?c = add_mset (PINGPONG_RECV_WRID + i) (recvs_out c)" "sends_out ?c = sends_out c"
    by (simp_all add: recvs_out_def sends_out_def)
  have "recv_side ?c" "send_side ?c"
    using Cons.prems out by (simp_all add: recv_side_def send_side_def PINGPONG_RECV_WRID_def)
  then have "recv_side (snd (post_all v is ?c)) \<and> send_side (snd (post_all v is ?c))"
    using Cons.IH [of ?c] Cons.prems out by simp
  with Cons.prems show ?case
    by (simp add: pp_post_recv_def Let_def recv_side_def send_side_def)
qed

lemma udc_inv_ready:
  assumes "ud_init c" and "length (send_buf c) = PACKET_SIZE"
  shows "udc_inv ag0 (udc_ready v c ag0)"
proof -
  let ?c = "c\<lparr>pending_send := BITSET_INIT (pending_send c) QUEUE_SIZE\<rparr>"
  have wf: "bitset_wf QUEUE_SIZE (pending_send c)" using assms(1) by (simp add: ud_init_def bitset_wf_def)
  have out: "recvs_out ?c = {#}" "sends_out ?c = {#}" using assms(1) by (simp_all add: ud_init_def recvs_out_def sends_out_def)
  have "recv_side ?c" "send_side ?c"
    using assms out bitset_wf_INIT [OF wf] by (simp_all add: recv_side_def send_side_def ud_init_def)
  from post_all_sides [OF this, of "[0..<QUEUE_SIZE]" v] out show ?thesis
    by (simp add: udc_ready_def udc_inv_def case_prod_beta)
qed

lemma udc_reach_inv:
  assumes "udc_reach v iters c0 ag0 s" and "ud_init c0" and "length (send_buf c0) = PACKET_SIZE" and "agent_total ag0"
  shows "udc_inv ag0 s"
  using assms(1)
proof induction
  case udc_start
  show ?case by (rule udc_inv_ready [OF assms(2,3)])
next
  case (udc_next s s')
  then have inv: "udc_inv ag0 s" and side: "send_side (cctx s)" "recv_side (cctx s)" by (simp_all add: udc_inv_def)
  from udc_next.hyps(2) show ?case
  proof cases
    case (c_send packet_id r c')
    with inv send_step [OF side c_send(2)] show ?thesis by (simp add: udc_inv_def)
  next
    case (c_nic_recv i pkt c' b)
    with inv nic_recv_step [OF side c_nic_recv(2,3)] show ?thesis by (simp add: udc_inv_def)
  next
    case (c_nic_send i c' b)
    with inv nic_send_step [OF side c_nic_send(2)] show ?thesis by (simp add: udc_inv_def)
  next
    case (c_poll c cs)
    with udc_handle_inv [OF inv assms(4)] show ?thesis by simp
  next
    case (c_interrupted n)
    with inv poll_discard [OF side] show ?thesis by (simp add: udc_inv_def)
  qed (use inv in \<open>auto simp: udc_inv_def\<close>)
qed

section \<open>After a failed post\<close>

definition send_blocked :: "ud_ctx \<Rightarrow> bool" where
  "send_blocked c \<longleftrightarrow> bitset_wf QUEUE_SIZE (pending_send c) \<and> 0 \<in> bits (pending_send c) \<and> sends_out c = {#}"

lemma send_blocked_None: "send_blocked c \<Longrightarrow> pp_send_single_packet v i c = None"
  using bs.test [OF _ queue_size_pos] by (simp add: send_blocked_def pp_send_single_packet_def)

lemma send_blocked_handle:
  assumes "send_blocked c" and "cq c = w # cs"
  shows "send_blocked (cctx (udc_handle v w (s\<lparr>cctx := c\<lparr>cq := cs\<rparr>\<rparr>)))"
proof -
  have w: "\<not> wr_id w < QUEUE_SIZE" and out: "sends_out (c\<lparr>cq := cs\<rparr>) = {#}"
    using assms poll_out(1) [OF assms(2)] by (auto simp: send_blocked_def split: if_splits)
  have keep: "send_blocked c'" if "pending_send c' = pending_send c" "sq c' = sq c" "cq c' = cs" for c'
    using assms(1) out that by (simp add: send_blocked_def sends_out_def)
  show ?thesis
    using w keep
    by (auto simp: udc_handle_def parse_single_wc_client_def get_time_ns_eq pp_post_recv_def Let_def PINGPONG_SEND_WRID_def
        split: option.splits)
qed

lemma send_blocked_step:
  assumes "udc_step v iters s s'" and "send_blocked (cctx s)"
  shows "send_blocked (cctx s')"
  using assms(1)
proof cases
  case (c_send packet_id r c')
  with send_blocked_None [OF assms(2)] show ?thesis by simp
next
  case (c_nic_recv i pkt c' b)
  with assms(2) show ?thesis by (simp add: send_blocked_def sends_out_def PINGPONG_RECV_WRID_def)
next
  case (c_nic_send i c' b)
  with assms(2) show ?thesis by (auto simp: send_blocked_def sends_out_def)
next
  case (c_poll c cs)
  with send_blocked_handle [OF assms(2)] show ?thesis by simp
next
  case (c_interrupted n)
  have "sends_out ((cctx s)\<lparr>cq := drop n (cq (cctx s))\<rparr>) = {#}"
    using drop_out(1) [where c = "cctx s" and n = n] assms(2) by (simp add: send_blocked_def)
  with c_interrupted assms(2) show ?thesis by (simp add: send_blocked_def)
qed (use assms(2) in auto)

section \<open>Properties\<close>

text \<open>C11: the two threads of the client never race on the send buffer. In every reachable interleaving at most one
  send is outstanding (posted, or completed but unread), and whenever \<^verbatim>\<open>pp_send_single_packet\<close> gets past its
  busy-wait, none is: the buffer is rewritten only when the adapter is done with it.\<close>

theorem ud_client_send_buffer_safe:
  assumes "udc_reach v iters c0 ag0 s" and "ud_init c0" and "length (send_buf c0) = PACKET_SIZE" and "agent_total ag0"
    and "pp_send_single_packet v packet_id (cctx s) = Some (r, c')"
  shows "sq (cctx s) = [] \<and> (\<forall>c\<in>set (cq (cctx s)). PINGPONG_RECV_WRID \<le> wr_id c)
    \<and> length (sq c') \<le> 1"
proof -
  have side: "send_side (cctx s)" "recv_side (cctx s)" using udc_reach_inv [OF assms(1-4)] by (simp_all add: udc_inv_def)
  note st = send_step [OF side assms(5)]
  have "size (sends_out c') \<le> 1" using st by (simp add: send_side_def)
  then have "length (sq c') \<le> 1" by (simp add: sends_out_def)
  moreover have "set_mset (sends_out (cctx s)) = {}" using st by simp
  then have "sq (cctx s) = []" "\<forall>c\<in>set (cq (cctx s)). PINGPONG_RECV_WRID \<le> wr_id c"
    by (auto simp: sends_out_def PINGPONG_RECV_WRID_def simp flip: not_less)
  ultimately show ?thesis by simp
qed

lemma demo_udc:
  "ud_init demo_ctx" "length (send_buf demo_ctx) = PACKET_SIZE" "agent_total (demo_agent 4 0)"
  by (simp_all add: demo_ctx_init demo_agent_total) (simp add: demo_ctx_def)

lemma demo_udc_ready:
  "cctx (udc_ready demo_verbs demo_ctx ag) = ctx (ud_ready demo_verbs demo_ctx)" "cpc (udc_ready demo_verbs demo_ctx ag) = U_Run"
  using demo_ready(2) by (simp_all add: udc_ready_def ud_ready_def case_prod_beta split: if_splits)

lemma demo_first_send:
  "\<exists>c'. pp_send_single_packet demo_verbs 1 (cctx (udc_ready demo_verbs demo_ctx ag)) = Some (0, c') \<and> sq c' = [0]
     \<and> rq c' = map (\<lambda>i. PINGPONG_RECV_WRID + i) [0..<QUEUE_SIZE] \<and> cq c' = []"
proof -
  let ?c = "ctx (ud_ready demo_verbs demo_ctx)"
  have sel: "pending_send ?c = BITSET_INIT (pending_send demo_ctx) QUEUE_SIZE" "sq ?c = []" "cq ?c = []"
    "rq ?c = map (\<lambda>i. PINGPONG_RECV_WRID + i) [0..<QUEUE_SIZE]"
    by (subst demo_ready(1), simp add: demo_ctx_def)+
  have wf: "bitset_wf QUEUE_SIZE (pending_send demo_ctx)" using demo_ctx_init by (simp add: ud_init_def bitset_wf_def)
  have "\<not> BITSET_TEST (pending_send ?c) 0"
    unfolding sel using bs.test [OF bitset_wf_INIT [OF wf] queue_size_pos] bits_INIT [OF wf] by simp
  with sel show ?thesis
    unfolding demo_udc_ready(1)
    by (simp add: pp_send_single_packet_def pp_post_send_def get_time_ns_eq Let_def demo_verbs_def PINGPONG_SEND_WRID_def)
qed

theorem ud_client_send_buffer_safe_witness:
  "\<exists>s c'. udc_reach demo_verbs 10 demo_ctx (demo_agent 4 0) s \<and> pp_send_single_packet demo_verbs 1 (cctx s) = Some (0, c')
     \<and> sq (cctx s) = [] \<and> length (sq c') \<le> 1"
proof -
  obtain c' where c': "pp_send_single_packet demo_verbs 1 (cctx (udc_ready demo_verbs demo_ctx (demo_agent 4 0))) = Some (0, c')"
    using demo_first_send by blast
  from ud_client_send_buffer_safe [OF udc_start demo_udc c'] c' udc_start show ?thesis by blast
qed

text \<open>the client records what it receives. In every reachable state the agent holds the result of writing, in order
  and once each, the payloads of the completed receives with only the fourth timestamp replaced.\<close>

theorem ud_client_records:
  assumes "udc_reach v iters c0 ag0 s" and "ud_init c0" and "length (send_buf c0) = PACKET_SIZE" and "agent_total ag0"
  shows "agent_writes ag0 (cwrote s) = Some (cagent s) \<and> list_all2 recorded_pong (cwrote s) (cgot s)"
  using udc_reach_inv [OF assms] by (simp add: udc_inv_def)

theorem ud_client_records_witness:
  "let s = udc_ready demo_verbs demo_ctx (demo_agent 4 0) in agent_writes (demo_agent 4 0) (cwrote s) = Some (cagent s)"
  using ud_client_records [OF udc_start demo_udc, of demo_verbs] by (simp add: Let_def)

text \<open>C39: one failed post silences the client. \<^verbatim>\<open>ibv_post_send\<close> reports failure by a positive number, which the sender
  thread (it stops only for a negative result) takes for success; the pending bit was already set and no completion
  will clear it. From that moment on, in every continuation, the busy-wait of \<^verbatim>\<open>pp_send_single_packet\<close> never ends.\<close>

theorem ud_client_failed_post_blocks:
  assumes "udc_reach v iters c0 ag0 s" and "ud_init c0" and "length (send_buf c0) = PACKET_SIZE" and "agent_total ag0"
    and "pp_send_single_packet v packet_id (cctx s) = Some (r, c')" and "r \<noteq> 0"
    and "(udc_step v iters)\<^sup>*\<^sup>* (s\<lparr>cctx := c'\<rparr>) s'"
  shows "pp_send_single_packet v next_id (cctx s') = None"
proof -
  have side: "send_side (cctx s)" "recv_side (cctx s)" using udc_reach_inv [OF assms(1-4)] by (simp_all add: udc_inv_def)
  have none: "sends_out (cctx s) = {#}" using send_step [OF side assms(5)] by simp
  have wf: "bitset_wf QUEUE_SIZE (pending_send (cctx s))" using side(1) by (simp add: send_side_def)
  have "pending_send c' = BITSET_SET (pending_send (cctx s)) 0 \<and> sq c' = sq (cctx s) \<and> cq c' = cq (cctx s)"
    using assms(5,6) by (auto simp: pp_send_single_packet_def pp_post_send_def get_time_ns_eq Let_def split: if_splits)
  then have start: "send_blocked c'"
    using none bs.members_set [OF wf queue_size_pos] bs.wf_set [OF wf queue_size_pos] by (simp add: send_blocked_def sends_out_def)
  from assms(7) have "send_blocked (cctx s')"
    by (induction rule: rtranclp_induct) (use start send_blocked_step in auto)
  then show ?thesis by (rule send_blocked_None)
qed

theorem ud_client_failed_post_blocks_witness:
  "\<exists>c'. pp_send_single_packet (demo_verbs\<lparr>v_post_send := \<lambda>_. 12\<rparr>) 1 (cctx (udc_ready (demo_verbs\<lparr>v_post_send := \<lambda>_. 12\<rparr>) demo_ctx (demo_agent 4 0))) = Some (12, c')
     \<and> pp_send_single_packet (demo_verbs\<lparr>v_post_send := \<lambda>_. 12\<rparr>) 2 c' = None"
proof -
  let ?v = "demo_verbs\<lparr>v_post_send := \<lambda>_. 12\<rparr>"
  let ?s = "udc_ready ?v demo_ctx (demo_agent 4 0)"
  have same: "post_all ?v is c = post_all demo_verbs is c" for "is" c
    by (induction "is" arbitrary: c) (simp_all add: pp_post_recv_def Let_def)
  have "udc_ready ?v demo_ctx (demo_agent 4 0) = udc_ready demo_verbs demo_ctx (demo_agent 4 0)" by (simp add: udc_ready_def same)
  then have "\<not> BITSET_TEST (pending_send (cctx ?s)) 0"
    using demo_first_send [of "demo_agent 4 0"] by (auto simp: pp_send_single_packet_def split: if_splits)
  then obtain c' where c': "pp_send_single_packet ?v 1 (cctx ?s) = Some (12, c')"
    by (simp add: pp_send_single_packet_def pp_post_send_def Let_def)
  have "pp_send_single_packet ?v 2 (cctx (?s\<lparr>cctx := c'\<rparr>)) = None"
    by (rule ud_client_failed_post_blocks [OF udc_start demo_udc c']) simp_all
  with c' show ?thesis by simp
qed

text \<open>the client's completion queue is one entry short. It is created for 128 completions, but all 128 receives and
  one send can complete before the main loop reads any of them: a reachable state has 129 unread completions.\<close>

theorem ud_client_cq_overcommitted:
  "\<exists>s. udc_reach demo_verbs 10 demo_ctx (demo_agent 4 0) s \<and> length (cq (cctx s)) = QUEUE_SIZE + 1"
proof -
  let ?s0 = "udc_ready demo_verbs demo_ctx (demo_agent 4 0)"
  obtain c1 where c1: "pp_send_single_packet demo_verbs 1 (cctx ?s0) = Some (0, c1)" "sq c1 = [0]"
    "rq c1 = map (\<lambda>i. PINGPONG_RECV_WRID + i) [0..<QUEUE_SIZE]" "cq c1 = []" using demo_first_send by blast
  let ?s1 = "?s0\<lparr>cctx := c1\<rparr>"
  let ?c2 = "(cctx ?s1)\<lparr>sq := remove1 0 (sq (cctx ?s1)), cq := cq (cctx ?s1) @ [\<lparr>wr_id = 0, success = True\<rparr>]\<rparr>"
  have r1: "udc_reach demo_verbs 10 demo_ctx (demo_agent 4 0) ?s1" by (rule udc_next [OF udc_start c_send [OF c1(1)]])
  have r2: "udc_reach demo_verbs 10 demo_ctx (demo_agent 4 0) (?s1\<lparr>cctx := ?c2\<rparr>)"
    by (rule udc_next [OF r1 c_nic_send [where b = True, OF _ refl]]) (simp add: c1(2))
  have "\<exists>s. udc_reach demo_verbs 10 demo_ctx (demo_agent 4 0) s \<and> length (cq (cctx s)) = n + 1
      \<and> rq (cctx s) = map (\<lambda>i. PINGPONG_RECV_WRID + i) [n..<QUEUE_SIZE]" if "n \<le> QUEUE_SIZE" for n
    using that
  proof (induction n)
    case 0
    show ?case by (intro exI conjI, rule r2) (simp_all add: c1)
  next
    case (Suc n)
    then obtain s where s: "udc_reach demo_verbs 10 demo_ctx (demo_agent 4 0) s" "length (cq (cctx s)) = n + 1"
      "rq (cctx s) = map (\<lambda>i. PINGPONG_RECV_WRID + i) [n..<QUEUE_SIZE]" by auto
    have upt: "[n..<QUEUE_SIZE] = n # [Suc n..<QUEUE_SIZE]" using Suc.prems by (simp add: upt_conv_Cons)
    have len: "length (replicate PACKET_SIZE (0 :: u8)) = PACKET_SIZE" by simp
    have mem: "PINGPONG_RECV_WRID + n \<in> set (rq (cctx s))" by (simp add: s(3) upt)
    let ?c = "(cctx s)\<lparr>rq := remove1 (PINGPONG_RECV_WRID + n) (rq (cctx s)),
        recv_bufs := mwrite (recv_bufs (cctx s)) (recv_off n) (replicate PACKET_SIZE 0),
        cq := cq (cctx s) @ [\<lparr>wr_id = PINGPONG_RECV_WRID + n, success = True\<rparr>]\<rparr>"
    from udc_next [OF s(1) c_nic_recv [where b = True, OF mem len refl]] s(2) show ?case
      by (intro exI [of _ "s\<lparr>cctx := ?c\<rparr>"]) (simp add: s(3) upt)
  qed
  then show ?thesis by blast
qed

end
