(* ===== verification/Rdma_RC.thy ===== *)
theory Rdma_RC
  imports Net Persistence
begin

text \<open>
  The reliable-connection program (\<^verbatim>\<open>rdma/rc_pingpong.c\<close>): its resources, its posting functions, the handling of a completion
  in the server and in the client build, and the main loop as a step relation.

  The adapter appears in two ways. What its calls return is the record \<open>rc_verbs\<close>: the result of the \<open>n\<close>-th \<^verbatim>\<open>ibv_post_recv\<close> and of the
  \<open>n\<close>-th \<^verbatim>\<open>ibv_wr_complete\<close>. What it does on its own are steps: a posted receive completes (its data is written to the receive
  buffer and a completion is queued), or a posted send completes. All receives use the one buffer \<^verbatim>\<open>recv_buf\<close>. The fields
  \<open>rq_len\<close>, \<open>sq_len\<close>, \<open>rc_cq\<close> and \<open>rc_posted\<close> are the adapter's queues and the packets handed to it; \<open>rc_got\<close> and \<open>rc_wrote\<close> are a
  record of the payloads handled and written.
\<close>

section \<open>Definitions\<close>

definition RECEIVE_DEPTH :: int where "RECEIVE_DEPTH = 500"
definition RC_RECV_WRID :: u64 where "RC_RECV_WRID = 1"
definition RC_SEND_WRID :: u64 where "RC_SEND_WRID = 2"

subsection \<open>Resources\<close>

datatype rc_res = C_ctx | C_recv_buf | C_send_buf | C_device | C_pd | C_recv_mr | C_send_mr | C_cq | C_qp

definition rc_clean_ctx :: "rc_res list" where "rc_clean_ctx = [C_ctx]"
definition rc_clean_buf :: "rc_res list" where "rc_clean_buf = [C_send_buf, C_recv_buf] @ rc_clean_ctx"
definition rc_clean_device :: "rc_res list" where "rc_clean_device = C_device # rc_clean_buf"
definition rc_clean_pd :: "rc_res list" where "rc_clean_pd = C_pd # rc_clean_device"
definition rc_clean_mr :: "rc_res list" where "rc_clean_mr = [C_send_mr, C_recv_mr] @ rc_clean_pd"
definition rc_clean_cq :: "rc_res list" where "rc_clean_cq = C_cq # rc_clean_mr"
definition rc_clean_qp :: "rc_res list" where "rc_clean_qp = C_qp # rc_clean_cq"

text \<open>Whether a context is returned, what was acquired, and the releases in order. \<open>query\<close> is the outcome of the device query: \<open>None\<close> for
  a failure, otherwise the completion timestamp mask. A release of a buffer that was never allocated frees a null pointer.\<close>

definition rc_init_context :: "(rc_res \<Rightarrow> bool) \<Rightarrow> u64 option \<Rightarrow> bool \<Rightarrow> bool \<times> rc_res list \<times> rc_res list" where
  "rc_init_context ok query modify_ok =
     (if \<not> ok C_ctx then (False, [], [])
      else if \<not> ok C_recv_buf then (False, [C_ctx], rc_clean_ctx)
      else if \<not> ok C_send_buf then (False, [C_ctx, C_recv_buf], rc_clean_buf)
      else if \<not> ok C_device then (False, [C_ctx, C_recv_buf, C_send_buf], rc_clean_buf)
      else if \<not> ok C_pd then (False, [C_ctx, C_recv_buf, C_send_buf, C_device], rc_clean_device)
      else if query = None then (False, [C_ctx, C_recv_buf, C_send_buf, C_device, C_pd], rc_clean_pd)
      else if query = Some 0 then (False, [C_ctx, C_recv_buf, C_send_buf, C_device, C_pd], rc_clean_pd)
      else if \<not> ok C_recv_mr then (False, [C_ctx, C_recv_buf, C_send_buf, C_device, C_pd], rc_clean_pd)
      else if \<not> ok C_send_mr then (False, [C_ctx, C_recv_buf, C_send_buf, C_device, C_pd, C_recv_mr], rc_clean_pd)
      else if \<not> ok C_cq then (False, [C_ctx, C_recv_buf, C_send_buf, C_device, C_pd, C_recv_mr, C_send_mr], rc_clean_mr)
      else if \<not> ok C_qp then (False, [C_ctx, C_recv_buf, C_send_buf, C_device, C_pd, C_recv_mr, C_send_mr, C_cq], rc_clean_cq)
      else if \<not> modify_ok then (False, [C_ctx, C_recv_buf, C_send_buf, C_device, C_pd, C_recv_mr, C_send_mr, C_cq, C_qp], rc_clean_qp)
      else (True, [C_ctx, C_recv_buf, C_send_buf, C_device, C_pd, C_recv_mr, C_send_mr, C_cq, C_qp], []))"

fun rc_release :: "(rc_res \<Rightarrow> bool) \<Rightarrow> rc_res list \<Rightarrow> bool \<times> rc_res list" where
  "rc_release ok [] = (True, [])"
| "rc_release ok (r # rs) = (if \<not> ok r then (False, []) else (case rc_release ok rs of (b, l) \<Rightarrow> (b, r # l)))"

definition rc_close_context :: "(rc_res \<Rightarrow> bool) \<Rightarrow> int \<times> rc_res list" where
  "rc_close_context ok =
     (case rc_release ok [C_qp, C_cq, C_recv_mr, C_send_mr, C_pd, C_device] of
        (False, l) \<Rightarrow> (1, l)
      | (True, l) \<Rightarrow> (0, l @ [C_recv_buf, C_send_buf, C_ctx]))"

subsection \<open>Work requests\<close>

record rc_wc =
  rc_wr_id :: u64
  rc_status :: bool
  rc_ts :: u64

record rc_verbs =
  rv_post_recv :: "nat \<Rightarrow> int"
  rv_wr_complete :: "nat \<Rightarrow> int"

record rc_ctx = world +
  rc_pending :: u8
  rc_recv_buf :: bytes
  rc_send_buf :: bytes
  available_recv :: int
  rc_agent :: "persistence_agent option"
  rq_len :: nat
  sq_len :: nat
  rc_cq :: "rc_wc list"
  n_post_recv :: nat
  n_post_send :: nat
  rc_posted :: "bytes list"
  rc_got :: "pingpong_payload list"
  rc_wrote :: "pingpong_payload list"

text \<open>\<^verbatim>\<open>pp_post_send (ctx, NULL)\<close>: every call passes a null pointer, which stands for the send buffer.\<close>

definition rc_post_send :: "rc_verbs \<Rightarrow> rc_ctx \<Rightarrow> int \<times> rc_ctx" where
  "rc_post_send v c =
     (let ret = rv_wr_complete v (n_post_send c); c = c\<lparr>n_post_send := n_post_send c + 1\<rparr> in
      if ret \<noteq> 0 then (1, c)
      else (0, c\<lparr>sq_len := sq_len c + 1, rc_posted := rc_posted c @ [take PACKET_SIZE (rc_send_buf c)],
                 rc_pending := rc_pending c OR ucast RC_SEND_WRID\<rparr>))"

definition rc_send_single_packet :: "rc_verbs \<Rightarrow> u64 \<Rightarrow> rc_ctx \<Rightarrow> int \<times> rc_ctx" where
  "rc_send_single_packet v packet_id c =
     (let c = c\<lparr>rc_send_buf := store_payload (rc_send_buf c) 0 (new_pingpong_payload packet_id)\<rparr>;
          t = get_time_ns c;
          c = (snd t)\<lparr>rc_send_buf := store_ts (rc_send_buf c) 0 1 (fst t)\<rparr>
      in rc_post_send v c)"

fun rc_post_recvs :: "rc_verbs \<Rightarrow> nat \<Rightarrow> rc_ctx \<Rightarrow> nat \<times> rc_ctx" where
  "rc_post_recvs v 0 c = (0, c)"
| "rc_post_recvs v (Suc n) c =
     (if rv_post_recv v (n_post_recv c) \<noteq> 0 then (0, c\<lparr>n_post_recv := n_post_recv c + 1\<rparr>)
      else (case rc_post_recvs v n (c\<lparr>n_post_recv := n_post_recv c + 1, rq_len := rq_len c + 1\<rparr>) of (i, c) \<Rightarrow> (Suc i, c)))"

definition rc_post_recv :: "rc_verbs \<Rightarrow> int \<Rightarrow> rc_ctx \<Rightarrow> int \<times> rc_ctx" where
  "rc_post_recv v n c = (case rc_post_recvs v (nat n) c of (i, c) \<Rightarrow> (int i, c))"

text \<open>The common end of the case of a completed receive: \<^verbatim>\<open>available_recv\<close> and the new receives.\<close>

definition rc_after_recv :: "rc_verbs \<Rightarrow> rc_ctx \<Rightarrow> int \<times> rc_ctx" where
  "rc_after_recv v c =
     (let c = c\<lparr>available_recv := available_recv c - 1\<rparr> in
      if available_recv c \<le> 1 then
        (case rc_post_recv v (RECEIVE_DEPTH - available_recv c) c of
           (n, c) \<Rightarrow>
             (let c = c\<lparr>available_recv := available_recv c + n\<rparr> in
              (if available_recv c < RECEIVE_DEPTH then 1 else 0, c)))
      else (0, c))"

definition rc_finish :: "u64 \<Rightarrow> int \<times> rc_ctx \<Rightarrow> int \<times> rc_ctx" where
  "rc_finish wr_id r = (if fst r \<noteq> 0 then (1, snd r) else (0, (snd r)\<lparr>rc_pending := rc_pending (snd r) AND NOT (ucast wr_id)\<rparr>))"

text \<open>What the server does with a received packet: it copies the payload to the send buffer, stamps it and posts it; the result of the
  post is ignored.\<close>

definition rc_answer :: "rc_verbs \<Rightarrow> u64 \<Rightarrow> rc_ctx \<Rightarrow> rc_ctx" where
  "rc_answer v cts c =
     (let p = load_payload (rc_recv_buf c) 0;
          c = c\<lparr>rc_send_buf := store_payload (rc_send_buf c) 0 p, rc_got := rc_got c @ [p]\<rparr>;
          c = c\<lparr>rc_send_buf := store_ts (rc_send_buf c) 0 1 cts\<rparr>;
          t = get_time_ns c;
          c = (snd t)\<lparr>rc_send_buf := store_ts (rc_send_buf c) 0 2 (fst t)\<rparr>
      in snd (rc_post_send v c))"

text \<open>What the client does with it: it stamps the payload in place and writes it; \<open>None\<close> when the write is undefined.\<close>

definition rc_record :: "rc_ctx \<Rightarrow> rc_ctx option" where
  "rc_record c =
     (let p = load_payload (rc_recv_buf c) 0;
          t = get_time_ns c;
          c = (snd t)\<lparr>rc_recv_buf := store_ts (rc_recv_buf c) 0 3 (fst t), rc_got := rc_got c @ [p]\<rparr>;
          q = load_payload (rc_recv_buf c) 0
      in case Option.bind (rc_agent c) (\<lambda>ag. agent_write ag q) of
           None \<Rightarrow> None
         | Some (_, ag) \<Rightarrow> Some (c\<lparr>rc_agent := Some ag, rc_wrote := rc_wrote c @ [q]\<rparr>))"

definition rc_parse_server :: "rc_verbs \<Rightarrow> rc_wc \<Rightarrow> rc_ctx \<Rightarrow> (int \<times> rc_ctx) option" where
  "rc_parse_server v wc c =
     (if \<not> rc_status wc then Some (1, c)
      else if rc_wr_id wc = RC_SEND_WRID then Some (rc_finish (rc_wr_id wc) (0, c))
      else if rc_wr_id wc = RC_RECV_WRID then Some (rc_finish (rc_wr_id wc) (rc_after_recv v (rc_answer v (rc_ts wc) c)))
      else Some (1, c))"

definition rc_parse_client :: "rc_verbs \<Rightarrow> rc_wc \<Rightarrow> rc_ctx \<Rightarrow> (int \<times> rc_ctx) option" where
  "rc_parse_client v wc c =
     (if \<not> rc_status wc then Some (1, c)
      else if rc_wr_id wc = RC_SEND_WRID then Some (rc_finish (rc_wr_id wc) (0, c))
      else if rc_wr_id wc = RC_RECV_WRID then
        (case rc_record c of None \<Rightarrow> None | Some c \<Rightarrow> Some (rc_finish (rc_wr_id wc) (rc_after_recv v c)))
      else Some (1, c))"

subsection \<open>The main loop\<close>

text \<open>\<open>C_Start\<close>: before \<^verbatim>\<open>ibv_start_poll\<close>; \<open>C_Next\<close>: before \<^verbatim>\<open>ibv_next_poll\<close>; \<open>C_Fail\<close>: returned 1.\<close>

datatype rc_pc = C_Start | C_Next | C_Done | C_Fail | C_Undef

record rc_loop =
  lctx :: rc_ctx
  recv_count :: u64
  lpc :: rc_pc
  h_recv :: nat
  h_send :: nat

definition rc_again :: "u64 \<Rightarrow> rc_loop \<Rightarrow> rc_loop" where
  "rc_again iters s = s\<lparr>lpc := (if recv_count s < iters then C_Start else C_Done)\<rparr>"

text \<open>Taking one completion: the handled ones are counted, the next program point is set by the caller.\<close>

definition rc_take :: "(rc_wc \<Rightarrow> rc_ctx \<Rightarrow> (int \<times> rc_ctx) option) \<Rightarrow> (rc_loop \<Rightarrow> rc_loop) \<Rightarrow> rc_wc \<Rightarrow> rc_loop \<Rightarrow> rc_loop" where
  "rc_take parse k wc s =
     (case parse wc (lctx s) of
        None \<Rightarrow> s\<lparr>lpc := C_Undef\<rparr>
      | Some (ret, c) \<Rightarrow>
          if ret \<noteq> 0 then s\<lparr>lctx := c, lpc := C_Fail\<rparr>
          else k (s\<lparr>lctx := c, recv_count := recv_count s + 1,
                    h_recv := h_recv s + (if rc_wr_id wc = RC_RECV_WRID then 1 else 0),
                    h_send := h_send s + (if rc_wr_id wc = RC_SEND_WRID then 1 else 0)\<rparr>))"

definition pop_cq :: "rc_wc list \<Rightarrow> rc_loop \<Rightarrow> rc_loop" where
  "pop_cq ws s = s\<lparr>lctx := (lctx s)\<lparr>rc_cq := ws\<rparr>\<rparr>"

inductive rc_step ::
  "(rc_wc \<Rightarrow> rc_ctx \<Rightarrow> (int \<times> rc_ctx) option) \<Rightarrow> (u64 \<Rightarrow> rc_ctx \<Rightarrow> int \<times> rc_ctx) option \<Rightarrow> u64 \<Rightarrow> rc_loop \<Rightarrow> rc_loop \<Rightarrow> bool"
  for parse sender iters where
  rc_start: "lpc s = C_Start \<Longrightarrow> rc_cq (lctx s) = w # ws \<Longrightarrow>
    rc_step parse sender iters s (rc_take parse (\<lambda>s. s\<lparr>lpc := C_Next\<rparr>) w (pop_cq ws s))"
| rc_next: "lpc s = C_Next \<Longrightarrow> rc_cq (lctx s) = w # ws \<Longrightarrow>
    rc_step parse sender iters s (rc_take parse (rc_again iters) w (pop_cq ws s))"
| rc_next_empty: "lpc s = C_Next \<Longrightarrow> rc_cq (lctx s) = [] \<Longrightarrow> rc_step parse sender iters s (rc_again iters s)"
| rc_poll_error: "lpc s = C_Start \<or> lpc s = C_Next \<Longrightarrow> rc_step parse sender iters s (s\<lparr>lpc := C_Fail\<rparr>)"
| rc_arrival: "0 < rq_len (lctx s) \<Longrightarrow> length d = PACKET_SIZE \<Longrightarrow>
    rc_step parse sender iters s (s\<lparr>lctx := (lctx s)\<lparr>rq_len := rq_len (lctx s) - 1, rc_recv_buf := d,
      rc_cq := rc_cq (lctx s) @ [\<lparr>rc_wr_id = RC_RECV_WRID, rc_status = ok, rc_ts = t\<rparr>]\<rparr>\<rparr>)"
| rc_sent: "0 < sq_len (lctx s) \<Longrightarrow>
    rc_step parse sender iters s (s\<lparr>lctx := (lctx s)\<lparr>sq_len := sq_len (lctx s) - 1,
      rc_cq := rc_cq (lctx s) @ [\<lparr>rc_wr_id = RC_SEND_WRID, rc_status = ok, rc_ts = t\<rparr>]\<rparr>\<rparr>)"
| rc_sender: "sender = Some snd_packet \<Longrightarrow> rc_step parse sender iters s (s\<lparr>lctx := snd (snd_packet i (lctx s))\<rparr>)"

text \<open>The state when the loop is entered: after the first receives were posted.\<close>

definition rc_ready :: "rc_verbs \<Rightarrow> u64 \<Rightarrow> rc_ctx \<Rightarrow> rc_loop" where
  "rc_ready v iters c =
     (case rc_post_recv v RECEIVE_DEPTH (c\<lparr>rc_pending := ucast RC_RECV_WRID\<rparr>) of
        (n, c) \<Rightarrow> rc_again iters \<lparr>lctx = c\<lparr>available_recv := n\<rparr>, recv_count = 0, lpc = C_Start, h_recv = 0, h_send = 0\<rparr>)"

definition rc_init :: "rc_ctx \<Rightarrow> bool" where
  "rc_init c \<longleftrightarrow> length (rc_recv_buf c) = PACKET_SIZE \<and> length (rc_send_buf c) = PACKET_SIZE \<and> rq_len c = 0 \<and> sq_len c = 0
     \<and> rc_cq c = [] \<and> rc_posted c = [] \<and> rc_got c = [] \<and> rc_wrote c = []"

definition rc_server_step :: "rc_verbs \<Rightarrow> u64 \<Rightarrow> rc_loop \<Rightarrow> rc_loop \<Rightarrow> bool" where
  "rc_server_step v = rc_step (rc_parse_server v) None"

definition rc_client_step :: "rc_verbs \<Rightarrow> u64 \<Rightarrow> rc_loop \<Rightarrow> rc_loop \<Rightarrow> bool" where
  "rc_client_step v = rc_step (rc_parse_client v) (Some (rc_send_single_packet v))"

text \<open>The unread completions of receives, and what the program keeps between the receives posted and its counter.\<close>

definition rc_unread :: "rc_ctx \<Rightarrow> nat" where
  "rc_unread c = length (filter (\<lambda>w. rc_wr_id w = RC_RECV_WRID) (rc_cq c))"

definition rc_window :: "nat \<Rightarrow> rc_ctx \<Rightarrow> bool" where
  "rc_window u c \<longleftrightarrow> available_recv c = int (rq_len c + u) \<and> 2 \<le> available_recv c \<and> available_recv c \<le> RECEIVE_DEPTH"

definition rc_running :: "rc_loop \<Rightarrow> bool" where
  "rc_running s \<longleftrightarrow> lpc s = C_Start \<or> lpc s = C_Next"

section \<open>Posting receives\<close>

lemma wrids [simp]: "RC_RECV_WRID \<noteq> RC_SEND_WRID" "RC_SEND_WRID \<noteq> RC_RECV_WRID"
  by (simp_all add: RC_RECV_WRID_def RC_SEND_WRID_def)

lemma rc_post_recvs_eq:
  "rc_post_recvs v n c = (i, c') \<Longrightarrow> i \<le> n \<and> (\<exists>k. c' = c\<lparr>n_post_recv := k, rq_len := rq_len c + i\<rparr>)"
proof (induction n arbitrary: c i c')
  case 0
  then show ?case by (auto intro!: exI [of _ "n_post_recv c"])
next
  case (Suc n)
  show ?case
  proof (cases "rv_post_recv v (n_post_recv c) = 0")
    case True
    obtain j d where r: "rc_post_recvs v n (c\<lparr>n_post_recv := n_post_recv c + 1, rq_len := rq_len c + 1\<rparr>) = (j, d)"
      by (metis surj_pair)
    with Suc.prems True have "i = Suc j" "c' = d" by simp_all
    with Suc.IH [OF r] show ?thesis by auto
  qed (use Suc.prems in \<open>auto intro!: exI [of _ "n_post_recv c + 1"]\<close>)
qed

lemma rc_after_recv_ok:
  assumes "rc_after_recv v c = (0, c')" and "rc_window (Suc u) c"
  shows "\<exists>a k r. c' = c\<lparr>available_recv := a, n_post_recv := k, rq_len := r\<rparr> \<and> rc_window u c'"
proof (cases "available_recv c - 1 \<le> 1")
  case True
  let ?n = "nat (RECEIVE_DEPTH - (available_recv c - 1))"
  obtain i d where r: "rc_post_recvs v ?n (c\<lparr>available_recv := available_recv c - 1\<rparr>) = (i, d)" by (metis surj_pair)
  from rc_post_recvs_eq [OF r] obtain k where d: "i \<le> ?n"
    "d = c\<lparr>available_recv := available_recv c - 1, n_post_recv := k, rq_len := rq_len c + i\<rparr>" by auto
  from assms(1) True r have c': "c' = d\<lparr>available_recv := available_recv d + int i\<rparr>" "RECEIVE_DEPTH \<le> available_recv c'"
    by (auto simp: rc_after_recv_def rc_post_recv_def Let_def split: if_splits)
  then have "c' = c\<lparr>available_recv := available_recv c - 1 + int i, n_post_recv := k, rq_len := rq_len c + i\<rparr>" using d(2) by simp
  moreover have "rc_window u c'" using c' d assms(2) True by (auto simp: rc_window_def RECEIVE_DEPTH_def)
  ultimately show ?thesis by blast
next
  case False
  with assms(1) have "c' = c\<lparr>available_recv := available_recv c - 1\<rparr>" by (simp add: rc_after_recv_def Let_def)
  then have "c' = c\<lparr>available_recv := available_recv c - 1, n_post_recv := n_post_recv c, rq_len := rq_len c\<rparr>" by simp
  moreover have "rc_window u c'" using calculation False assms(2) by (simp add: rc_window_def)
  ultimately show ?thesis by blast
qed

lemma rc_finish_ok: "rc_finish w r = (0, c') \<Longrightarrow> fst r = 0 \<and> c' = (snd r)\<lparr>rc_pending := rc_pending (snd r) AND NOT (ucast w)\<rparr>"
  by (simp add: rc_finish_def split: if_splits)

lemma rc_window_cong:
  "available_recv d = available_recv c \<Longrightarrow> rq_len d = rq_len c \<Longrightarrow> rc_window u d = rc_window u c"
  by (simp add: rc_window_def)

lemma rc_post_send_other:
  "available_recv (snd (rc_post_send v c)) = available_recv c" "rq_len (snd (rc_post_send v c)) = rq_len c"
  "rc_cq (snd (rc_post_send v c)) = rc_cq c" "rc_got (snd (rc_post_send v c)) = rc_got c"
  "rc_send_buf (snd (rc_post_send v c)) = rc_send_buf c" "rc_recv_buf (snd (rc_post_send v c)) = rc_recv_buf c"
  by (simp_all add: rc_post_send_def Let_def)

lemma rc_answer_other:
  "available_recv (rc_answer v t c) = available_recv c" "rq_len (rc_answer v t c) = rq_len c" "rc_cq (rc_answer v t c) = rc_cq c"
  "rc_recv_buf (rc_answer v t c) = rc_recv_buf c" "rc_got (rc_answer v t c) = rc_got c @ [load_payload (rc_recv_buf c) 0]"
  by (simp_all add: rc_answer_def rc_post_send_other get_time_ns_eq Let_def)

lemma rc_record_other:
  "rc_record c = Some d \<Longrightarrow> available_recv d = available_recv c \<and> rq_len d = rq_len c \<and> rc_cq d = rc_cq c"
  by (auto simp: rc_record_def get_time_ns_eq Let_def split: option.splits)

section \<open>Machines\<close>

text \<open>
  What the main loop relies on of the two functions it is composed with. A successful \<^verbatim>\<open>parse_single_wc\<close> was given one of the
  two work request identifiers; for a receive it accounts for the receive that was consumed, for a send it leaves the window
  alone; the sender thread never touches the window.
\<close>

locale rc_machine =
  fixes parse :: "rc_wc \<Rightarrow> rc_ctx \<Rightarrow> (int \<times> rc_ctx) option" and sender :: "(u64 \<Rightarrow> rc_ctx \<Rightarrow> int \<times> rc_ctx) option"
  assumes parse_id: "parse w c = Some (0, c') \<Longrightarrow> rc_wr_id w = RC_RECV_WRID \<or> rc_wr_id w = RC_SEND_WRID"
    and parse_recv: "parse w c = Some (0, c') \<Longrightarrow> rc_wr_id w = RC_RECV_WRID \<Longrightarrow> rc_window (Suc u) c \<Longrightarrow> rc_window u c' \<and> rc_cq c' = rc_cq c"
    and parse_send: "parse w c = Some (0, c') \<Longrightarrow> rc_wr_id w = RC_SEND_WRID \<Longrightarrow> rc_window u c \<Longrightarrow> rc_window u c' \<and> rc_cq c' = rc_cq c"
    and sender_window: "sender = Some f \<Longrightarrow> rc_window u (snd (f i c)) = rc_window u c \<and> rc_cq (snd (f i c)) = rc_cq c"
begin

definition machine_ok :: "rc_loop \<Rightarrow> bool" where
  "machine_ok s \<longleftrightarrow> (rc_running s \<longrightarrow> rc_window (rc_unread (lctx s)) (lctx s)) \<and> recv_count s = of_nat (h_recv s + h_send s)"

lemma take_ok:
  assumes "machine_ok s" and "rc_running s" and "rc_cq (lctx s) = w # ws"
    and "\<And>s. lctx (k s) = lctx s \<and> recv_count (k s) = recv_count s \<and> h_recv (k s) = h_recv s \<and> h_send (k s) = h_send s"
  shows "machine_ok (rc_take parse k w (pop_cq ws s))"
proof -
  let ?c = "(lctx s)\<lparr>rc_cq := ws\<rparr>"
  consider (undef) "parse w ?c = None" | (bad) r c' where "parse w ?c = Some (r, c')" "r \<noteq> 0" | (ok) c' where "parse w ?c = Some (0, c')"
    by (cases "parse w ?c") auto
  then show ?thesis
  proof cases
    case undef
    then show ?thesis using assms(1) by (simp add: rc_take_def pop_cq_def machine_ok_def rc_running_def)
  next
    case bad
    then show ?thesis using assms(1) by (simp add: rc_take_def pop_cq_def machine_ok_def rc_running_def)
  next
    case ok
    have win: "rc_window (rc_unread (lctx s)) ?c" using assms(1,2) by (simp add: machine_ok_def rc_window_def)
    have "rc_window (rc_unread c') c'"
    proof (cases "rc_wr_id w = RC_RECV_WRID")
      case True
      then have "rc_unread (lctx s) = Suc (rc_unread ?c)" using assms(3) by (simp add: rc_unread_def)
      with parse_recv [OF ok True] win show ?thesis by (simp add: rc_unread_def)
    next
      case False
      then have "rc_wr_id w = RC_SEND_WRID" "rc_unread (lctx s) = rc_unread ?c" using parse_id [OF ok] assms(3) by (simp_all add: rc_unread_def)
      with parse_send [OF ok] win show ?thesis by (simp add: rc_unread_def)
    qed
    then show ?thesis using ok parse_id [OF ok] assms(1,4) by (auto simp: rc_take_def pop_cq_def machine_ok_def)
  qed
qed

lemma step_ok: "rc_step parse sender iters s s' \<Longrightarrow> machine_ok s \<Longrightarrow> machine_ok s'"
proof (induction rule: rc_step.induct)
  case (rc_start s w ws)
  then show ?case by (intro take_ok) (simp_all add: rc_running_def)
next
  case (rc_next s w ws)
  then show ?case by (intro take_ok) (simp_all add: rc_running_def rc_again_def)
next
  case (rc_arrival s d ok t)
  then show ?case by (auto simp: machine_ok_def rc_running_def rc_window_def rc_unread_def)
next
  case (rc_sender f s i)
  then show ?case using sender_window [OF rc_sender(1)] by (simp add: machine_ok_def rc_running_def rc_unread_def)
qed (auto simp: machine_ok_def rc_running_def rc_window_def rc_unread_def rc_again_def)

lemma reach_ok: "(rc_step parse sender iters)\<^sup>*\<^sup>* s s' \<Longrightarrow> machine_ok s \<Longrightarrow> machine_ok s'"
  by (induction rule: rtranclp_induct) (auto intro: step_ok)

end

text \<open>The window after a completed receive, whatever was done with the packet.\<close>

lemma rc_recv_tail:
  assumes "rc_finish w (rc_after_recv v d) = (0, c')" and "rc_window (Suc u) c"
    and "available_recv d = available_recv c" "rq_len d = rq_len c" "rc_cq d = rc_cq c"
  shows "rc_window u c' \<and> rc_cq c' = rc_cq c"
proof -
  have w: "rc_window (Suc u) d" using assms(2-4) by (simp add: rc_window_def)
  obtain d' where d': "rc_after_recv v d = (0, d')" "c' = d'\<lparr>rc_pending := rc_pending d' AND NOT (ucast w)\<rparr>"
    using rc_finish_ok [OF assms(1)] by (cases "rc_after_recv v d") auto
  from rc_after_recv_ok [OF d'(1) w] have "rc_window u d'" "rc_cq d' = rc_cq d" by auto
  then show ?thesis using d'(2) assms(5) by (simp add: rc_window_def)
qed

lemma rc_send_tail: "rc_finish w (0, c) = (0, c') \<Longrightarrow> rc_window u c \<Longrightarrow> rc_window u c' \<and> rc_cq c' = rc_cq c"
  by (auto simp: rc_finish_def rc_window_def)

interpretation rcs: rc_machine "rc_parse_server v" None for v
proof unfold_locales
  fix w c c' u
  assume p: "rc_parse_server v w c = Some (0, c')"
  then show "rc_wr_id w = RC_RECV_WRID \<or> rc_wr_id w = RC_SEND_WRID" by (auto simp: rc_parse_server_def split: if_splits)
  show "rc_window u c' \<and> rc_cq c' = rc_cq c" if "rc_wr_id w = RC_RECV_WRID" "rc_window (Suc u) c"
    using p that rc_recv_tail [OF _ that(2), of "rc_wr_id w" v "rc_answer v (rc_ts w) c" c']
    by (auto simp: rc_parse_server_def rc_answer_other split: if_splits)
  show "rc_window u c' \<and> rc_cq c' = rc_cq c" if "rc_wr_id w = RC_SEND_WRID" "rc_window u c"
    using p that rc_send_tail by (auto simp: rc_parse_server_def split: if_splits)
qed simp

interpretation rcc: rc_machine "rc_parse_client v" "Some (rc_send_single_packet v)" for v
proof unfold_locales
  fix w c c' u
  assume p: "rc_parse_client v w c = Some (0, c')"
  then show "rc_wr_id w = RC_RECV_WRID \<or> rc_wr_id w = RC_SEND_WRID" by (auto simp: rc_parse_client_def split: if_splits)
  show "rc_window u c' \<and> rc_cq c' = rc_cq c" if "rc_wr_id w = RC_RECV_WRID" "rc_window (Suc u) c"
  proof -
    from p that obtain d where "rc_record c = Some d" "rc_finish (rc_wr_id w) (rc_after_recv v d) = (0, c')"
      by (auto simp: rc_parse_client_def split: if_splits option.splits)
    with rc_recv_tail [OF _ that(2)] rc_record_other show ?thesis by blast
  qed
  show "rc_window u c' \<and> rc_cq c' = rc_cq c" if "rc_wr_id w = RC_SEND_WRID" "rc_window u c"
    using p that rc_send_tail by (auto simp: rc_parse_client_def split: if_splits)
next
  fix f u i c
  assume "Some (rc_send_single_packet v) = Some f"
  then show "rc_window u (snd (f i c)) = rc_window u c \<and> rc_cq (snd (f i c)) = rc_cq c"
    by (auto simp: rc_send_single_packet_def rc_window_def rc_post_send_other get_time_ns_eq Let_def)
qed

text \<open>The loop is entered with a full window when every receive could be posted.\<close>

lemma rc_ready_ok:
  assumes "rc_init c" and "s = rc_ready v iters c" and "available_recv (lctx s) = RECEIVE_DEPTH"
  shows "rc_window (rc_unread (lctx s)) (lctx s)" and "recv_count s = 0" "h_recv s = 0" "h_send s = 0"
    and "lpc s = (if 0 < iters then C_Start else C_Done)"
    and "rc_cq (lctx s) = []" "rc_posted (lctx s) = []" "rc_got (lctx s) = []" "rc_wrote (lctx s) = []" "sq_len (lctx s) = 0"
    and "length (rc_recv_buf (lctx s)) = PACKET_SIZE" "length (rc_send_buf (lctx s)) = PACKET_SIZE" "rc_agent (lctx s) = rc_agent c"
proof -
  obtain i d where r: "rc_post_recvs v (nat RECEIVE_DEPTH) (c\<lparr>rc_pending := ucast RC_RECV_WRID\<rparr>) = (i, d)" by (metis surj_pair)
  from rc_post_recvs_eq [OF r] obtain k where
    d: "d = c\<lparr>rc_pending := ucast RC_RECV_WRID, n_post_recv := k, rq_len := rq_len c + i\<rparr>" by auto
  have s: "s = rc_again iters \<lparr>lctx = d\<lparr>available_recv := int i\<rparr>, recv_count = 0, lpc = C_Start, h_recv = 0, h_send = 0\<rparr>"
    using assms(2) r by (simp add: rc_ready_def rc_post_recv_def)
  show "rc_window (rc_unread (lctx s)) (lctx s)" "recv_count s = 0" "h_recv s = 0" "h_send s = 0"
    "lpc s = (if 0 < iters then C_Start else C_Done)"
    "rc_cq (lctx s) = []" "rc_posted (lctx s) = []" "rc_got (lctx s) = []" "rc_wrote (lctx s) = []" "sq_len (lctx s) = 0"
    "length (rc_recv_buf (lctx s)) = PACKET_SIZE" "length (rc_send_buf (lctx s)) = PACKET_SIZE" "rc_agent (lctx s) = rc_agent c"
    using assms(1,3) by (simp_all add: s d rc_again_def rc_window_def rc_unread_def rc_init_def RECEIVE_DEPTH_def)
qed

section \<open>What the server sends\<close>

definition rc_echoes :: "bytes \<Rightarrow> pingpong_payload \<Rightarrow> bool" where
  "rc_echoes pkt p \<longleftrightarrow> length pkt = PACKET_SIZE \<and> (\<exists>t1 t2. load_payload pkt 0 = p\<lparr>ts1 := t1, ts2 := t2\<rparr>)"

definition rc_server_inv :: "rc_ctx \<Rightarrow> bool" where
  "rc_server_inv c \<longleftrightarrow> length (rc_send_buf c) = PACKET_SIZE \<and> length (rc_recv_buf c) = PACKET_SIZE
     \<and> list_all2 rc_echoes (rc_posted c) (rc_got c)"

lemma rc_answer_echoes:
  assumes "length (rc_send_buf c) = PACKET_SIZE" and "rv_wr_complete v (n_post_send c) = 0"
  shows "\<exists>pkt. rc_posted (rc_answer v t c) = rc_posted c @ [pkt] \<and> rc_echoes pkt (load_payload (rc_recv_buf c) 0)
    \<and> length (rc_send_buf (rc_answer v t c)) = PACKET_SIZE \<and> sq_len (rc_answer v t c) = sq_len c + 1
    \<and> n_post_send (rc_answer v t c) = n_post_send c + 1"
proof -
  let ?p = "load_payload (rc_recv_buf c) 0"
  let ?b1 = "store_ts (store_payload (rc_send_buf c) 0 ?p) 0 (Suc 0) t"
  define t2 where "t2 = fst (get_time_ns (c\<lparr>rc_got := rc_got c @ [?p], rc_send_buf := ?b1\<rparr>))"
  define b where "b = store_ts ?b1 0 2 t2"
  have off: "0 + payload_size \<le> length (rc_send_buf c)" using assms(1) by (simp add: payload_size_def PACKET_SIZE_def)
  have len: "length b = PACKET_SIZE" using off assms(1) by (simp add: b_def)
  have "load_payload b 0 = ?p\<lparr>ts1 := t, ts2 := t2\<rparr>" using off by (simp add: b_def load_store_ts load_store_payload)
  with len have "rc_echoes b ?p" unfolding rc_echoes_def by blast
  moreover have "rc_answer v t c = snd (rc_post_send v (c\<lparr>rc_got := rc_got c @ [?p], nread := Suc (nread c), rc_send_buf := b\<rparr>))"
    by (simp add: rc_answer_def Let_def b_def t2_def get_time_ns_def)
  ultimately show ?thesis using assms(2) len by (simp add: rc_post_send_def Let_def)
qed

lemma rc_after_recv_other:
  "rc_posted (snd (rc_after_recv v c)) = rc_posted c \<and> rc_got (snd (rc_after_recv v c)) = rc_got c
   \<and> rc_send_buf (snd (rc_after_recv v c)) = rc_send_buf c \<and> rc_recv_buf (snd (rc_after_recv v c)) = rc_recv_buf c
   \<and> sq_len (snd (rc_after_recv v c)) = sq_len c \<and> rc_cq (snd (rc_after_recv v c)) = rc_cq c"
proof -
  obtain i d where r: "rc_post_recvs v (nat (RECEIVE_DEPTH - (available_recv c - 1))) (c\<lparr>available_recv := available_recv c - 1\<rparr>) = (i, d)"
    by (metis surj_pair)
  from rc_post_recvs_eq [OF r] r show ?thesis by (auto simp: rc_after_recv_def rc_post_recv_def Let_def)
qed

lemma rc_finish_other:
  "rc_posted (snd (rc_finish w r)) = rc_posted (snd r)" "rc_got (snd (rc_finish w r)) = rc_got (snd r)"
  "rc_send_buf (snd (rc_finish w r)) = rc_send_buf (snd r)" "rc_recv_buf (snd (rc_finish w r)) = rc_recv_buf (snd r)"
  "sq_len (snd (rc_finish w r)) = sq_len (snd r)" "rc_cq (snd (rc_finish w r)) = rc_cq (snd r)"
  by (simp_all add: rc_finish_def)

lemma rc_parse_server_inv:
  assumes "rc_server_inv c" and "\<And>n. rv_wr_complete v n = 0"
  shows "\<exists>r. rc_parse_server v w c = Some r \<and> rc_server_inv (snd r)"
proof (cases "rc_status w \<and> rc_wr_id w = RC_RECV_WRID")
  case True
  let ?c = "rc_answer v (rc_ts w) c"
  have "rc_server_inv ?c"
    using rc_answer_echoes [of c v "rc_ts w"] assms by (auto simp: rc_server_inv_def rc_answer_other intro!: list_all2_appendI)
  then show ?thesis using True by (simp add: rc_parse_server_def rc_server_inv_def rc_finish_other rc_after_recv_other)
next
  case False
  then show ?thesis using assms(1) by (simp add: rc_parse_server_def rc_server_inv_def rc_finish_def)
qed

lemma rc_take_inv:
  assumes "rc_server_inv (lctx s)" and "\<And>n. rv_wr_complete v n = 0" and "\<And>s. lctx (k s) = lctx s"
  shows "rc_server_inv (lctx (rc_take (rc_parse_server v) k w (pop_cq ws s)))"
proof -
  have "rc_server_inv ((lctx s)\<lparr>rc_cq := ws\<rparr>)" using assms(1) by (simp add: rc_server_inv_def)
  from rc_parse_server_inv [OF this assms(2), of w] show ?thesis using assms(3) by (auto simp: rc_take_def pop_cq_def)
qed

lemma rc_server_step_inv:
  assumes "rc_server_step v iters s s'" and "rc_server_inv (lctx s)" and "\<And>n. rv_wr_complete v n = 0"
  shows "rc_server_inv (lctx s')"
  using assms(1) unfolding rc_server_step_def
proof (cases rule: rc_step.cases)
  case (rc_start w ws)
  then show ?thesis using assms(2,3) by (auto intro!: rc_take_inv)
next
  case (rc_next w ws)
  then show ?thesis using assms(2,3) by (auto intro!: rc_take_inv simp: rc_again_def)
qed (use assms(2) in \<open>auto simp: rc_again_def rc_server_inv_def\<close>)

section \<open>Runs of the server\<close>

text \<open>The arrival of one packet in good order, and the completion of one send.\<close>

definition rc_deliver :: "bytes \<Rightarrow> rc_loop \<Rightarrow> rc_loop" where
  "rc_deliver d s = s\<lparr>lctx := (lctx s)\<lparr>rq_len := rq_len (lctx s) - 1, rc_recv_buf := d,
     rc_cq := rc_cq (lctx s) @ [\<lparr>rc_wr_id = RC_RECV_WRID, rc_status = True, rc_ts = 0\<rparr>]\<rparr>\<rparr>"

lemma rc_deliver_step:
  "0 < rq_len (lctx s) \<Longrightarrow> length d = PACKET_SIZE \<Longrightarrow> rc_server_step v iters s (rc_deliver d s)"
  unfolding rc_server_step_def rc_deliver_def by (rule rc_arrival)

lemma rc_after_recv_succeeds:
  assumes "\<And>n. rv_post_recv v n = 0"
  shows "fst (rc_after_recv v c) = 0"
proof -
  have "rc_post_recvs v n c = (n, c\<lparr>n_post_recv := n_post_recv c + n, rq_len := rq_len c + n\<rparr>)" for n c
    by (induction n arbitrary: c) (simp_all add: assms)
  then show ?thesis by (simp add: rc_after_recv_def rc_post_recv_def Let_def)
qed

text \<open>Handling one good completion of a receive.\<close>

lemma rc_take_recv:
  assumes "\<And>n. rv_post_recv v n = 0" and "w = \<lparr>rc_wr_id = RC_RECV_WRID, rc_status = True, rc_ts = t\<rparr>"
    and "c = rc_answer v t ((lctx s)\<lparr>rc_cq := ws\<rparr>)"
  shows "rc_take (rc_parse_server v) k w (pop_cq ws s)
    = k (s\<lparr>lctx := snd (rc_finish RC_RECV_WRID (rc_after_recv v c)), recv_count := recv_count s + 1, h_recv := h_recv s + 1\<rparr>)"
proof -
  have "fst (rc_finish RC_RECV_WRID (rc_after_recv v c)) = 0" by (simp add: rc_finish_def rc_after_recv_succeeds [OF assms(1)])
  then obtain c' where "rc_finish RC_RECV_WRID (rc_after_recv v c) = (0, c')" by (metis prod.collapse)
  then show ?thesis by (simp add: rc_take_def rc_parse_server_def pop_cq_def assms(2,3))
qed

lemma rc_take_send:
  "rc_take (rc_parse_server v) k \<lparr>rc_wr_id = RC_SEND_WRID, rc_status = True, rc_ts = t\<rparr> (pop_cq ws s)
    = k (s\<lparr>lctx := snd (rc_finish RC_SEND_WRID (0, (lctx s)\<lparr>rc_cq := ws\<rparr>)), recv_count := recv_count s + 1, h_send := h_send s + 1\<rparr>)"
  by (simp add: rc_take_def rc_parse_server_def pop_cq_def rc_finish_def)

text \<open>One ping in an otherwise idle server: the receive and the send of the reply complete in the same round of the loop.\<close>

definition rc_idle :: "rc_loop \<Rightarrow> bool" where
  "rc_idle s \<longleftrightarrow> rc_cq (lctx s) = [] \<and> sq_len (lctx s) = 0 \<and> length (rc_send_buf (lctx s)) = PACKET_SIZE
     \<and> rc_window 0 (lctx s)"

lemma rc_one_ping:
  assumes v: "\<And>n. rv_post_recv v n = 0" "\<And>n. rv_wr_complete v n = 0"
    and s: "rc_idle s" "lpc s = C_Start" and d: "length (d :: bytes) = PACKET_SIZE"
  shows "\<exists>s'. (rc_server_step v iters)\<^sup>*\<^sup>* s s' \<and> rc_idle s' \<and> recv_count s' = recv_count s + 2 \<and> h_recv s' = Suc (h_recv s)
    \<and> h_send s' = Suc (h_send s) \<and> lpc s' = (if recv_count s + 2 < iters then C_Start else C_Done)"
proof -
  have rq: "0 < rq_len (lctx s)" using s(1) by (auto simp: rc_idle_def rc_window_def)
  let ?w = "\<lparr>rc_wr_id = RC_RECV_WRID, rc_status = True, rc_ts = 0\<rparr>" and ?v = "\<lparr>rc_wr_id = RC_SEND_WRID, rc_status = True, rc_ts = 0\<rparr>"
  define s1 where "s1 = rc_deliver d s"
  define a where "a = rc_answer v 0 ((lctx s1)\<lparr>rc_cq := []\<rparr>)"
  define c2 where "c2 = snd (rc_finish RC_RECV_WRID (rc_after_recv v a))"
  define s2 where "s2 = s1\<lparr>lctx := c2, recv_count := recv_count s1 + 1, h_recv := h_recv s1 + 1, lpc := C_Next\<rparr>"
  define s3 where "s3 = s2\<lparr>lctx := (lctx s2)\<lparr>sq_len := sq_len (lctx s2) - 1, rc_cq := rc_cq (lctx s2) @ [?v]\<rparr>\<rparr>"
  define s4 where "s4 = rc_again iters (s3\<lparr>lctx := snd (rc_finish RC_SEND_WRID (0, (lctx s3)\<lparr>rc_cq := []\<rparr>)),
      recv_count := recv_count s3 + 1, h_send := h_send s3 + 1\<rparr>)"
  have s1: "rc_cq (lctx s1) = [?w]" "lpc s1 = C_Start" using s by (simp_all add: s1_def rc_deliver_def rc_idle_def)
  have step1: "rc_server_step v iters s s1" unfolding s1_def using rq d by (rule rc_deliver_step)
  have "s2 = rc_take (rc_parse_server v) (\<lambda>s. s\<lparr>lpc := C_Next\<rparr>) ?w (pop_cq [] s1)"
    using rc_take_recv [OF v(1) refl a_def] by (simp add: s2_def c2_def)
  then have step2: "rc_server_step v iters s1 s2" unfolding rc_server_step_def using s1 by (auto intro: rc_start)
  have wa: "rc_window (Suc 0) a" "length (rc_send_buf a) = PACKET_SIZE" "sq_len a = 1" "rc_cq a = []"
    using s(1) rq rc_answer_echoes [of "(lctx s1)\<lparr>rc_cq := []\<rparr>" v 0] v(2)
    by (auto simp: a_def s1_def rc_deliver_def rc_idle_def rc_window_def rc_answer_other)
  have "rc_finish RC_RECV_WRID (rc_after_recv v a) = (0, c2)"
    by (simp add: c2_def rc_finish_def rc_after_recv_succeeds [OF v(1)])
  then have "rc_window 0 c2 \<and> rc_cq c2 = rc_cq a" using wa(1) by (rule rc_recv_tail) simp_all
  then have c2: "rc_window 0 c2" "rc_cq c2 = []" "sq_len c2 = 1" "length (rc_send_buf c2) = PACKET_SIZE"
    using wa by (simp_all add: c2_def rc_finish_other rc_after_recv_other)
  have step3: "rc_server_step v iters s2 s3"
    unfolding rc_server_step_def s3_def using c2(3) by (intro rc_sent) (simp add: s2_def)
  have "s4 = rc_take (rc_parse_server v) (rc_again iters) ?v (pop_cq [] s3)" by (simp add: s4_def rc_take_send)
  then have step4: "rc_server_step v iters s3 s4"
    unfolding rc_server_step_def using c2(2) by (auto intro!: rc_next simp: s3_def s2_def)
  have "(rc_server_step v iters)\<^sup>*\<^sup>* s s4"
    using step1 step2 step3 step4 by (meson rtranclp.rtrancl_into_rtrancl rtranclp.rtrancl_refl)
  moreover have "rc_idle s4" using c2 by (simp add: s4_def s3_def s2_def rc_again_def rc_idle_def rc_finish_def rc_window_def)
  ultimately show ?thesis
    by (intro exI [of _ s4]) (simp add: s4_def s3_def s2_def s1_def rc_again_def rc_deliver_def add.commute)
qed

lemma rc_pings:
  assumes v: "\<And>n. rv_post_recv v n = 0" "\<And>n. rv_wr_complete v n = 0"
    and s: "rc_idle s" "lpc s = C_Start" "recv_count s = 0" "h_recv s = 0" and k: "0 < k" "2 * k < 2 ^ 64" and j: "j \<le> k"
  shows "\<exists>s'. (rc_server_step v (of_nat (2 * k)))\<^sup>*\<^sup>* s s' \<and> rc_idle s' \<and> recv_count s' = of_nat (2 * j) \<and> h_recv s' = j
    \<and> lpc s' = (if j < k then C_Start else C_Done)"
  using j
proof (induction j)
  case 0
  then show ?case using s k(1) by (intro exI [of _ s]) simp
next
  case (Suc j)
  then obtain s' where s': "(rc_server_step v (of_nat (2 * k)))\<^sup>*\<^sup>* s s'" "rc_idle s'" "recv_count s' = of_nat (2 * j)" "h_recv s' = j"
    "lpc s' = C_Start" by auto
  have count: "(of_nat (2 * j) :: u64) + 2 = of_nat (2 * Suc j)" by simp
  have less: "(of_nat (2 * Suc j) :: u64) < of_nat (2 * k) \<longleftrightarrow> Suc j < k"
    using Suc.prems k(2) unfolding word_less_nat_alt by (simp only: unat_of_nat) (simp, arith)
  obtain s'' where s'': "(rc_server_step v (of_nat (2 * k)))\<^sup>*\<^sup>* s' s''" "rc_idle s''" "recv_count s'' = recv_count s' + 2" "h_recv s'' = Suc (h_recv s')"
      "lpc s'' = (if recv_count s' + 2 < of_nat (2 * k) then C_Start else C_Done)"
    using rc_one_ping [OF v s'(2,5), of "replicate PACKET_SIZE 0" "of_nat (2 * k)"] by auto
  have "(rc_server_step v (of_nat (2 * k)))\<^sup>*\<^sup>* s s''" using s'(1) s''(1) by (rule rtranclp_trans)
  moreover have "lpc s'' = (if Suc j < k then C_Start else C_Done)" using s''(5) unfolding s'(3) count less .
  moreover have "recv_count s'' = of_nat (2 * Suc j)" using s''(3) unfolding s'(3) count .
  ultimately show ?case using s''(2,4) s'(4) by blast
qed

section \<open>Properties\<close>

text \<open>C9: the receive window of the reliable-connection program. In every reachable state of the server's and of the client's loop
  that is still running, the counter \<^verbatim>\<open>available_recv\<close> is the number of posted receives plus the completed ones not read yet, and
  lies between 2 and \<^verbatim>\<open>RECEIVE_DEPTH\<close>: the receive queue never overflows and never runs dry unnoticed, whatever the adapter
  does and whenever a later post fails.\<close>

theorem rc_receive_window:
  assumes "rc_init c" and "available_recv (lctx (rc_ready v iters c)) = RECEIVE_DEPTH"
    and "(rc_server_step v iters)\<^sup>*\<^sup>* (rc_ready v iters c) s \<or> (rc_client_step v iters)\<^sup>*\<^sup>* (rc_ready v iters c) s"
    and "lpc s = C_Start \<or> lpc s = C_Next"
  shows "available_recv (lctx s) = int (rq_len (lctx s) + rc_unread (lctx s))
    \<and> 2 \<le> available_recv (lctx s) \<and> available_recv (lctx s) \<le> RECEIVE_DEPTH \<and> int (rq_len (lctx s)) \<le> RECEIVE_DEPTH"
proof -
  note r = rc_ready_ok [OF assms(1) refl assms(2)]
  have "rcs.machine_ok (rc_ready v iters c)" "rcc.machine_ok (rc_ready v iters c)"
    unfolding rcs.machine_ok_def rcc.machine_ok_def using r(1-4) by simp_all
  then have "rcs.machine_ok s \<or> rcc.machine_ok s"
    using assms(3) rcs.reach_ok rcc.reach_ok unfolding rc_server_step_def rc_client_step_def by blast
  then have "rc_window (rc_unread (lctx s)) (lctx s)"
    using assms(4) unfolding rcs.machine_ok_def rcc.machine_ok_def rc_running_def by blast
  then show ?thesis by (auto simp: rc_window_def)
qed

text \<open>An adapter whose calls all succeed, and a fresh context, for the witnesses.\<close>

definition rc_good :: rc_verbs where "rc_good = \<lparr>rv_post_recv = (\<lambda>_. 0), rv_wr_complete = (\<lambda>_. 0)\<rparr>"

definition rc_demo :: rc_ctx where
  "rc_demo = world.extend demo_world \<lparr>rc_pending = 0, rc_recv_buf = replicate PACKET_SIZE 0, rc_send_buf = replicate PACKET_SIZE 0,
     available_recv = 0, rc_agent = None, rq_len = 0, sq_len = 0, rc_cq = [], n_post_recv = 0, n_post_send = 0,
     rc_posted = [], rc_got = [], rc_wrote = []\<rparr>"

lemma rc_demo_ready: "rc_init rc_demo" "available_recv (lctx (rc_ready rc_good iters rc_demo)) = RECEIVE_DEPTH"
proof -
  show "rc_init rc_demo" by (simp add: rc_init_def rc_demo_def world.extend_def)
  have "rc_post_recvs rc_good n c = (n, c\<lparr>n_post_recv := n_post_recv c + n, rq_len := rq_len c + n\<rparr>)" for n c
    by (induction n arbitrary: c) (simp_all add: rc_good_def)
  then show "available_recv (lctx (rc_ready rc_good iters rc_demo)) = RECEIVE_DEPTH"
    by (simp add: rc_ready_def rc_post_recv_def rc_again_def RECEIVE_DEPTH_def)
qed

theorem rc_receive_window_witness:
  "\<exists>s. (rc_server_step rc_good 9)\<^sup>*\<^sup>* (rc_ready rc_good 9 rc_demo) s \<and> lpc s = C_Start \<and> rc_cq (lctx s) = []
    \<and> available_recv (lctx s) = int (rq_len (lctx s) + rc_unread (lctx s))"
proof -
  note r = rc_ready_ok [OF rc_demo_ready(1) refl rc_demo_ready(2), of 9]
  from rc_receive_window [OF rc_demo_ready(1,2), of 9 "rc_ready rc_good 9 rc_demo"] r(5,6) show ?thesis
    by (intro exI [of _ "rc_ready rc_good 9 rc_demo"]) simp
qed

text \<open>while its posts succeed, the server answers every completed receive: the packets it posted are, one for one and in order,
  the contents of the receive buffer when the completions were handled, with the second and third timestamp replaced.\<close>

theorem rc_server_echoes:
  assumes "rc_init c" and "available_recv (lctx (rc_ready v iters c)) = RECEIVE_DEPTH" and "\<forall>n. rv_wr_complete v n = 0"
    and "(rc_server_step v iters)\<^sup>*\<^sup>* (rc_ready v iters c) s"
  shows "list_all2 rc_echoes (rc_posted (lctx s)) (rc_got (lctx s))"
proof -
  have "rc_server_inv (lctx (rc_ready v iters c))"
    using rc_ready_ok [OF assms(1) refl assms(2)] by (simp add: rc_server_inv_def)
  with assms(4) have "rc_server_inv (lctx s)"
    by (induction rule: rtranclp_induct) (use assms(3) in \<open>auto intro: rc_server_step_inv\<close>)
  then show ?thesis by (simp add: rc_server_inv_def)
qed

theorem rc_server_echoes_witness:
  "\<exists>s. (rc_server_step rc_good 2)\<^sup>*\<^sup>* (rc_ready rc_good 2 rc_demo) s \<and> h_recv s = 1
    \<and> list_all2 rc_echoes (rc_posted (lctx s)) (rc_got (lctx s))"
proof -
  note r = rc_ready_ok [OF rc_demo_ready(1) refl rc_demo_ready(2), of 2]
  have "rc_idle (rc_ready rc_good 2 rc_demo)" using r by (simp add: rc_idle_def rc_unread_def)
  then obtain s where s: "(rc_server_step rc_good 2)\<^sup>*\<^sup>* (rc_ready rc_good 2 rc_demo) s" "h_recv s = 1"
    using rc_one_ping [of rc_good "rc_ready rc_good 2 rc_demo" "replicate PACKET_SIZE 0" 2] r(3,5) by (auto simp: rc_good_def)
  from rc_server_echoes [OF rc_demo_ready _ s(1)] s show ?thesis by (auto simp: rc_good_def)
qed

text \<open>C28: the reliable-connection server stops half-way. Its counter counts the completions of its own sends as well as those of receives,
  so a run that is to answer \<open>2 * k\<close> pings can end, successfully, when only \<open>k\<close> have been received.\<close>

theorem rc_server_stops_halfway:
  assumes "rc_init c" and "0 < k" and "2 * k < 2 ^ 64"
    and "\<forall>n. rv_post_recv v n = 0" and "\<forall>n. rv_wr_complete v n = 0"
    and "available_recv (lctx (rc_ready v (of_nat (2 * k)) c)) = RECEIVE_DEPTH"
  shows "\<exists>s. (rc_server_step v (of_nat (2 * k)))\<^sup>*\<^sup>* (rc_ready v (of_nat (2 * k)) c) s \<and> lpc s = C_Done \<and> h_recv s = k"
proof -
  let ?s = "rc_ready v (of_nat (2 * k)) c"
  note r = rc_ready_ok [OF assms(1) refl assms(6)]
  have "(0 :: u64) < of_nat (2 * k)" using assms(2,3) unfolding word_less_nat_alt by (simp only: unat_of_nat) simp
  then have "lpc ?s = C_Start" using r(5) by (simp only: if_True)
  moreover have "rc_idle ?s" using r by (simp add: rc_idle_def rc_unread_def)
  ultimately show ?thesis
    using rc_pings [of v ?s k k] assms(2-5) r(2,3) by auto
qed

theorem rc_server_stops_halfway_witness:
  "\<exists>s. (rc_server_step rc_good 10)\<^sup>*\<^sup>* (rc_ready rc_good 10 rc_demo) s \<and> lpc s = C_Done \<and> h_recv s = 5"
  using rc_server_stops_halfway [OF rc_demo_ready(1), of 5 rc_good] rc_demo_ready(2) [of 10] by (simp add: rc_good_def)

text \<open>two pings that arrive together are answered as one. All receives share one buffer, so when a second ping arrives before
  the completion of the first is handled, both replies carry the second ping and the first is never answered.\<close>

theorem rc_shared_buffer_loses_ping:
  assumes "rc_idle s" and "lpc s = C_Start" and "length d1 = PACKET_SIZE" and "length d2 = PACKET_SIZE"
    and "\<forall>n. rv_post_recv v n = 0" and "\<forall>n. rv_wr_complete v n = 0"
  shows "\<exists>s' p1 p2. rc_server_step v iters s (rc_deliver d1 s) \<and> rc_server_step v iters (rc_deliver d1 s) (rc_deliver d2 (rc_deliver d1 s))
    \<and> (rc_server_step v iters)\<^sup>*\<^sup>* (rc_deliver d2 (rc_deliver d1 s)) s'
    \<and> rc_posted (lctx s') = rc_posted (lctx s) @ [p1, p2]
    \<and> rc_echoes p1 (load_payload d2 0) \<and> rc_echoes p2 (load_payload d2 0)"
proof -
  let ?w = "\<lparr>rc_wr_id = RC_RECV_WRID, rc_status = True, rc_ts = 0\<rparr>"
  have rq: "2 \<le> rq_len (lctx s)" and cq: "rc_cq (lctx s) = []" and buf: "length (rc_send_buf (lctx s)) = PACKET_SIZE"
    using assms(1) by (auto simp: rc_idle_def rc_window_def)
  define s2 where "s2 = rc_deliver d2 (rc_deliver d1 s)"
  define a where "a = rc_answer v 0 ((lctx s2)\<lparr>rc_cq := [?w]\<rparr>)"
  define c3 where "c3 = snd (rc_finish RC_RECV_WRID (rc_after_recv v a))"
  define s3 where "s3 = s2\<lparr>lctx := c3, recv_count := recv_count s2 + 1, h_recv := h_recv s2 + 1, lpc := C_Next\<rparr>"
  define b where "b = rc_answer v 0 (c3\<lparr>rc_cq := []\<rparr>)"
  define s4 where "s4 = rc_again iters (s3\<lparr>lctx := snd (rc_finish RC_RECV_WRID (rc_after_recv v b)), recv_count := recv_count s3 + 1,
      h_recv := h_recv s3 + 1\<rparr>)"
  have s2: "rc_cq (lctx s2) = [?w, ?w]" "lpc s2 = C_Start" "rc_recv_buf (lctx s2) = d2" "rc_send_buf (lctx s2) = rc_send_buf (lctx s)"
    "rc_posted (lctx s2) = rc_posted (lctx s)"
    using cq assms(2) by (simp_all add: s2_def rc_deliver_def)
  obtain p1 where a: "rc_posted a = rc_posted (lctx s) @ [p1]" "rc_echoes p1 (load_payload d2 0)" "length (rc_send_buf a) = PACKET_SIZE"
    using rc_answer_echoes [of "(lctx s2)\<lparr>rc_cq := [?w]\<rparr>" v 0] s2 buf assms(6) by (auto simp: a_def)
  have c3: "rc_posted c3 = rc_posted a" "rc_send_buf c3 = rc_send_buf a" "rc_cq c3 = [?w]" "rc_recv_buf c3 = d2"
    using s2 by (simp_all add: c3_def rc_finish_other rc_after_recv_other) (simp_all add: a_def rc_answer_other)
  obtain p2 where b: "rc_posted b = rc_posted a @ [p2]" "rc_echoes p2 (load_payload d2 0)"
    using rc_answer_echoes [of "c3\<lparr>rc_cq := []\<rparr>" v 0] c3 a(3) assms(6) by (auto simp: b_def)
  have "s3 = rc_take (rc_parse_server v) (\<lambda>s. s\<lparr>lpc := C_Next\<rparr>) ?w (pop_cq [?w] s2)"
    using rc_take_recv [OF _ refl a_def] assms(5) by (simp add: s3_def c3_def)
  then have step3: "rc_server_step v iters s2 s3" unfolding rc_server_step_def using s2(1,2) by (auto intro: rc_start)
  have "s4 = rc_take (rc_parse_server v) (rc_again iters) ?w (pop_cq [] s3)"
    using rc_take_recv [OF _ refl, where c = b and s = s3 and ws = "[]" and t = 0 and v = v] assms(5) by (simp add: s4_def b_def s3_def)
  then have step4: "rc_server_step v iters s3 s4"
    unfolding rc_server_step_def using c3(3) by (auto intro!: rc_next simp: s3_def)
  have "rc_posted (lctx s4) = rc_posted (lctx s) @ [p1, p2]"
    using a(1) b(1) by (simp add: s4_def rc_again_def rc_finish_other rc_after_recv_other)
  moreover have "rc_server_step v iters s (rc_deliver d1 s)" using rq assms(3) by (intro rc_deliver_step) simp_all
  moreover have "rc_server_step v iters (rc_deliver d1 s) s2"
    unfolding s2_def using rq assms(4) by (intro rc_deliver_step) (simp_all add: rc_deliver_def)
  moreover have "(rc_server_step v iters)\<^sup>*\<^sup>* s2 s4" using step3 step4 by simp
  ultimately show ?thesis using a(2) b(2) unfolding s2_def by blast
qed

theorem rc_shared_buffer_loses_ping_witness:
  "\<exists>s. rc_idle s \<and> (\<exists>s' p1 p2. (rc_server_step rc_good 9)\<^sup>*\<^sup>* (rc_deliver (replicate PACKET_SIZE 2) (rc_deliver (replicate PACKET_SIZE 1) s)) s'
    \<and> rc_posted (lctx s') = [p1, p2] \<and> rc_echoes p1 (load_payload (replicate PACKET_SIZE 2) 0))"
proof -
  note r = rc_ready_ok [OF rc_demo_ready(1) refl rc_demo_ready(2), of 9]
  have i: "rc_idle (rc_ready rc_good 9 rc_demo)" using r by (simp add: rc_idle_def rc_unread_def)
  have st: "lpc (rc_ready rc_good 9 rc_demo) = C_Start" using r(5) by simp
  from rc_shared_buffer_loses_ping [OF i st, of "replicate PACKET_SIZE 1" "replicate PACKET_SIZE 2" rc_good 9] i r(7) show ?thesis
    by (auto simp: rc_good_def)
qed

text \<open>the latency the reliable-connection client records is not a latency. The client stamps its pings in the second slot instead of the first,
  where the server overwrites it; the first timestamp of every reply is zero, so the value computed from a recorded payload is half
  of the absolute receiving time less the time at the server.\<close>

theorem rc_latency_lacks_start:
  assumes "length (rc_send_buf c) = PACKET_SIZE" and "rc_send_single_packet v i c = (0, c')"
    and "rc_echoes reply (load_payload (last (rc_posted c')) 0)"
  shows "ts0 (load_payload reply 0) = 0 \<and> pp_id (load_payload reply 0) = i
    \<and> compute_latency ((load_payload reply 0)\<lparr>ts3 := t\<rparr>) = (t - (ts2 (load_payload reply 0) - ts1 (load_payload reply 0))) div 2"
proof -
  let ?b = "store_ts (store_payload (rc_send_buf c) 0 (new_pingpong_payload i)) 0 (Suc 0)"
  have off: "0 + payload_size \<le> length (rc_send_buf c)" using assms(1) by (simp add: payload_size_def PACKET_SIZE_def)
  from assms(2) obtain u where "rc_posted c' = rc_posted c @ [take PACKET_SIZE (?b u)]"
    by (auto simp: rc_send_single_packet_def rc_post_send_def get_time_ns_eq Let_def split: if_splits)
  moreover have "length (?b u) = PACKET_SIZE" using off assms(1) by simp
  moreover have "load_payload (?b u) 0 = (new_pingpong_payload i)\<lparr>ts1 := u\<rparr>"
    using off by (simp add: load_store_ts load_store_payload)
  ultimately have "load_payload (last (rc_posted c')) 0 = (new_pingpong_payload i)\<lparr>ts1 := u\<rparr>" by simp
  with assms(3) obtain t1 t2 where "load_payload reply 0 = (new_pingpong_payload i)\<lparr>ts1 := t1, ts2 := t2\<rparr>"
    unfolding rc_echoes_def by auto
  then show ?thesis by (simp add: compute_latency_def)
qed

theorem rc_latency_lacks_start_witness:
  "\<exists>c' reply. rc_send_single_packet rc_good 7 rc_demo = (0, c') \<and> ts0 (load_payload reply 0) = 0 \<and> pp_id (load_payload reply 0) = 7"
proof -
  let ?c = "snd (rc_send_single_packet rc_good 7 rc_demo)"
  have s: "rc_send_single_packet rc_good 7 rc_demo = (0, ?c)"
    by (simp add: rc_send_single_packet_def rc_post_send_def rc_good_def Let_def prod_eq_iff)
  have len: "length (rc_send_buf rc_demo) = PACKET_SIZE" by (simp add: rc_demo_def world.extend_def)
  let ?b = "rc_send_buf rc_demo"
  have off: "0 + payload_size \<le> length ?b" using len by (simp add: payload_size_def PACKET_SIZE_def)
  let ?r = "store_payload ?b 0 (load_payload (last (rc_posted ?c)) 0)"
  have "load_payload ?r 0 = (load_payload (last (rc_posted ?c)) 0)
      \<lparr>ts1 := ts1 (load_payload (last (rc_posted ?c)) 0), ts2 := ts2 (load_payload (last (rc_posted ?c)) 0)\<rparr>"
    using off by (simp add: load_store_payload)
  moreover have "length ?r = PACKET_SIZE" using off len by simp
  ultimately have "rc_echoes ?r (load_payload (last (rc_posted ?c)) 0)" unfolding rc_echoes_def by blast
  from rc_latency_lacks_start [OF len s this] s show ?thesis by blast
qed

text \<open>the cleanup of \<^verbatim>\<open>pp_init_context\<close> releases everything it acquired, once each, with one exception: when the registration of the send buffer fails, the memory region of the receive buffer is not
  deregistered. Closing a context releases every resource once.\<close>

theorem rc_init_cleanup:
  assumes "rc_init_context ok query modify_ok = (b, acquired, released)"
  shows "if b then released = [] \<and> set (snd (rc_close_context (\<lambda>_. True))) = set acquired \<and> distinct (snd (rc_close_context (\<lambda>_. True)))
    else distinct released \<and> set acquired - set released = (if last (C_ctx # acquired) = C_recv_mr then {C_recv_mr} else {})"
  using assms
  by (auto simp: rc_init_context_def rc_close_context_def rc_clean_ctx_def rc_clean_buf_def rc_clean_device_def rc_clean_pd_def
      rc_clean_mr_def rc_clean_cq_def rc_clean_qp_def split: if_splits)

theorem rc_init_cleanup_witness:
  "\<exists>acquired released. rc_init_context (\<lambda>r. r \<noteq> C_send_mr) (Some 1) True = (False, acquired, released) \<and> set acquired - set released = {C_recv_mr}"
proof -
  obtain acq rel where r: "rc_init_context (\<lambda>r. r \<noteq> C_send_mr) (Some 1) True = (False, acq, rel)" and l: "last (C_ctx # acq) = C_recv_mr"
    by (simp add: rc_init_context_def)
  from rc_init_cleanup [OF r] l r show ?thesis by auto
qed

end
