(* ===== verification/Rdma_Net.thy ===== *)
theory Rdma_Net
  imports Net
begin

text \<open>
  The connection set-up that the two RDMA programs share or do in parallel: finding the device and the local information
  (\<^verbatim>\<open>rdma/src/ib_net.c\<close>), the translation of the packet size to the enumeration of the verbs library (\<^verbatim>\<open>rdma/src/pingpong.c\<close>), the struct
  that the peers exchange through \<^verbatim>\<open>exchange_data\<close> of \<^verbatim>\<open>common/net.c\<close>, and the two versions of \<^verbatim>\<open>pp_ib_connect\<close>.

  The answers of the verbs library are parameters. A queue pair is the part of its attributes that the programs set; a failing
  \<^verbatim>\<open>ibv_modify_qp\<close> leaves it as it was.
\<close>

section \<open>Definitions\<close>

record ib_node_info =
  lid :: u32
  qpn :: u32
  psn :: u32
  gid :: bytes

text \<open>The struct in memory: three 32-bit integers, four bytes of padding before the union, which is aligned to eight bytes.\<close>

definition node_info_size :: nat where "node_info_size = 32"

definition node_info_bytes :: "bytes \<Rightarrow> ib_node_info \<Rightarrow> bytes" where
  "node_info_bytes pad i = bytes_of_word 4 (lid i) @ bytes_of_word 4 (qpn i) @ bytes_of_word 4 (psn i) @ pad @ gid i"

definition node_info_of_bytes :: "bytes \<Rightarrow> ib_node_info" where
  "node_info_of_bytes bs =
     \<lparr>lid = word_of_bytes (mread bs 0 4), qpn = word_of_bytes (mread bs 4 4), psn = word_of_bytes (mread bs 8 4), gid = mread bs 16 16\<rparr>"

text \<open>\<^verbatim>\<open>ibv_get_device_list\<close> returns nothing or the names of the devices; the result is the position of the device.\<close>

fun scan_devices :: "string \<Rightarrow> nat \<Rightarrow> string list \<Rightarrow> nat option" where
  "scan_devices name i [] = None"
| "scan_devices name i (d # ds) = (if d = name then Some i else scan_devices name (i + 1) ds)"

definition ib_device_find_by_name :: "string list option \<Rightarrow> string \<Rightarrow> nat option" where
  "ib_device_find_by_name dev_list name = (case dev_list of None \<Rightarrow> None | Some ds \<Rightarrow> scan_devices name 0 ds)"

record port_attr =
  pa_lid :: u16
  pa_ethernet :: bool

definition ib_get_local_info ::
  "port_attr option \<Rightarrow> bytes option \<Rightarrow> u32 \<Rightarrow> u64 \<Rightarrow> ib_node_info \<Rightarrow> int \<times> ib_node_info" where
  "ib_get_local_info query_port query_gid qp_num rand out =
     (case query_port of
        None \<Rightarrow> (1, out)
      | Some port_info \<Rightarrow>
          let out = out\<lparr>lid := ucast (pa_lid port_info)\<rparr> in
          if \<not> pa_ethernet port_info \<and> lid out = 0 then (1, out)
          else (case query_gid of
                  None \<Rightarrow> (1, out)
                | Some g \<Rightarrow> (0, out\<lparr>gid := g, qpn := qp_num, psn := ucast (rand AND 0xffffff)\<rparr>)))"

definition pp_mtu_to_enum :: "int \<Rightarrow> nat" where
  "pp_mtu_to_enum mtu =
     (if mtu = 256 then 1 else if mtu = 512 then 2 else if mtu = 1024 then 3 else if mtu = 2048 then 4
      else if mtu = 4096 then 5 else 0)"

subsection \<open>Queue pairs\<close>

datatype qp_state = QPS_INIT | QPS_RTR | QPS_RTS

record ah_attr =
  is_global :: bool
  dlid :: u32
  dgid :: bytes
  sgid_index :: int
  hop_limit :: nat

record qp_attr =
  q_state :: qp_state
  q_path_mtu :: nat
  q_dest_qpn :: u32
  q_rq_psn :: u32
  q_sq_psn :: u32
  q_ah :: "ah_attr option"

text \<open>\<^verbatim>\<open>dest->gid.global.interface_id\<close>: the second half of the identifier.\<close>

definition interface_id :: "bytes \<Rightarrow> u64" where
  "interface_id g = word_of_bytes (mread g 8 8)"

definition dest_ah :: "ib_node_info \<Rightarrow> int \<Rightarrow> ah_attr" where
  "dest_ah dest gid_idx =
     (let ah = \<lparr>is_global = False, dlid = lid dest, dgid = [], sgid_index = 0, hop_limit = 0\<rparr> in
      if interface_id (gid dest) \<noteq> 0
      then ah\<lparr>is_global := True, dgid := gid dest, sgid_index := gid_idx, hop_limit := 1\<rparr> else ah)"

text \<open>\<open>m1\<close> and \<open>m2\<close> are the results of the two calls of \<^verbatim>\<open>ibv_modify_qp\<close>.\<close>

definition rc_ib_connect :: "int \<Rightarrow> int \<Rightarrow> u32 \<Rightarrow> nat \<Rightarrow> ib_node_info \<Rightarrow> int \<Rightarrow> qp_attr \<Rightarrow> int \<times> qp_attr" where
  "rc_ib_connect m1 m2 local_psn mtu dest gid_idx qp =
     (if m1 \<noteq> 0 then (1, qp)
      else
        let qp = qp\<lparr>q_state := QPS_RTR, q_path_mtu := mtu, q_dest_qpn := qpn dest, q_rq_psn := psn dest, q_ah := Some (dest_ah dest gid_idx)\<rparr> in
        if m2 \<noteq> 0 then (1, qp) else (0, qp\<lparr>q_state := QPS_RTS, q_sq_psn := local_psn\<rparr>))"

text \<open>The datagram version creates the address handle itself: \<open>ah_ok\<close> is whether \<^verbatim>\<open>ibv_create_ah\<close> succeeds.\<close>

definition ud_ib_connect :: "int \<Rightarrow> int \<Rightarrow> bool \<Rightarrow> int \<Rightarrow> ib_node_info \<Rightarrow> ib_node_info \<Rightarrow> qp_attr \<Rightarrow> int \<times> qp_attr \<times> ah_attr option" where
  "ud_ib_connect m1 m2 ah_ok gidx local dest qp =
     (if m1 \<noteq> 0 then (1, qp, None)
      else
        let qp = qp\<lparr>q_state := QPS_RTR\<rparr> in
        if m2 \<noteq> 0 then (1, qp, None)
        else
          let qp = qp\<lparr>q_state := QPS_RTS, q_sq_psn := psn local\<rparr> in
          if \<not> ah_ok then (1, qp, None) else (0, qp, Some (dest_ah dest gidx)))"

subsection \<open>Set-up of one end\<close>

record peer_env =
  p_port :: "port_attr option"
  p_gid :: "bytes option"
  p_qp_num :: u32
  p_rand :: u64
  p_pad :: bytes
  p_xchg :: xchg_env
  p_modify1 :: int
  p_modify2 :: int

text \<open>The middle part of \<^verbatim>\<open>main\<close> in \<^verbatim>\<open>rc_pingpong.c\<close>: local information, exchange, connection. The exit code (\<open>None\<close> when the program goes on), the queue
  pair, the local and the remote information, and the datagram sent. \<open>junk\<close> is the uninitialised \<^verbatim>\<open>remote_info\<close>.\<close>

definition rc_setup ::
  "'a peer_env_scheme \<Rightarrow> bool \<Rightarrow> int \<Rightarrow> ib_node_info \<Rightarrow> bytes \<Rightarrow> qp_attr \<Rightarrow>
   int option \<times> qp_attr \<times> ib_node_info \<times> ib_node_info \<times> bytes option" where
  "rc_setup env is_server gid_idx out junk qp =
     (case ib_get_local_info (p_port env) (p_gid env) (p_qp_num env) (p_rand env) out of
        (r, local) \<Rightarrow>
          if r \<noteq> 0 then (Some 1, qp, local, node_info_of_bytes junk, None)
          else
            (case exchange_data (p_xchg env) is_server node_info_size (node_info_bytes (p_pad env) local) junk of
               (r, buf, d) \<Rightarrow>
                 let remote = node_info_of_bytes buf in
                 if r \<noteq> 0 then (Some 1, qp, local, remote, d)
                 else
                   (case rc_ib_connect (p_modify1 env) (p_modify2 env) (psn local) (pp_mtu_to_enum (int PACKET_SIZE)) remote gid_idx qp of
                      (_, qp) \<Rightarrow> (None, qp, local, remote, d))))"

section \<open>The exchanged struct\<close>

lemma node_info_roundtrip:
  assumes "length pad = 4" and "length (gid i) = 16"
  shows "length (node_info_bytes pad i) = node_info_size" and "node_info_of_bytes (node_info_bytes pad i) = i"
  using assms by (simp_all add: node_info_bytes_def node_info_of_bytes_def node_info_size_def mread_append)

lemma recv_into_full: "length d = n \<Longrightarrow> length j = n \<Longrightarrow> recv_into j n d = d"
  by (simp add: recv_into_def mwrite_def)

lemma exchange_data_ok:
  "exchange_data env srv n buf j = (0, out, d) \<Longrightarrow> d = Some (take n buf) \<and> (\<exists>m. x_recv env = Some m \<and> out = recv_into j n m)"
  by (auto simp: exchange_data_def Let_def split: if_splits option.splits)

lemma local_info_ok:
  assumes "ib_get_local_info pa g q r out = (0, i)"
  shows "Some (gid i) = g \<and> qpn i = q \<and> unat (psn i) < 2 ^ 24"
proof -
  have "unat (ucast (r AND 0xffffff) :: u32) < 2 ^ 24"
  proof -
    have "r AND 0xffffff = take_bit 24 r" by (simp add: take_bit_eq_mask mask_eq_exp_minus_1)
    then show ?thesis by (simp add: unsigned_ucast_eq unsigned_take_bit_eq take_bit_nat_def)
  qed
  then show ?thesis using assms by (auto simp: ib_get_local_info_def Let_def split: option.splits if_splits)
qed

text \<open>What a successful set-up has done.\<close>

lemma rc_setup_ok:
  assumes "rc_setup env srv gx out junk qp = (None, qp', local, remote, d)" and "p_modify1 env = 0" and "p_modify2 env = 0"
  shows "d = Some (take node_info_size (node_info_bytes (p_pad env) local)) \<and> Some (gid local) = p_gid env \<and> unat (psn local) < 2 ^ 24
    \<and> qpn local = p_qp_num env
    \<and> (\<exists>m. x_recv (p_xchg env) = Some m \<and> remote = node_info_of_bytes (recv_into junk node_info_size m))
    \<and> q_state qp' = QPS_RTS \<and> q_path_mtu qp' = 3 \<and> q_dest_qpn qp' = qpn remote \<and> q_rq_psn qp' = psn remote \<and> q_sq_psn qp' = psn local"
proof -
  obtain r1 i where g: "ib_get_local_info (p_port env) (p_gid env) (p_qp_num env) (p_rand env) out = (r1, i)" by (metis surj_pair)
  obtain r2 buf d2 where x: "exchange_data (p_xchg env) srv node_info_size (node_info_bytes (p_pad env) i) junk = (r2, buf, d2)"
    by (metis prod_cases3)
  from assms(1) g x have r: "r1 = 0" "r2 = 0" "local = i" "d = d2" "remote = node_info_of_bytes buf"
    "qp' = snd (rc_ib_connect (p_modify1 env) (p_modify2 env) (psn i) (pp_mtu_to_enum (int PACKET_SIZE)) remote gx qp)"
    by (auto simp: rc_setup_def Let_def split: if_splits prod.splits)
  from exchange_data_ok [OF x [unfolded r(2)]] local_info_ok [OF g [unfolded r(1)]] r assms(2,3) show ?thesis
    by (auto simp: rc_ib_connect_def Let_def pp_mtu_to_enum_def PACKET_SIZE_def)
qed

section \<open>Properties\<close>

text \<open>C29: the two ends of a reliable connection agree. If client and server set themselves up without a failing call and each receives the
  datagram the other sent, then both queue pairs are ready to send, each names the other as its destination, and the sequence number
  each expects first is the one the other starts with, a 24-bit number.\<close>

theorem rc_peers_agree:
  assumes "rc_setup ce False cg co cj cq0 = (None, cq, cl, cr, cd)" and "rc_setup se True sg so sj sq0 = (None, sq, sl, sr, sd)"
    and "p_modify1 ce = 0" "p_modify2 ce = 0" "p_modify1 se = 0" "p_modify2 se = 0"
    and "x_recv (p_xchg ce) = sd" and "x_recv (p_xchg se) = cd"
    and "length (p_pad ce) = 4" "length (p_pad se) = 4" "length cj = node_info_size" "length sj = node_info_size"
    and "\<And>g. p_gid ce = Some g \<Longrightarrow> length g = 16" and "\<And>g. p_gid se = Some g \<Longrightarrow> length g = 16"
  shows "cr = sl \<and> sr = cl \<and> q_state cq = QPS_RTS \<and> q_state sq = QPS_RTS \<and> q_dest_qpn cq = p_qp_num se \<and> q_dest_qpn sq = p_qp_num ce
    \<and> q_rq_psn cq = q_sq_psn sq \<and> q_rq_psn sq = q_sq_psn cq \<and> q_path_mtu cq = q_path_mtu sq
    \<and> unat (q_sq_psn cq) < 2 ^ 24 \<and> unat (q_sq_psn sq) < 2 ^ 24"
proof -
  note c = rc_setup_ok [OF assms(1,3,4)] and s = rc_setup_ok [OF assms(2,5,6)]
  have lc: "length (gid cl) = 16" and ls: "length (gid sl) = 16" using c s assms(13,14) by (auto dest: sym)
  have d: "cd = Some (node_info_bytes (p_pad ce) cl)" "sd = Some (node_info_bytes (p_pad se) sl)"
    using c s node_info_roundtrip(1) [OF assms(9) lc] node_info_roundtrip(1) [OF assms(10) ls] by simp_all
  have "cr = sl"
    using c assms(7,11) d(2) node_info_roundtrip [OF assms(10) ls] by (auto simp: recv_into_full)
  moreover have "sr = cl"
    using s assms(8,12) d(1) node_info_roundtrip [OF assms(9) lc] by (auto simp: recv_into_full)
  ultimately show ?thesis using c s by simp
qed

definition demo_node :: "u32 \<Rightarrow> ib_node_info" where
  "demo_node q = \<lparr>lid = 1, qpn = q, psn = 5, gid = replicate 16 1\<rparr>"

definition demo_peer :: "u32 \<Rightarrow> u32 \<Rightarrow> peer_env" where
  "demo_peer q r = \<lparr>p_port = Some \<lparr>pa_lid = 1, pa_ethernet = True\<rparr>, p_gid = Some (replicate 16 1), p_qp_num = q, p_rand = 5,
     p_pad = replicate 4 0, p_xchg = demo_xchg (node_info_bytes (replicate 4 0) (demo_node r)), p_modify1 = 0, p_modify2 = 0\<rparr>"

definition demo_qp :: qp_attr where
  "demo_qp = \<lparr>q_state = QPS_INIT, q_path_mtu = 0, q_dest_qpn = 0, q_rq_psn = 0, q_sq_psn = 0, q_ah = None\<rparr>"

lemma demo_setup:
  "\<exists>qp. rc_setup (demo_peer q r) srv 0 (demo_node 0) (replicate 32 0) demo_qp
    = (None, qp, demo_node q, demo_node r, Some (node_info_bytes (replicate 4 0) (demo_node q)))"
proof -
  have n: "length (node_info_bytes (replicate 4 0) (demo_node x)) = 32" "node_info_of_bytes (node_info_bytes (replicate 4 0) (demo_node x)) = demo_node x" for x
    using node_info_roundtrip [of "replicate 4 0" "demo_node x"] by (simp_all add: demo_node_def node_info_size_def)
  have g: "ib_get_local_info (Some \<lparr>pa_lid = 1, pa_ethernet = True\<rparr>) (Some (replicate 16 1)) q 5 (demo_node 0) = (0, demo_node q)"
    by (simp add: ib_get_local_info_def demo_node_def Let_def)
  have x: "exchange_data (demo_xchg (node_info_bytes (replicate 4 0) (demo_node r))) srv node_info_size (node_info_bytes (replicate 4 0) (demo_node q)) (replicate 32 0)
      = (0, node_info_bytes (replicate 4 0) (demo_node r), Some (node_info_bytes (replicate 4 0) (demo_node q)))"
    using n by (simp add: exchange_data_def demo_xchg_def node_info_size_def recv_into_full Let_def)
  show ?thesis by (simp add: rc_setup_def demo_peer_def g x n Let_def split: prod.splits)
qed

theorem rc_peers_agree_witness:
  "\<exists>cq sq cd sd. rc_setup (demo_peer 10 20) False 0 (demo_node 0) (replicate 32 0) demo_qp = (None, cq, demo_node 10, demo_node 20, cd)
    \<and> rc_setup (demo_peer 20 10) True 0 (demo_node 0) (replicate 32 0) demo_qp = (None, sq, demo_node 20, demo_node 10, sd)
    \<and> q_dest_qpn cq = 20 \<and> q_dest_qpn sq = 10 \<and> q_rq_psn cq = q_sq_psn sq"
proof -
  obtain cq where c: "rc_setup (demo_peer 10 20) False 0 (demo_node 0) (replicate 32 0) demo_qp
    = (None, cq, demo_node 10, demo_node 20, Some (node_info_bytes (replicate 4 0) (demo_node 10)))" using demo_setup by blast
  obtain sq where s: "rc_setup (demo_peer 20 10) True 0 (demo_node 0) (replicate 32 0) demo_qp
    = (None, sq, demo_node 20, demo_node 10, Some (node_info_bytes (replicate 4 0) (demo_node 20)))" using demo_setup by blast
  from rc_peers_agree [OF c s] c s show ?thesis by (simp add: demo_peer_def demo_xchg_def node_info_size_def)
qed

end
