(* ===== verification/Rdma_Main.thy ===== *)
theory Rdma_Main
  imports Rdma_UD_Client Rdma_RC Rdma_Net Args
begin

text \<open>
  The \<^verbatim>\<open>main\<close> functions of the two RDMA programs (\<^verbatim>\<open>rdma/ud_pingpong.c\<close>, \<^verbatim>\<open>rdma/rc_pingpong.c\<close>) around their loops: arguments, persistence agent,
  device, resources, exchange of the node information, connection, and the cleanup.

  Next to its result a set-up function returns what was acquired and what was released, in order, so that the resources a run still holds can be
  counted.
\<close>

section \<open>Definitions\<close>

subsection \<open>Unreliable datagrams\<close>

text \<open>The answers of the system: the devices, the outcome of every allocation and release, of the address handle, and \<open>ud_ah_junk\<close>, whether
  the field \<^verbatim>\<open>ah\<close> of the freshly allocated context happens to be non-null. \<open>ud_fresh\<close> is the context that \<^verbatim>\<open>pp_init_context\<close> builds.\<close>

record ud_env = peer_env +
  ud_devices :: "string list option"
  ud_alloc :: "ud_res \<Rightarrow> bool"
  ud_modify_ok :: bool
  ud_close_ok :: "ud_res \<Rightarrow> bool"
  ud_ah_ok :: bool
  ud_ah_junk :: bool
  ud_local :: ib_node_info
  ud_remote :: bytes
  ud_qp :: qp_attr
  ud_fresh :: ud_ctx
  ud_init_env :: init_env
  ud_malloc :: bool
  ud_pthread_create :: int

text \<open>\<^verbatim>\<open>pp_close_context\<close> on a context whose \<^verbatim>\<open>ah\<close> was never set: undefined when the call gets that far and the field is not null.\<close>

definition ud_close_unset :: "ud_env \<Rightarrow> 'a main_out \<times> ud_res list" where
  "ud_close_unset env =
     (case release_until (ud_close_ok env) [R_qp, R_cq, R_recv_mr, R_send_mr] of
        (False, l) \<Rightarrow> (Exit 1, l)
      | (True, l) \<Rightarrow> if ud_ah_junk env then (Undefined, l) else (Exit 1, snd (pp_close_context (ud_close_ok env) False)))"

text \<open>Local information, exchange and connection. \<open>None\<close> when all succeed; otherwise whether the field \<^verbatim>\<open>ah\<close> has been set (to null).\<close>

definition ud_link :: "ud_env \<Rightarrow> bool \<Rightarrow> opts \<Rightarrow> bool option" where
  "ud_link env is_server op =
     (case ib_get_local_info (p_port env) (p_gid env) (p_qp_num env) (p_rand env) (ud_local env) of
        (r, local) \<Rightarrow>
          if r \<noteq> 0 then Some False
          else
            (case exchange_data (p_xchg env) is_server node_info_size (node_info_bytes (p_pad env) local) (ud_remote env) of
               (r, buf, _) \<Rightarrow>
                 if r \<noteq> 0 then Some False
                 else
                   (case ud_ib_connect (p_modify1 env) (p_modify2 env) (ud_ah_ok env) (o_gidx op) local (node_info_of_bytes buf) (ud_qp env) of
                      (r, _, ah) \<Rightarrow> if r \<noteq> 0 then Some (p_modify1 env = 0 \<and> p_modify2 env = 0) else None)))"

text \<open>\<^verbatim>\<open>main\<close> from the search for the device to the last of the initial receives.\<close>

definition ud_setup :: "ud_env \<Rightarrow> verbs \<Rightarrow> bool \<Rightarrow> opts \<Rightarrow> ud_ctx main_out \<times> ud_res list \<times> ud_res list" where
  "ud_setup env v is_server op =
     (case ib_device_find_by_name (ud_devices env) (case o_dev op of None \<Rightarrow> [] | Some d \<Rightarrow> d) of
        None \<Rightarrow> (Exit 1, [], [])
      | Some _ \<Rightarrow>
          (case pp_init_context (ud_alloc env) (ud_modify_ok env) of
             (created, acq, rel) \<Rightarrow>
               if \<not> created then (Exit 1, acq, rel)
               else
                 (case ud_link env is_server op of
                    Some ah_set \<Rightarrow>
                      (if ah_set then (Exit 1, acq, snd (pp_close_context (ud_close_ok env) False))
                       else (case ud_close_unset env of (out, l) \<Rightarrow> (out, acq, l)))
                  | None \<Rightarrow>
                      (case post_all v [0..<QUEUE_SIZE]
                          ((ud_fresh env)\<lparr>pending_send := BITSET_INIT (pending_send (ud_fresh env)) QUEUE_SIZE\<rparr>) of
                         (posted_all, c) \<Rightarrow>
                           if \<not> posted_all then (Exit 1, acq @ [R_ah], snd (pp_close_context (ud_close_ok env) True))
                           else (Run c, acq @ [R_ah], [])))))"

definition ud_opts :: opts where
  "ud_opts = \<lparr>o_dev = None, o_remove = False, o_gidx = 0, o_iters = 0, o_interval = 0, o_server_ip = None, o_pers_flags = 0\<rparr>"


definition ud_main_client ::
  "ud_env \<Rightarrow> verbs \<Rightarrow> string list \<Rightarrow> (u64 \<times> ud_client \<times> sender_data option) main_out \<times> ud_res list \<times> ud_res list" where
  "ud_main_client env v argv =
     (case ib_client_parse_args argv ud_opts of
        (ok, op) \<Rightarrow>
          if \<not> ok then (Exit 1, [], [])
          else
            (case persistence_init (ud_init_env env) (Some ''ud.dat'') (o_pers_flags op) (o_interval op) of
               None \<Rightarrow> (Undefined, [], [])
             | Some None \<Rightarrow> (Exit 1, [], [])
             | Some (Some ag) \<Rightarrow>
                 (case ud_setup env v False op of
                    (Run c, h) \<Rightarrow>
                      (Run (o_iters op, \<lparr>cctx = c, cagent = ag, cpc = U_Run, cexit = False, crecv_idx = 0, cgot = [], cwrote = []\<rparr>,
                         snd (start_sending_packets (ud_malloc env) (ud_pthread_create env) (o_iters op) (o_interval op)
                           (Some (send_buf c)) None)), h)
                  | (Exit r, h) \<Rightarrow> (Exit r, h)
                  | (Undefined, h) \<Rightarrow> (Undefined, h))))"

text \<open>From the label \<^verbatim>\<open>done\<close> on: the exit code, the result of closing the agent, and what was released.\<close>

definition ud_main_done :: "(ud_res \<Rightarrow> bool) \<Rightarrow> persistence_agent option \<Rightarrow> int \<times> (int \<times> cfile option \<times> bool) option \<times> ud_res list" where
  "ud_main_done close_ok ag =
     (let closed = (case ag of None \<Rightarrow> None | Some a \<Rightarrow> agent_close a) in
      case pp_close_context close_ok True of (r, l) \<Rightarrow> (if r \<noteq> 0 then 1 else 0, closed, l))"

text \<open>The end of \<^verbatim>\<open>main\<close>, for the point the loop has stopped at: through the label \<^verbatim>\<open>done\<close>, or at once after a failing \<^verbatim>\<open>ibv_poll_cq\<close>, with the agent
  not closed and nothing released; \<open>None\<close> while the loop runs.\<close>

definition ud_main_end ::
  "(ud_res \<Rightarrow> bool) \<Rightarrow> ud_pc \<Rightarrow> persistence_agent option \<Rightarrow> (int \<times> (int \<times> cfile option \<times> bool) option \<times> ud_res list) option" where
  "ud_main_end close_ok pc ag =
     (case pc of U_Done \<Rightarrow> Some (ud_main_done close_ok ag) | U_Fail \<Rightarrow> Some (1, None, []) | _ \<Rightarrow> None)"

subsection \<open>The reliable connection\<close>

record rc_env = peer_env +
  rce_devices :: "string list option"
  rce_alloc :: "rc_res \<Rightarrow> bool"
  rce_query :: "u64 option"
  rce_modify_ok :: bool
  rce_local :: ib_node_info
  rce_remote :: bytes
  rce_qp :: qp_attr
  rce_fresh :: rc_ctx
  rce_init :: init_env
  rce_malloc :: bool
  rce_pthread_create :: int

text \<open>\<^verbatim>\<open>main\<close> from the search for the device to the connection: the early returns release nothing.\<close>

definition rc_main_setup :: "rc_env \<Rightarrow> bool \<Rightarrow> opts \<Rightarrow> int option \<times> rc_res list \<times> rc_res list" where
  "rc_main_setup env is_server op =
     (case ib_device_find_by_name (rce_devices env) (case o_dev op of None \<Rightarrow> [] | Some d \<Rightarrow> d) of
        None \<Rightarrow> (Some 1, [], [])
      | Some _ \<Rightarrow>
          (case rc_init_context (rce_alloc env) (rce_query env) (rce_modify_ok env) of
             (False, acq, rel) \<Rightarrow> (Some 1, acq, rel)
           | (True, acq, _) \<Rightarrow>
               (case rc_setup env is_server (o_gidx op) (rce_local env) (rce_remote env) (rce_qp env) of
                  (out, _) \<Rightarrow> (out, acq, []))))"

definition rc_main_server :: "rc_env \<Rightarrow> rc_verbs \<Rightarrow> string list \<Rightarrow> (u64 \<times> rc_loop) main_out \<times> rc_res list \<times> rc_res list" where
  "rc_main_server env v argv =
     (case ib_server_parse_args argv ud_opts of
        (ok, op) \<Rightarrow>
          if \<not> ok then (Exit 1, [], [])
          else
            (case rc_main_setup env True op of
               (Some r, h) \<Rightarrow> (Exit r, h)
             | (None, h) \<Rightarrow> (Run (o_iters op, rc_ready v (o_iters op) ((rce_fresh env)\<lparr>rc_agent := None\<rparr>)), h)))"

definition rc_main_client ::
  "rc_env \<Rightarrow> rc_verbs \<Rightarrow> string list \<Rightarrow> (u64 \<times> rc_loop \<times> sender_data option) main_out \<times> rc_res list \<times> rc_res list" where
  "rc_main_client env v argv =
     (case ib_client_parse_args argv (ud_opts\<lparr>o_pers_flags := PERSISTENCE_M_ALL_TIMESTAMPS\<rparr>) of
        (ok, op) \<Rightarrow>
          if \<not> ok then (Exit 1, [], [])
          else
            (case persistence_init (rce_init env) (Some ''rc.dat'') (o_pers_flags op) (o_interval op) of
               None \<Rightarrow> (Undefined, [], [])
             | Some None \<Rightarrow> (Exit 1, [], [])
             | Some (Some ag) \<Rightarrow>
                 (case rc_main_setup env False op of
                    (Some r, h) \<Rightarrow> (Exit r, h)
                  | (None, h) \<Rightarrow>
                      (let s = rc_ready v (o_iters op) ((rce_fresh env)\<lparr>rc_agent := Some ag\<rparr>) in
                       (Run (o_iters op, s,
                          snd (start_sending_packets (rce_malloc env) (rce_pthread_create env) (o_iters op) (o_interval op)
                            (Some (rc_send_buf (lctx s))) None)), h)))))"

text \<open>After the loop: the exit code, the result of closing the agent, and what was released; \<open>None\<close> while the loop runs. A failure inside the loop
  returns at once.\<close>

definition rc_main_end :: "(rc_res \<Rightarrow> bool) \<Rightarrow> rc_loop \<Rightarrow> (int \<times> (int \<times> cfile option \<times> bool) option \<times> rc_res list) option" where
  "rc_main_end close_ok s =
     (case lpc s of
        C_Fail \<Rightarrow> Some (1, None, [])
      | C_Done \<Rightarrow>
          (case rc_close_context close_ok of
             (r, l) \<Rightarrow>
               if r \<noteq> 0 then Some (1, None, l)
               else Some (0, (case rc_agent (lctx s) of None \<Rightarrow> None | Some ag \<Rightarrow> agent_close ag), l))
      | _ \<Rightarrow> None)"

section \<open>Lemmas\<close>

lemma release_until_all: "(\<And>r. r \<in> set rs \<Longrightarrow> ok r) \<Longrightarrow> release_until ok rs = (True, rs)"
  by (induction rs) simp_all

lemma close_all:
  assumes "\<And>r. ok r"
  shows "pp_close_context ok ah = (0, [R_qp, R_cq, R_recv_mr, R_send_mr] @ (if ah then [R_ah] else []) @ [R_pd, R_context, R_recv_bufs, R_send_buf, R_ctx])"
  using assms by (simp add: pp_close_context_def release_until_all)








text \<open>The states the loops start in are those of the step machines.\<close>

lemma ud_setup_run:
  assumes "ud_setup env v is_server op = (Run c, h)"
  shows "post_all v [0..<QUEUE_SIZE] ((ud_fresh env)\<lparr>pending_send := BITSET_INIT (pending_send (ud_fresh env)) QUEUE_SIZE\<rparr>) = (True, c)"
  using assms by (auto simp: ud_setup_def ud_close_unset_def split: option.splits prod.splits if_splits)

section \<open>Properties\<close>


definition demo_ud_env :: ud_env where
  "demo_ud_env = peer_env.extend (demo_peer 10 20)
     \<lparr>ud_devices = Some [''mlx5_0''], ud_alloc = \<lambda>_. True, ud_modify_ok = True, ud_close_ok = \<lambda>_. True, ud_ah_ok = True, ud_ah_junk = False,
      ud_local = demo_node 0, ud_remote = replicate 32 0, ud_qp = demo_qp, ud_fresh = demo_ctx, ud_init_env = demo_env, ud_malloc = True,
      ud_pthread_create = 0\<rparr>"



text \<open>C13: a whole run of the datagram client, from the command line to the output file. Given well-formed arguments and a system that answers,
  \<^verbatim>\<open>main\<close> starts the loop and the sender thread, and in every state that the client's two threads and the adapter can then reach, closing the agent
  leaves a file that is read back as the identifiers and time stamps of the received packets, once each, in order, with only the last time
  stamp replaced. \<^verbatim>\<open>main\<close> closes it when the loop is left through the label \<^verbatim>\<open>done\<close>, but not when \<^verbatim>\<open>ibv_poll_cq\<close> fails.\<close>

theorem ud_client_end_to_end:
  assumes "0 < n" "n < 2 ^ 63" "0 < i" "i < 2 ^ 31" "g < 2 ^ 31" and "e_malloc_agent (ud_init_env env)" "e_malloc_data (ud_init_env env)"
    and "e_fopen (ud_init_env env) = Some f" "\<not> f_write_fails f" "\<not> f_close_fails f" "f_out f = ''''"
    and "ud_init (ud_fresh env)" "length (send_buf (ud_fresh env)) = PACKET_SIZE"
    and "ud_main_client env v [''--dev'', dev, ''-g'', show_nat g, ''-p'', show_nat n, ''-i'', show_nat i, ''-s'', ip, ''-m'', show_nat 0]
      = (Run (iters, s0, d), acq, rel)"
  shows "iters = of_nat n \<and> (ud_malloc env \<and> ud_pthread_create env = 0 \<longrightarrow> (\<exists>sd. d = Some sd \<and> s_iters sd = of_nat n \<and> s_interval sd = of_nat i))
    \<and> (\<exists>ag. s0 = udc_ready v (ud_fresh env) ag \<and> (\<forall>s. udc_reach v iters (ud_fresh env) ag s \<longrightarrow>
        list_all2 recorded_pong (cwrote s) (cgot s)
        \<and> (\<exists>f'. fst (snd (ud_main_done (ud_close_ok env) (Some (cagent s)))) = Some (0, Some f', True)
             \<and> parse_dat (f_out f') = map (map unat \<circ> dat_words) (cwrote s))
        \<and> (cpc s = U_Done \<longrightarrow> ud_main_end (ud_close_ok env) (cpc s) (Some (cagent s)) = Some (ud_main_done (ud_close_ok env) (Some (cagent s))))
        \<and> (cpc s = U_Fail \<longrightarrow> ud_main_end (ud_close_ok env) (cpc s) (Some (cagent s)) = Some (1, None, []))))"
proof -
  have fl: "word_of_int (pers_measurement_to_flag 0) = (PERSISTENCE_M_ALL_TIMESTAMPS :: u32)" by (simp add: pers_measurement_to_flag_def)
  have m0: "(0 :: nat) < 2 ^ 31" by simp
  obtain ag where ag: "persistence_init (ud_init_env env) (Some ''ud.dat'') PERSISTENCE_M_ALL_TIMESTAMPS (of_nat i) = Some (Some ag)"
    using assms(6-8) by (simp add: persistence_init_def persistence_init0_def flag_defs Let_def)
  define op where "op = ud_opts\<lparr>o_iters := of_nat n, o_interval := of_nat i, o_server_ip := Some ip, o_pers_flags := PERSISTENCE_M_ALL_TIMESTAMPS,
    o_dev := Some dev, o_gidx := int g\<rparr>"
  have op: "o_iters op = of_nat n" "o_interval op = of_nat i" "o_pers_flags op = PERSISTENCE_M_ALL_TIMESTAMPS" by (simp_all add: op_def)
  have p: "ib_client_parse_args [''--dev'', dev, ''-g'', show_nat g, ''-p'', show_nat n, ''-i'', show_nat i, ''-s'', ip, ''-m'', show_nat 0] ud_opts = (True, op)"
    using ib_client_args_parse [OF assms(1-4) m0 assms(5), of dev ip ud_opts] by (simp add: fl op_def)
  obtain out h where s: "ud_setup env v False op = (out, h)" by (cases "ud_setup env v False op")
  obtain c where c: "out = Run c"
    using assms(14) s p op ag by (cases out) (simp_all add: ud_main_client_def)
  have r: "iters = of_nat n" "s0 = \<lparr>cctx = c, cagent = ag, cpc = U_Run, cexit = False, crecv_idx = 0, cgot = [], cwrote = []\<rparr>"
    "d = snd (start_sending_packets (ud_malloc env) (ud_pthread_create env) (of_nat n) (of_nat i) (Some (send_buf c)) None)"
    using assms(14) by (auto simp: ud_main_client_def p op ag s c)
  have ready: "s0 = udc_ready v (ud_fresh env) ag" using ud_setup_run [OF s [unfolded c]] r(2) by (simp add: udc_ready_def)
  have saved: "list_all2 recorded_pong (cwrote s) (cgot s)
      \<and> (\<exists>f'. fst (snd (ud_main_done (ud_close_ok env) (Some (cagent s)))) = Some (0, Some f', True)
           \<and> parse_dat (f_out f') = map (map unat \<circ> dat_words) (cwrote s))"
    if "udc_reach v iters (ud_fresh env) ag s" for s
  proof -
    have inv: "udc_inv ag s" by (rule udc_reach_inv [OF that assms(12,13) all_timestamps_start(3) [OF ag assms(8,9)]])
    then obtain f' where "agent_close (cagent s) = Some (0, Some f', True)" "parse_dat (f_out f') = map (map unat \<circ> dat_words) (cwrote s)"
      using all_timestamps_end [OF ag assms(8-11)] by (auto simp: udc_inv_def)
    with inv show ?thesis by (auto simp: udc_inv_def ud_main_done_def Let_def split: prod.splits)
  qed
  have "ud_malloc env \<and> ud_pthread_create env = 0 \<longrightarrow> (\<exists>sd. d = Some sd \<and> s_iters sd = of_nat n \<and> s_interval sd = of_nat i)"
    by (simp add: r(3) start_sending_packets_def Let_def)
  moreover have "ud_main_end ok U_Done a = Some (ud_main_done ok a)" "ud_main_end ok U_Fail a = Some (1, None, [])" for ok a
    by (simp_all add: ud_main_end_def)
  ultimately show ?thesis using r(1) ready saved by metis
qed

lemma demo_ud_link:
  "ud_link demo_ud_env is_server (ud_opts\<lparr>o_iters := n, o_interval := i, o_server_ip := ip, o_pers_flags := fl, o_dev := d, o_gidx := 0\<rparr>) = None"
proof -
  have n: "length (node_info_bytes (replicate 4 0) (demo_node x)) = 32" "node_info_of_bytes (node_info_bytes (replicate 4 0) (demo_node x)) = demo_node x" for x
    using node_info_roundtrip [of "replicate 4 0" "demo_node x"] by (simp_all add: demo_node_def node_info_size_def)
  have g: "ib_get_local_info (Some \<lparr>pa_lid = 1, pa_ethernet = True\<rparr>) (Some (replicate 16 1)) 10 5 (demo_node 0) = (0, demo_node 10)"
    by (simp add: ib_get_local_info_def demo_node_def Let_def)
  have x: "exchange_data (demo_xchg (node_info_bytes (replicate 4 0) (demo_node 20))) is_server node_info_size
        (node_info_bytes (replicate 4 0) (demo_node 10)) (replicate 32 0)
      = (0, node_info_bytes (replicate 4 0) (demo_node 20), Some (node_info_bytes (replicate 4 0) (demo_node 10)))"
    using n by (simp add: exchange_data_def demo_xchg_def node_info_size_def recv_into_full Let_def)
  show ?thesis
    by (simp add: ud_link_def demo_ud_env_def peer_env.extend_def demo_peer_def g x n ud_ib_connect_def Let_def)
qed

lemma demo_ud_env_fields:
  "ud_devices demo_ud_env = Some [''mlx5_0'']" "ud_alloc demo_ud_env = (\<lambda>_. True)" "ud_modify_ok demo_ud_env"
  "ud_fresh demo_ud_env = demo_ctx" "ud_init_env demo_ud_env = demo_env" "ud_malloc demo_ud_env" "ud_pthread_create demo_ud_env = 0"
  by (simp_all add: demo_ud_env_def peer_env.extend_def)

theorem ud_client_end_to_end_witness:
  "\<exists>s0 d h. ud_main_client demo_ud_env demo_verbs
        [''--dev'', ''mlx5_0'', ''-g'', show_nat 0, ''-p'', show_nat 9, ''-i'', show_nat 1000, ''-s'', ''10.0.0.1'', ''-m'', show_nat 0]
      = (Run (9, s0, d), h)
    \<and> (\<exists>sd. d = Some sd \<and> s_iters sd = 9 \<and> s_interval sd = 1000) \<and> (\<exists>ag. s0 = udc_ready demo_verbs demo_ctx ag)"
proof -
  let ?argv = "[''--dev'', ''mlx5_0'', ''-g'', show_nat 0, ''-p'', show_nat 9, ''-i'', show_nat 1000, ''-s'', ''10.0.0.1'', ''-m'', show_nat 0]"
  define op where "op = ud_opts\<lparr>o_iters := of_nat 9, o_interval := of_nat 1000, o_server_ip := Some ''10.0.0.1'',
    o_pers_flags := word_of_int (pers_measurement_to_flag (int 0)), o_dev := Some ''mlx5_0'', o_gidx := int 0\<rparr>"
  have p: "ib_client_parse_args ?argv ud_opts = (True, op)"
    using ib_client_args_parse [of 9 1000 0 0 "''mlx5_0''" "''10.0.0.1''" ud_opts] by (simp add: op_def)
  have l: "ud_link demo_ud_env False op = None" using demo_ud_link by (simp add: op_def)
  obtain c where c: "post_all demo_verbs [0..<QUEUE_SIZE] (demo_ctx\<lparr>pending_send := BITSET_INIT (pending_send demo_ctx) QUEUE_SIZE\<rparr>) = (True, c)"
    by (metis post_all_succeeds prod.collapse)
  obtain h where s: "ud_setup demo_ud_env demo_verbs False op = (Run c, h)"
    using l c by (simp add: ud_setup_def demo_ud_env_fields pp_init_context_def op_def ib_device_find_by_name_def)
  obtain ag where "persistence_init demo_env (Some ''ud.dat'') (o_pers_flags op) (o_interval op) = Some (Some ag)"
    by (simp add: op_def pers_measurement_to_flag_def persistence_init_def persistence_init0_def demo_env_def demo_file_def flag_defs Let_def)
  with p s obtain s0 d acq rel where m: "ud_main_client demo_ud_env demo_verbs ?argv = (Run (9, s0, d), acq, rel)"
    by (cases h) (simp add: ud_main_client_def demo_ud_env_fields op_def)
  have "e_malloc_agent (ud_init_env demo_ud_env)" "e_malloc_data (ud_init_env demo_ud_env)" "e_fopen (ud_init_env demo_ud_env) = Some demo_file"
    "\<not> f_write_fails demo_file" "\<not> f_close_fails demo_file" "f_out demo_file = ''''" "ud_init (ud_fresh demo_ud_env)"
    "length (send_buf (ud_fresh demo_ud_env)) = PACKET_SIZE"
    using demo_udc by (simp_all add: demo_ud_env_fields demo_env_def demo_file_def)
  from ud_client_end_to_end [of 9 1000 0, OF _ _ _ _ _ this m] m show ?thesis by (auto simp: demo_ud_env_fields)
qed

text \<open>the connection program keeps everything when its set-up fails: after \<^verbatim>\<open>pp_init_context\<close> has succeeded, a failure to get the local information or to
  exchange it ends \<^verbatim>\<open>main\<close> with exit code 1, all nine resources held and none released.\<close>

theorem rc_failed_setup_leaks:
  assumes "ib_device_find_by_name (rce_devices env) (case o_dev op of None \<Rightarrow> [] | Some d \<Rightarrow> d) \<noteq> None"
    and "fst (rc_init_context (rce_alloc env) (rce_query env) (rce_modify_ok env))" and "rc_main_setup env is_server op = (Some r, acq, rel)"
  shows "r = 1 \<and> acq = [C_ctx, C_recv_buf, C_send_buf, C_device, C_pd, C_recv_mr, C_send_mr, C_cq, C_qp] \<and> rel = []"
proof -
  obtain a l where i: "rc_init_context (rce_alloc env) (rce_query env) (rce_modify_ok env) = (True, a, l)"
    using assms(2) by (metis (full_types) prod.collapse)
  have "a = [C_ctx, C_recv_buf, C_send_buf, C_device, C_pd, C_recv_mr, C_send_mr, C_cq, C_qp]"
    using i by (auto simp: rc_init_context_def split: if_splits)
  with assms(1,3) i show ?thesis by (auto simp: rc_main_setup_def rc_setup_def Let_def split: prod.splits if_splits)
qed

end
