(* ===== verification/Rdma_RC_Client.thy ===== *)
theory Rdma_RC_Client
  imports Rdma_Main
begin

text \<open>
  What the client of the reliable connection records, and a whole run of it. The buffer all receives share holds what the last arrival left there
  when a completion is handled: the client records that, once per handled completion.
\<close>

section \<open>Recording\<close>

definition rc_client_inv :: "persistence_agent \<Rightarrow> rc_ctx \<Rightarrow> bool" where
  "rc_client_inv ag c \<longleftrightarrow> length (rc_recv_buf c) = PACKET_SIZE
     \<and> (\<exists>ag'. rc_agent c = Some ag' \<and> agent_writes ag (rc_wrote c) = Some ag') \<and> list_all2 recorded_pong (rc_wrote c) (rc_got c)"

lemma rc_client_inv_cong:
  "rc_client_inv ag c \<Longrightarrow> rc_recv_buf d = rc_recv_buf c \<Longrightarrow> rc_agent d = rc_agent c \<Longrightarrow> rc_wrote d = rc_wrote c \<Longrightarrow> rc_got d = rc_got c
    \<Longrightarrow> rc_client_inv ag d"
  by (simp add: rc_client_inv_def)

lemma rc_after_recv_keeps:
  "rc_recv_buf (snd (rc_after_recv v c)) = rc_recv_buf c" "rc_agent (snd (rc_after_recv v c)) = rc_agent c"
  "rc_wrote (snd (rc_after_recv v c)) = rc_wrote c" "rc_got (snd (rc_after_recv v c)) = rc_got c"
proof -
  obtain i d where r: "rc_post_recvs v (nat (RECEIVE_DEPTH - (available_recv c - 1))) (c\<lparr>available_recv := available_recv c - 1\<rparr>) = (i, d)"
    by (metis surj_pair)
  from rc_post_recvs_eq [OF r] r show "rc_recv_buf (snd (rc_after_recv v c)) = rc_recv_buf c" "rc_agent (snd (rc_after_recv v c)) = rc_agent c"
    "rc_wrote (snd (rc_after_recv v c)) = rc_wrote c" "rc_got (snd (rc_after_recv v c)) = rc_got c"
    by (auto simp: rc_after_recv_def rc_post_recv_def Let_def)
qed

lemma rc_finish_keeps:
  "rc_recv_buf (snd (rc_finish w r)) = rc_recv_buf (snd r)" "rc_agent (snd (rc_finish w r)) = rc_agent (snd r)"
  "rc_wrote (snd (rc_finish w r)) = rc_wrote (snd r)" "rc_got (snd (rc_finish w r)) = rc_got (snd r)"
  by (simp_all add: rc_finish_def)

lemma rc_record_inv:
  assumes "rc_client_inv ag c" and "agent_total ag"
  shows "\<exists>d. rc_record c = Some d \<and> rc_client_inv ag d \<and> rc_got d = rc_got c @ [load_payload (rc_recv_buf c) 0]"
proof -
  let ?b = "store_ts (rc_recv_buf c) 0 3 (reading c (nread c))" and ?p = "load_payload (rc_recv_buf c) 0"
  have off: "0 + payload_size \<le> length (rc_recv_buf c)" using assms(1) by (simp add: rc_client_inv_def payload_size_def PACKET_SIZE_def)
  have q: "load_payload ?b 0 = ?p\<lparr>ts3 := reading c (nread c)\<rparr>" using off by (simp add: load_store_ts)
  obtain ag' where ag: "rc_agent c = Some ag'" "agent_writes ag (rc_wrote c) = Some ag'" "list_all2 recorded_pong (rc_wrote c) (rc_got c)"
    using assms(1) by (auto simp: rc_client_inv_def)
  obtain r ag2 where w: "agent_write ag' (load_payload ?b 0) = Some (r, ag2)" "agent_writes ag (rc_wrote c @ [load_payload ?b 0]) = Some ag2"
    using agent_total_next [OF assms(2) ag(2)] by blast
  have "recorded_pong (load_payload ?b 0) ?p" unfolding q by (auto simp: recorded_pong_def)
  then have "list_all2 recorded_pong (rc_wrote c @ [load_payload ?b 0]) (rc_got c @ [?p])" using ag(3) by (simp add: list_all2_appendI)
  with ag w off assms(1) show ?thesis by (simp add: rc_record_def get_time_ns_eq rc_client_inv_def Let_def)
qed

lemma rc_parse_client_inv:
  assumes "rc_client_inv ag c" and "agent_total ag"
  shows "\<exists>r. rc_parse_client v w c = Some r \<and> rc_client_inv ag (snd r)"
proof -
  obtain d where d: "rc_record c = Some d" "rc_client_inv ag d" using rc_record_inv [OF assms] by blast
  have "rc_client_inv ag (snd (rc_finish (rc_wr_id w) (rc_after_recv v d)))"
    using d(2) by (rule rc_client_inv_cong) (simp_all add: rc_finish_keeps rc_after_recv_keeps)
  moreover have "rc_client_inv ag (snd (rc_finish (rc_wr_id w) (0, c)))"
    using assms(1) by (rule rc_client_inv_cong) (simp_all add: rc_finish_keeps)
  moreover obtain r1 c1 r2 c2 where "rc_finish (rc_wr_id w) (rc_after_recv v d) = (r1, c1)" "rc_finish (rc_wr_id w) (0, c) = (r2, c2)"
    by (metis surj_pair)
  ultimately show ?thesis using d(1) assms(1) by (auto simp: rc_parse_client_def)
qed

lemma rc_client_take:
  assumes "rc_client_inv ag (lctx s)" "agent_total ag" "lpc s \<noteq> C_Undef" and "\<And>s. lctx (k s) = lctx s \<and> lpc (k s) \<noteq> C_Undef"
  shows "rc_client_inv ag (lctx (rc_take (rc_parse_client v) k w (pop_cq ws s))) \<and> lpc (rc_take (rc_parse_client v) k w (pop_cq ws s)) \<noteq> C_Undef"
proof -
  have "rc_client_inv ag ((lctx s)\<lparr>rc_cq := ws\<rparr>)" using assms(1) by (rule rc_client_inv_cong) simp_all
  from rc_parse_client_inv [OF this assms(2), of v w] obtain r c where
    "rc_parse_client v w ((lctx s)\<lparr>rc_cq := ws\<rparr>) = Some (r, c)" "rc_client_inv ag c" by auto
  then show ?thesis using assms(4) by (simp add: rc_take_def pop_cq_def)
qed

lemma rc_client_step_inv:
  assumes "rc_client_step v iters s s'" and "rc_client_inv ag (lctx s)" "agent_total ag" "lpc s \<noteq> C_Undef"
  shows "rc_client_inv ag (lctx s') \<and> lpc s' \<noteq> C_Undef"
  using assms(1) unfolding rc_client_step_def
proof (cases rule: rc_step.cases)
  case (rc_start w ws)
  then show ?thesis using rc_client_take [OF assms(2-4)] by simp
next
  case (rc_next w ws)
  then show ?thesis using rc_client_take [OF assms(2-4), of "rc_again iters"] by (simp add: rc_again_def)
next
  case (rc_sender f i)
  have "rc_client_inv ag (snd (rc_send_single_packet v i (lctx s)))"
    using assms(2) by (rule rc_client_inv_cong) (simp_all add: rc_send_single_packet_def rc_post_send_def get_time_ns_eq Let_def)
  with rc_sender assms(4) show ?thesis by auto
qed (use assms(2,4) in \<open>auto simp: rc_again_def rc_client_inv_def\<close>)

lemma rc_client_run_inv:
  assumes "(rc_client_step v iters)\<^sup>*\<^sup>* s s'" and "rc_client_inv ag (lctx s)" "agent_total ag" "lpc s \<noteq> C_Undef"
  shows "rc_client_inv ag (lctx s') \<and> lpc s' \<noteq> C_Undef"
  using assms(1)
proof (induction rule: rtranclp_induct)
  case base
  with assms(2,4) show ?case by blast
next
  case (step y z)
  then show ?case using rc_client_step_inv [OF step(2) _ assms(3)] by blast
qed

lemma rc_ready_inv:
  assumes "rc_init c" and "rc_agent c = Some ag"
  shows "rc_client_inv ag (lctx (rc_ready v iters c)) \<and> lpc (rc_ready v iters c) \<noteq> C_Undef"
proof -
  obtain i d where r: "rc_post_recvs v (nat RECEIVE_DEPTH) (c\<lparr>rc_pending := ucast RC_RECV_WRID\<rparr>) = (i, d)" by (metis surj_pair)
  from rc_post_recvs_eq [OF r] obtain k where
    "d = c\<lparr>rc_pending := ucast RC_RECV_WRID, n_post_recv := k, rq_len := rq_len c + i\<rparr>" by auto
  with r assms show ?thesis by (simp add: rc_ready_def rc_post_recv_def rc_again_def rc_client_inv_def rc_init_def)
qed

section \<open>Properties\<close>

text \<open>C15: a whole run of the client of the reliable connection, from the command line to the output file. Given well-formed arguments and a system
  that answers, \<^verbatim>\<open>main\<close> starts the loop and the sender thread; no reachable state is undefined; and when the loop ends and the
  context is closed, the output file is read back as the identifiers and time stamps of what was in the receive buffer at each completed receive, in
  order, with only the last time stamp replaced. When the loop fails, the agent is not closed.\<close>

theorem rc_client_end_to_end:
  assumes "0 < n" "n < 2 ^ 63" "0 < i" "i < 2 ^ 31" "g < 2 ^ 31" and "e_malloc_agent (rce_init env)" "e_malloc_data (rce_init env)"
    and "e_fopen (rce_init env) = Some f" "\<not> f_write_fails f" "\<not> f_close_fails f" "f_out f = ''''" and "rc_init (rce_fresh env)"
    and "rc_main_client env v [''--dev'', dev, ''-g'', show_nat g, ''-p'', show_nat n, ''-i'', show_nat i, ''-s'', ip, ''-m'', show_nat 0]
      = (Run (iters, s0, d), acq, rel)"
    and "(rc_client_step v iters)\<^sup>*\<^sup>* s0 s"
  shows "iters = of_nat n \<and> (rce_malloc env \<and> rce_pthread_create env = 0 \<longrightarrow> (\<exists>sd. d = Some sd \<and> s_iters sd = of_nat n \<and> s_interval sd = of_nat i))
    \<and> lpc s \<noteq> C_Undef \<and> list_all2 recorded_pong (rc_wrote (lctx s)) (rc_got (lctx s))
    \<and> (case rc_main_end (\<lambda>_. True) s of
         None \<Rightarrow> lpc s = C_Start \<or> lpc s = C_Next
       | Some (r, closed, l) \<Rightarrow>
           if lpc s = C_Done
           then r = 0 \<and> (\<exists>f'. closed = Some (0, Some f', True) \<and> parse_dat (f_out f') = map (map unat \<circ> dat_words) (rc_wrote (lctx s)))
           else r = 1 \<and> closed = None \<and> l = [])"
proof -
  let ?fl = "PERSISTENCE_M_ALL_TIMESTAMPS"
  have fl: "word_of_int (pers_measurement_to_flag 0) = ?fl" by (simp add: pers_measurement_to_flag_def)
  have m0: "(0 :: nat) < 2 ^ 31" by simp
  obtain ag where ag: "persistence_init (rce_init env) (Some ''rc.dat'') ?fl (of_nat i) = Some (Some ag)"
    using assms(6-8) by (simp add: persistence_init_def persistence_init0_def flag_defs Let_def)
  define op where "op = ud_opts\<lparr>o_iters := of_nat n, o_interval := of_nat i, o_server_ip := Some ip, o_pers_flags := ?fl,
    o_dev := Some dev, o_gidx := int g\<rparr>"
  have op: "o_iters op = of_nat n" "o_interval op = of_nat i" "o_pers_flags op = ?fl" by (simp_all add: op_def)
  have p: "ib_client_parse_args [''--dev'', dev, ''-g'', show_nat g, ''-p'', show_nat n, ''-i'', show_nat i, ''-s'', ip, ''-m'', show_nat 0]
      (ud_opts\<lparr>o_pers_flags := ?fl\<rparr>) = (True, op)"
    using ib_client_args_parse [OF assms(1-4) m0 assms(5), of dev ip "ud_opts\<lparr>o_pers_flags := ?fl\<rparr>"] by (simp add: fl op_def)
  let ?s = "rc_ready v (of_nat n) ((rce_fresh env)\<lparr>rc_agent := Some ag\<rparr>)"
  have r: "iters = of_nat n" "s0 = ?s"
    "d = snd (start_sending_packets (rce_malloc env) (rce_pthread_create env) (of_nat n) (of_nat i) (Some (rc_send_buf (lctx ?s))) None)"
    using assms(13) by (auto simp: rc_main_client_def p op ag Let_def split: prod.splits option.splits)
  have "rc_init ((rce_fresh env)\<lparr>rc_agent := Some ag\<rparr>)" using assms(12) by (simp add: rc_init_def)
  from rc_ready_inv [OF this] have st: "rc_client_inv ag (lctx s0)" "lpc s0 \<noteq> C_Undef" using r(2) by simp_all
  from rc_client_run_inv [OF assms(14) st(1) all_timestamps_start(3) [OF ag assms(8,9)] st(2)]
  have inv: "rc_client_inv ag (lctx s)" "lpc s \<noteq> C_Undef" by simp_all
  then obtain ag' where ag': "rc_agent (lctx s) = Some ag'" "agent_writes ag (rc_wrote (lctx s)) = Some ag'"
    "list_all2 recorded_pong (rc_wrote (lctx s)) (rc_got (lctx s))" by (auto simp: rc_client_inv_def)
  have close: "rc_close_context (\<lambda>_. True) = (0, snd (rc_close_context (\<lambda>_. True)))" by (simp add: rc_close_context_def)
  have "\<exists>f'. agent_close ag' = Some (0, Some f', True) \<and> parse_dat (f_out f') = map (map unat \<circ> dat_words) (rc_wrote (lctx s))"
    by (rule all_timestamps_end [OF ag assms(8-11) ag'(2)])
  moreover have "rce_malloc env \<and> rce_pthread_create env = 0 \<longrightarrow> (\<exists>sd. d = Some sd \<and> s_iters sd = of_nat n \<and> s_interval sd = of_nat i)"
    by (simp add: r(3) start_sending_packets_def Let_def)
  ultimately show ?thesis using r(1) inv(2) ag'(1,3) close by (cases "lpc s") (auto simp: rc_main_end_def split: prod.splits)
qed

definition demo_rc_env :: rc_env where
  "demo_rc_env = peer_env.extend (demo_peer 10 20)
     \<lparr>rce_devices = Some [''mlx5_0''], rce_alloc = \<lambda>_. True, rce_query = Some 1, rce_modify_ok = True, rce_local = demo_node 0,
      rce_remote = replicate 32 0, rce_qp = demo_qp, rce_fresh = rc_demo, rce_init = demo_env, rce_malloc = True, rce_pthread_create = 0\<rparr>"

lemma demo_rc_env_fields:
  "rce_fresh demo_rc_env = rc_demo" "rce_init demo_rc_env = demo_env" "rce_malloc demo_rc_env" "rce_pthread_create demo_rc_env = 0"
  "\<exists>h. rc_main_setup demo_rc_env False (ud_opts\<lparr>o_iters := n, o_interval := i, o_server_ip := ip, o_pers_flags := fl, o_dev := Some ''mlx5_0'', o_gidx := 0\<rparr>)
    = (None, h)"
proof -
  obtain qp where q: "rc_setup (demo_peer 10 20) False 0 (demo_node 0) (replicate 32 0) demo_qp
    = (None, qp, demo_node 10, demo_node 20, Some (node_info_bytes (replicate 4 0) (demo_node 10)))" using demo_setup by blast
  have "p_port demo_rc_env = p_port (demo_peer 10 20)" "p_gid demo_rc_env = p_gid (demo_peer 10 20)" "p_qp_num demo_rc_env = p_qp_num (demo_peer 10 20)"
    "p_rand demo_rc_env = p_rand (demo_peer 10 20)" "p_pad demo_rc_env = p_pad (demo_peer 10 20)" "p_xchg demo_rc_env = p_xchg (demo_peer 10 20)"
    "p_modify1 demo_rc_env = p_modify1 (demo_peer 10 20)" "p_modify2 demo_rc_env = p_modify2 (demo_peer 10 20)"
    by (simp_all add: demo_rc_env_def peer_env.extend_def)
  then have same: "rc_setup demo_rc_env = rc_setup (demo_peer 10 20)" by (intro ext) (simp only: rc_setup_def)
  have rest: "rce_devices demo_rc_env = Some [''mlx5_0'']" "rce_alloc demo_rc_env = (\<lambda>_. True)" "rce_query demo_rc_env = Some 1"
    "rce_modify_ok demo_rc_env" "rce_local demo_rc_env = demo_node 0" "rce_remote demo_rc_env = replicate 32 0" "rce_qp demo_rc_env = demo_qp"
    by (simp_all add: demo_rc_env_def peer_env.extend_def)
  show "\<exists>h. rc_main_setup demo_rc_env False (ud_opts\<lparr>o_iters := n, o_interval := i, o_server_ip := ip, o_pers_flags := fl,
      o_dev := Some ''mlx5_0'', o_gidx := 0\<rparr>) = (None, h)"
    by (simp add: rc_main_setup_def same rest q ib_device_find_by_name_def rc_init_context_def)
qed (simp_all add: demo_rc_env_def peer_env.extend_def)

text \<open>One packet arrives, its completion is handled, and the loop of one iteration ends.\<close>

lemma demo_rc_run:
  assumes "agent_total ag" and "c = rc_demo\<lparr>rc_agent := Some ag\<rparr>"
  shows "\<exists>s. (rc_client_step rc_good 1)\<^sup>*\<^sup>* (rc_ready rc_good 1 c) s \<and> lpc s = C_Done \<and> length (rc_got (lctx s)) = 1"
proof -
  let ?s0 = "rc_ready rc_good 1 c"
  have init: "rc_init c" using rc_demo_ready(1) by (simp add: assms(2) rc_init_def)
  have posts: "rc_post_recvs rc_good n d = (n, d\<lparr>n_post_recv := n_post_recv d + n, rq_len := rq_len d + n\<rparr>)" for n d
    by (induction n arbitrary: d) (simp_all add: rc_good_def)
  have s0: "lpc ?s0 = C_Start" "rc_cq (lctx ?s0) = []" "0 < rq_len (lctx ?s0)" "available_recv (lctx ?s0) = RECEIVE_DEPTH" "recv_count ?s0 = 0"
    "rc_got (lctx ?s0) = []"
    using init by (simp_all add: rc_ready_def rc_post_recv_def rc_again_def posts RECEIVE_DEPTH_def rc_init_def)
  let ?d = "replicate PACKET_SIZE (0 :: u8)" and ?w = "\<lparr>rc_wr_id = RC_RECV_WRID, rc_status = True, rc_ts = 0\<rparr>"
  define s1 where "s1 = ?s0\<lparr>lctx := (lctx ?s0)\<lparr>rq_len := rq_len (lctx ?s0) - 1, rc_recv_buf := ?d, rc_cq := rc_cq (lctx ?s0) @ [?w]\<rparr>\<rparr>"
  have len: "length ?d = PACKET_SIZE" by simp
  have 1: "rc_client_step rc_good 1 ?s0 s1"
    unfolding rc_client_step_def s1_def by (rule rc_arrival [OF s0(3) len, where ok = True and t = 0])
  have s1: "lpc s1 = C_Start" "rc_cq (lctx s1) = [?w]" "available_recv (lctx s1) = RECEIVE_DEPTH" "recv_count s1 = 0" "rc_got (lctx s1) = []"
    using s0 by (simp_all add: s1_def)
  define s2 where "s2 = rc_take (rc_parse_client rc_good) (\<lambda>s. s\<lparr>lpc := C_Next\<rparr>) ?w (pop_cq [] s1)"
  have 2: "rc_client_step rc_good 1 s1 s2" unfolding rc_client_step_def s2_def by (rule rc_start [OF s1(1,2)])
  have "rc_client_inv ag (lctx ?s0) \<and> lpc ?s0 \<noteq> C_Undef" by (rule rc_ready_inv [OF init]) (simp add: assms(2))
  with rc_client_step_inv [OF 1 _ assms(1)] have "rc_client_inv ag (lctx s1)" by blast
  then have i: "rc_client_inv ag ((lctx s1)\<lparr>rc_cq := []\<rparr>)" by (rule rc_client_inv_cong) simp_all
  obtain e where e: "rc_record ((lctx s1)\<lparr>rc_cq := []\<rparr>) = Some e" "length (rc_got e) = 1" using rc_record_inv [OF i assms(1)] s1(5) by auto
  have "available_recv e = RECEIVE_DEPTH" "rc_cq e = []" using rc_record_other [OF e(1)] s1(3) by simp_all
  with e have s2: "lpc s2 = C_Next" "rc_cq (lctx s2) = []" "recv_count s2 = 1" "length (rc_got (lctx s2)) = 1" using s1(4)
    by (simp_all add: s2_def rc_take_def pop_cq_def rc_parse_client_def rc_finish_def rc_after_recv_def RECEIVE_DEPTH_def Let_def)
  have 3: "rc_client_step rc_good 1 s2 (rc_again 1 s2)" unfolding rc_client_step_def by (rule rc_next_empty [OF s2(1,2)])
  have "(rc_client_step rc_good 1)\<^sup>*\<^sup>* ?s0 (rc_again 1 s2)" using 1 2 3 by (meson rtranclp.rtrancl_into_rtrancl rtranclp.rtrancl_refl)
  with s2 show ?thesis by (intro exI [of _ "rc_again 1 s2"]) (simp add: rc_again_def)
qed

theorem rc_client_end_to_end_witness:
  "\<exists>s0 d h s f'. rc_main_client demo_rc_env rc_good
        [''--dev'', ''mlx5_0'', ''-g'', show_nat 0, ''-p'', show_nat 1, ''-i'', show_nat 1000, ''-s'', ''10.0.0.1'', ''-m'', show_nat 0] = (Run (1, s0, d), h)
    \<and> (rc_client_step rc_good 1)\<^sup>*\<^sup>* s0 s \<and> length (rc_wrote (lctx s)) = 1
    \<and> fst (snd (the (rc_main_end (\<lambda>_. True) s))) = Some (0, Some f', True) \<and> parse_dat (f_out f') = map (map unat \<circ> dat_words) (rc_wrote (lctx s))"
proof -
  let ?argv = "[''--dev'', ''mlx5_0'', ''-g'', show_nat 0, ''-p'', show_nat 1, ''-i'', show_nat 1000, ''-s'', ''10.0.0.1'', ''-m'', show_nat 0]"
  let ?o = "ud_opts\<lparr>o_pers_flags := PERSISTENCE_M_ALL_TIMESTAMPS\<rparr>"
  define op where "op = ud_opts\<lparr>o_iters := 1, o_interval := 1000, o_server_ip := Some ''10.0.0.1'', o_pers_flags := PERSISTENCE_M_ALL_TIMESTAMPS,
    o_dev := Some ''mlx5_0'', o_gidx := 0\<rparr>"
  have p: "ib_client_parse_args ?argv ?o = (True, op)"
    using ib_client_args_parse [of 1 1000 0 0 "''mlx5_0''" "''10.0.0.1''" ?o] by (simp add: op_def pers_measurement_to_flag_def)
  obtain h where h: "rc_main_setup demo_rc_env False op = (None, h)" unfolding op_def using demo_rc_env_fields(5) by blast
  obtain ag where ag: "persistence_init demo_env (Some ''rc.dat'') PERSISTENCE_M_ALL_TIMESTAMPS 1000 = Some (Some ag)"
    by (simp add: persistence_init_def persistence_init0_def demo_env_def demo_file_def flag_defs Let_def)
  let ?s0 = "rc_ready rc_good 1 (rc_demo\<lparr>rc_agent := Some ag\<rparr>)"
  obtain acq rel where hh: "h = (acq, rel)" by (cases h)
  obtain d where m: "rc_main_client demo_rc_env rc_good ?argv = (Run (1, ?s0, d), acq, rel)"
    using p h hh ag by (simp add: rc_main_client_def demo_rc_env_fields op_def Let_def)
  have f: "e_fopen demo_env = Some demo_file" "\<not> f_write_fails demo_file" by (simp_all add: demo_env_def demo_file_def)
  obtain s where s: "(rc_client_step rc_good 1)\<^sup>*\<^sup>* ?s0 s" "lpc s = C_Done" "length (rc_got (lctx s)) = 1"
    using demo_rc_run [OF all_timestamps_start(3) [OF ag f] refl] by blast
  have e: "e_malloc_agent (rce_init demo_rc_env)" "e_malloc_data (rce_init demo_rc_env)" "e_fopen (rce_init demo_rc_env) = Some demo_file"
    "\<not> f_write_fails demo_file" "\<not> f_close_fails demo_file" "f_out demo_file = ''''" "rc_init (rce_fresh demo_rc_env)"
    using rc_demo_ready(1) by (simp_all add: demo_rc_env_fields demo_env_def demo_file_def)
  from rc_client_end_to_end [of 1 1000 0, OF _ _ _ _ _ e m s(1)] s(2,3)
  have l: "length (rc_wrote (lctx s)) = 1" and c: "case rc_main_end (\<lambda>_. True) s of None \<Rightarrow> False | Some (r, closed, l) \<Rightarrow>
      \<exists>f'. closed = Some (0, Some f', True) \<and> parse_dat (f_out f') = map (map unat \<circ> dat_words) (rc_wrote (lctx s))"
    by (auto dest: list_all2_lengthD split: option.splits)
  then obtain r l' f' where "rc_main_end (\<lambda>_. True) s = Some (r, Some (0, Some f', True), l')"
    "parse_dat (f_out f') = map (map unat \<circ> dat_words) (rc_wrote (lctx s))" by (auto split: option.splits)
  with m s(1) l show ?thesis by (intro exI [of _ ?s0] exI [of _ d] exI [of _ "(acq, rel)"] exI [of _ s] exI [of _ f']) simp
qed

end
