(* ===== verification/Xdp_Client.thy ===== *)
theory Xdp_Client
  imports Xdp_Main
begin

text \<open>
  Whole runs of the clients of the polling and of the pure variant, from the command line to the output file: the argument parser, the persistence
  agent, the loading of the eBPF program and the loop, composed as \<^verbatim>\<open>main\<close> of \<^verbatim>\<open>xdp/pp_poll.c\<close> and of \<^verbatim>\<open>xdp/pp_pure.c\<close> composes them.
\<close>

section \<open>Definitions\<close>

text \<open>The end of \<^verbatim>\<open>main\<close> of the polling client.\<close>

definition poll_client_end :: "poll_client \<Rightarrow> int \<times> (int \<times> cfile option \<times> bool) option" where
  "poll_client_end c = (EXIT_SUCCESS, agent_close (cl_agent c))"

text \<open>\<^verbatim>\<open>main\<close> of the pure client with the call of \<^verbatim>\<open>start_client\<close>; \<open>rs\<close> is what \<^verbatim>\<open>recvfrom\<close> answers. \<open>inet_addr\<close> turns the address into the peer's.\<close>

definition pure_client_run ::
  "main_env \<Rightarrow> pure_env \<Rightarrow> (string option \<Rightarrow> sockaddr_ll) \<Rightarrow> ('o, 'p, 'k) libbpf \<Rightarrow> string list \<Rightarrow> bytes option list \<Rightarrow> 'k \<Rightarrow>
   (sender_data option \<times> recv_status \<times> pingpong_payload list \<times> (int \<times> cfile option \<times> bool) option) option main_out \<times> 'k" where
  "pure_client_run env penv inet_addr lib argv rs k =
     (case pure_main_client_program env lib argv k of
        (Exit r, k) \<Rightarrow> (Exit r, k)
      | (Undefined, k) \<Rightarrow> (Undefined, k)
      | (Run (ip, iters, interval, ag), k) \<Rightarrow> (Run (pure_start_client penv (inet_addr ip) iters interval ag rs), k))"

section \<open>Lemmas\<close>

lemma all_timestamps_flag: "word_of_int (pers_measurement_to_flag 0) = (PERSISTENCE_M_ALL_TIMESTAMPS :: u32)"
  by (simp add: pers_measurement_to_flag_def)

lemma all_timestamps_init:
  assumes "e_malloc_agent env" "e_malloc_data env" "e_fopen env = Some f"
  obtains ag where "persistence_init env (Some name) PERSISTENCE_M_ALL_TIMESTAMPS I = Some (Some ag)"
  using assms by (simp add: persistence_init_def persistence_init0_def flag_defs Let_def)

lemma interval_truncation: "i < 2 ^ 31 \<Longrightarrow> (ucast (ucast (of_nat i :: u64) :: u32) :: u64) = of_nat i"
  by (simp add: word_eq_iff_unsigned unsigned_ucast_eq take_bit_word_eq_self unsigned_of_nat take_bit_nat_eq_self)

section \<open>Properties\<close>

text \<open>C14: a whole run of the polling client. Given well-formed arguments and a system that answers, \<^verbatim>\<open>main\<close> starts the loop with the
  counts of the command line; and for every schedule of arriving packets, loop steps and signals the loop reaches no undefined state and
  the file that \<^verbatim>\<open>main\<close> leaves is read back as identifiers and time stamps of a subsequence of the arrived pongs, in order, each with only the
  last time stamp replaced.\<close>

theorem poll_client_end_to_end:
  assumes "0 < n" "n < 2 ^ 63" "0 < i" "i < 2 ^ 31" and "e_malloc_agent (me_init env)" "e_malloc_data (me_init env)"
    and "e_fopen (me_init env) = Some f" "\<not> f_write_fails f" "\<not> f_close_fails f" "f_out f = ''''" and "array_lookup_ok lk"
    and "poll_main_client env lib empty_maps [''-d'', dev, ''-p'', show_nat n, ''-i'', show_nat i, ''-s'', ip, ''-m'', show_nat 0] k
      = (Run (iters, c0, d), k1)"
    and "c = foldl (client_step lk iters) c0 es"
  shows "iters = of_nat n \<and> (me_malloc env \<and> me_pthread_create env = 0 \<longrightarrow> (\<exists>sd. d = Some sd \<and> s_iters sd = of_nat n \<and> s_interval sd = of_nat i))
    \<and> cl_pc c \<noteq> L_Undef \<and> (\<exists>rs. subseq rs (filter pong (arrivals es)) \<and> list_all2 recorded_as (cl_written c) rs)
    \<and> (\<exists>f'. poll_client_end c = (EXIT_SUCCESS, Some (0, Some f', True)) \<and> parse_dat (f_out f') = map (map unat \<circ> dat_words) (cl_written c))"
proof -
  let ?fl = "PERSISTENCE_M_ALL_TIMESTAMPS" and ?argv = "[''-d'', dev, ''-p'', show_nat n, ''-i'', show_nat i, ''-s'', ip, ''-m'', show_nat 0]"
  obtain ag where ag: "persistence_init (me_init env) (Some poll_outfile) ?fl (of_nat i) = Some (Some ag)"
    using all_timestamps_init [OF assms(5-7)] by blast
  define op where "op = (main_opts (Some ''-d''))\<lparr>o_iters := of_nat n, o_interval := of_nat i, o_server_ip := Some ip, o_pers_flags := ?fl,
    o_dev := Some dev, o_remove := False\<rparr>"
  have p: "xdp_client_parse_args ?argv (main_opts (Some ''-d'')) = (True, op)"
    using xdp_client_args_parse [OF assms(1-4), of 0 dev ip "main_opts (Some ''-d'')"] by (simp add: op_def all_timestamps_flag)
  have op: "o_iters op = of_nat n" "o_interval op = of_nat i" "o_pers_flags op = ?fl" by (simp_all add: op_def)
  obtain addr buf where m: "iters = of_nat n" "poll_start_client env empty_maps (of_nat n) (of_nat i) addr buf ag = Some (c0, d)"
    using assms(12) by (auto simp: poll_main_client_def p op ag interval_truncation [OF assms(4)] Let_def
        split: if_splits prod.splits option.splits)
  have "(client_start ag (me_world env))\<lparr>cl_maps := empty_maps\<rparr> = client_start ag (me_world env)" by (simp add: client_start_def)
  then have c0: "c0 = client_start ag (me_world env)"
    "d = snd (start_sending_packets (me_malloc env) (me_pthread_create env) (of_nat n) (of_nat i) (Some buf) (Some addr))"
    using m(2) by (auto simp: poll_start_client_def split: if_splits)
  let ?acc = "client_accepted lk iters (client_start ag (me_world env)) es" and ?tk = "client_taken lk iters (client_start ag (me_world env)) es"
  have inv: "client_inv ag iters (me_world env) c ?acc ?tk"
    unfolding assms(13) c0(1) by (rule client_run_inv [OF assms(11) all_timestamps_start(3) [OF ag assms(7,8)]])
  then obtain q where "?acc = ?tk @ q" by (auto simp: client_inv_def)
  moreover have "subseq ?acc (arrivals es)" unfolding client_accepted_def by (rule accepted_arrived)
  ultimately have "subseq (filter pong ?tk) (filter pong (arrivals es))" using subseq_front subseq_filter by metis
  then have "\<exists>rs. subseq rs (filter pong (arrivals es)) \<and> list_all2 recorded_as (cl_written c) rs"
    using inv stamped_pongs_recorded by (auto simp: client_inv_def)
  moreover have "\<exists>f'. agent_close (cl_agent c) = Some (0, Some f', True) \<and> parse_dat (f_out f') = map (map unat \<circ> dat_words) (cl_written c)"
    by (rule all_timestamps_end [OF ag assms(7-10)]) (use inv in \<open>unfold client_inv_def, blast\<close>)
  moreover have "me_malloc env \<and> me_pthread_create env = 0 \<longrightarrow> (\<exists>sd. d = Some sd \<and> s_iters sd = of_nat n \<and> s_interval sd = of_nat i)"
    by (simp add: c0(2) start_sending_packets_def Let_def)
  ultimately show ?thesis using m(1) inv by (auto simp: poll_client_end_def client_inv_def)
qed

text \<open>C33: a whole run of the pure client. When its loop returns, the file it leaves is read back as the identifiers and time stamps of the payloads
  of the received datagrams, in order, up to and including the first whose identifier reaches the number of packets; and it returns exactly when there is such a payload or a
  call fails.\<close>

theorem pure_client_end_to_end:
  assumes "0 < n" "n < 2 ^ 63" "0 < i" "i < 2 ^ 31" and "e_malloc_agent (me_init env)" "e_malloc_data (me_init env)"
    and "e_fopen (me_init env) = Some f" "\<not> f_write_fails f" "\<not> f_close_fails f" "f_out f = ''''"
    and "pure_client_run env penv inet_addr lib [''-d'', dev, ''-p'', show_nat n, ''-i'', show_nat i, ''-s'', ip, ''-m'', show_nat 0] rs k
      = (Run (Some (d, st, ps, closed)), k1)"
  shows "ps = take_until (\<lambda>p. of_nat n \<le> pp_id p) (payloads_seen (replicate PACKET_SIZE 0) rs)
    \<and> st = (if \<exists>p\<in>set (payloads_seen (replicate PACKET_SIZE 0) rs). of_nat n \<le> pp_id p then R_Finished
            else if None \<in> set rs then R_Failed else R_Waiting)
    \<and> (pe_malloc_packet penv \<and> pe_malloc_data penv \<and> pe_pthread_create penv = 0 \<longrightarrow> (\<exists>sd. d = Some sd \<and> s_iters sd = of_nat n \<and> s_interval sd = of_nat i))
    \<and> (if st = R_Waiting then closed = None
       else \<exists>f'. closed = Some (0, Some f', True) \<and> parse_dat (f_out f') = map (map unat \<circ> dat_words) ps)"
proof -
  let ?fl = "PERSISTENCE_M_ALL_TIMESTAMPS" and ?argv = "[''-d'', dev, ''-p'', show_nat n, ''-i'', show_nat i, ''-s'', ip, ''-m'', show_nat 0]"
  obtain ag where ag: "persistence_init (me_init env) (Some pure_outfile) ?fl (of_nat i) = Some (Some ag)"
    using all_timestamps_init [OF assms(5-7)] by blast
  have p: "xdp_client_parse_args ?argv (main_opts None) = (True, (main_opts None)\<lparr>o_iters := of_nat n, o_interval := of_nat i,
      o_server_ip := Some ip, o_pers_flags := ?fl, o_dev := Some dev, o_remove := False\<rparr>)"
    using xdp_client_args_parse [OF assms(1-4), of 0 dev ip "main_opts None"] by (simp add: all_timestamps_flag)
  have s: "pure_start_client penv (inet_addr (Some ip)) (of_nat n) (of_nat i) ag rs = Some (d, st, ps, closed)"
    using assms(11) by (auto simp: pure_client_run_def pure_main_client_program_def p ag Let_def split: if_splits prod.splits option.splits)
  obtain ag' where r: "receive_packets (of_nat n) 0 (replicate PACKET_SIZE 0) ag rs = (st, ag', ps)"
    "closed = (if st = R_Finished \<or> st = R_Failed then agent_close ag' else None)"
    "d = snd (send_packets (pe_malloc_packet penv) (pe_malloc_data penv) (pe_pthread_create penv) (pe_socket penv) (inet_addr (Some ip)) (of_nat n) (of_nat i))"
    using s by (auto simp: pure_start_client_def Let_def split: if_splits prod.splits)
  have "(0 :: u64) < of_nat n"
    using assms(1,2) by (auto simp: word_neq_0_conv [symmetric] word_of_nat_eq_0_iff dest!: dvd_imp_le)
  note spec = receive_packets_spec [OF all_timestamps_start(3) [OF ag assms(7,8)] this r(1)]
  have "\<exists>f'. agent_close ag' = Some (0, Some f', True) \<and> parse_dat (f_out f') = map (map unat \<circ> dat_words) ps"
    by (rule all_timestamps_end [OF ag assms(7-10)]) (use spec in blast)
  moreover have "st \<noteq> R_Undef" "st = R_Finished \<or> st = R_Failed \<or> st = R_Waiting" using spec by auto
  moreover have "pe_malloc_packet penv \<and> pe_malloc_data penv \<and> pe_pthread_create penv = 0 \<longrightarrow> (\<exists>sd. d = Some sd \<and> s_iters sd = of_nat n \<and> s_interval sd = of_nat i)"
    by (simp add: r(3) send_packets_def start_sending_packets_def Let_def)
  ultimately show ?thesis using spec r(2) by auto
qed

section \<open>Witnesses\<close>

lemma demo_client_args:
  "xdp_client_parse_args [''-d'', ''eth0'', ''-p'', show_nat 9, ''-i'', show_nat 1000, ''-s'', ''10.0.0.1'', ''-m'', show_nat 0] (main_opts d)
    = (True, (main_opts None)\<lparr>o_iters := 9, o_interval := 1000, o_server_ip := Some ''10.0.0.1'', o_pers_flags := PERSISTENCE_M_ALL_TIMESTAMPS,
        o_dev := Some ''eth0'', o_remove := False\<rparr>)"
  using xdp_client_args_parse [of 9 1000 0 "''eth0''" "''10.0.0.1''" "main_opts d"] by (simp add: all_timestamps_flag main_opts_def)

lemma demo_client_env:
  "e_malloc_agent (me_init demo_main_env)" "e_malloc_data (me_init demo_main_env)" "e_fopen (me_init demo_main_env) = Some demo_file"
  "\<not> f_write_fails demo_file" "\<not> f_close_fails demo_file" "f_out demo_file = ''''" "me_malloc demo_main_env" "me_pthread_create demo_main_env = 0"
  by (simp_all add: demo_main_env_def demo_env_def demo_file_def)

lemma demo_start_pingpong: "\<exists>x. start_pingpong demo_main_env demo_libbpf obj 2 False k = Some x"
proof -
  have a: "\<lparr>a_src_mac = replicate ETH_ALEN 0, a_dest_mac = replicate ETH_ALEN 0, a_src_ip = 0, a_dest_ip = 0\<rparr> = demo_addrs"
    by (simp add: demo_addrs_def ETH_ALEN_def)
  show ?thesis
    by (simp add: start_pingpong_def a demo_main_env_def demo_exchange mmap_bpf_map_def demo_libbpf_def build_base_packet_def Let_def)
qed

lemma demo_poll_client:
  "\<exists>c0 d k1. poll_main_client demo_main_env demo_libbpf empty_maps
      [''-d'', ''eth0'', ''-p'', show_nat 9, ''-i'', show_nat 1000, ''-s'', ''10.0.0.1'', ''-m'', show_nat 0] demo_host0 = (Run (9, c0, d), k1)"
proof -
  have i: "name_index demo_main_env (Some ''eth0'') = 2" "me_socket demo_main_env = 3" by (simp_all add: name_index_def demo_main_env_def)
  obtain ag where ag: "persistence_init (me_init demo_main_env) (Some poll_outfile) PERSISTENCE_M_ALL_TIMESTAMPS 1000 = Some (Some ag)"
    using all_timestamps_init [OF demo_client_env(1-3)] by blast
  obtain r obj k where a: "poll_attach demo_libbpf 2 demo_host0 = (r, obj, k)" by (rule prod_cases3)
  have "r = 0" "obj \<noteq> None" using poll_attach_obs(1,3) [OF demo_poll_ok a] by (simp_all add: demo_host0_def)
  with a obtain o1 where "poll_attach demo_libbpf 2 demo_host0 = (0, Some o1, k)" by auto
  moreover obtain b a2 where "start_pingpong demo_main_env demo_libbpf o1 2 False k = Some (b, a2)" using demo_start_pingpong by fastforce
  ultimately show ?thesis
    using ag i by (simp add: poll_main_client_def demo_client_args poll_start_client_def Let_def)
qed

theorem poll_client_end_to_end_witness:
  "\<exists>c0 d k1 f'. poll_main_client demo_main_env demo_libbpf empty_maps
        [''-d'', ''eth0'', ''-p'', show_nat 9, ''-i'', show_nat 1000, ''-s'', ''10.0.0.1'', ''-m'', show_nat 0] demo_host0 = (Run (9, c0, d), k1)
    \<and> (\<exists>sd. d = Some sd \<and> s_iters sd = 9 \<and> s_interval sd = 1000)
    \<and> poll_client_end (foldl (client_step demo_slot 9) c0 [Tick, Packet (demo_packet 1), Tick, Sigint, Tick]) = (EXIT_SUCCESS, Some (0, Some f', True))"
proof -
  let ?es = "[Tick, Packet (demo_packet 1), Tick, Sigint, Tick]"
  have lk: "array_lookup_ok demo_slot" by (simp add: array_lookup_ok_def demo_slot_def)
  obtain c0 d k1 where m: "poll_main_client demo_main_env demo_libbpf empty_maps
      [''-d'', ''eth0'', ''-p'', show_nat 9, ''-i'', show_nat 1000, ''-s'', ''10.0.0.1'', ''-m'', show_nat 0] demo_host0 = (Run (9, c0, d), k1)"
    using demo_poll_client by blast
  from poll_client_end_to_end [of 9 1000, OF _ _ _ _ demo_client_env(1-6) lk m refl, of ?es] m demo_client_env(7,8) show ?thesis by auto
qed

definition demo_pure_env :: pure_env where
  "demo_pure_env = \<lparr>pe_socket = 3, pe_bind = 0, pe_malloc_packet = True, pe_malloc_data = True, pe_pthread_create = 0\<rparr>"

theorem pure_client_end_to_end_witness:
  "\<exists>d k1 f'. pure_client_run demo_main_env demo_pure_env (\<lambda>_. \<lparr>sll_ifindex = 0, sll_halen = 0, sll_addr = []\<rparr>) demo_libbpf
        [''-d'', ''eth0'', ''-p'', show_nat 2, ''-i'', show_nat 1000, ''-s'', ''10.0.0.1'', ''-m'', show_nat 0]
        [Some (demo_pong 1), Some (demo_pong 3), Some (demo_pong 4)] demo_host0
      = (Run (Some (d, R_Finished, [new_pingpong_payload 1, new_pingpong_payload 3], Some (0, Some f', True))), k1)
    \<and> parse_dat (f_out f') = map (map unat \<circ> dat_words) [new_pingpong_payload 1, new_pingpong_payload 3]"
proof -
  let ?argv = "[''-d'', ''eth0'', ''-p'', show_nat 2, ''-i'', show_nat 1000, ''-s'', ''10.0.0.1'', ''-m'', show_nat 0]"
  let ?ia = "\<lambda>_ :: string option. \<lparr>sll_ifindex = 0, sll_halen = 0, sll_addr = []\<rparr>" and ?rs = "[Some (demo_pong 1), Some (demo_pong 3), Some (demo_pong 4)]"
  have p: "xdp_client_parse_args ?argv (main_opts d) = (True, (main_opts None)\<lparr>o_iters := 2, o_interval := 1000, o_server_ip := Some ''10.0.0.1'',
      o_pers_flags := PERSISTENCE_M_ALL_TIMESTAMPS, o_dev := Some ''eth0'', o_remove := False\<rparr>)" for d
    using xdp_client_args_parse [of 2 1000 0 "''eth0''" "''10.0.0.1''" "main_opts d"] by (simp add: all_timestamps_flag main_opts_def)
  have i: "name_index demo_main_env (Some ''eth0'') = 2" by (simp add: name_index_def demo_main_env_def)
  obtain ag where ag: "persistence_init (me_init demo_main_env) (Some pure_outfile) PERSISTENCE_M_ALL_TIMESTAMPS 1000 = Some (Some ag)"
    using all_timestamps_init [OF demo_client_env(1-3)] by blast
  obtain st0 ag0 ps0 where r: "receive_packets 2 0 (replicate PACKET_SIZE 0) ag ?rs = (st0, ag0, ps0)" by (rule prod_cases3)
  have "\<exists>k. pure_load demo_libbpf 2 False demo_host0 = (None, k)"
    by (simp add: pure_load_def read_xdp_file_def detach_xdp_def attach_xdp_def demo_libbpf_def demo_host0_def)
  then obtain d st ps cl k1 where m: "pure_client_run demo_main_env demo_pure_env ?ia demo_libbpf ?argv ?rs demo_host0 = (Run (Some (d, st, ps, cl)), k1)"
    using ag i by (auto simp: pure_client_run_def pure_main_client_program_def p pure_start_client_def demo_pure_env_def r Let_def
        simp del: receive_packets.simps)
  have seen: "payloads_seen (replicate PACKET_SIZE 0) ?rs = [new_pingpong_payload 1, new_pingpong_payload 3, new_pingpong_payload 4]"
    by (simp add: recv_at_full demo_pong)
  have "\<not> (2 :: u64) \<le> 1" by (simp add: word_le_nat_alt)
  then have t: "take_until (\<lambda>p. 2 \<le> pp_id p) (payloads_seen (replicate PACKET_SIZE 0) ?rs) = [new_pingpong_payload 1, new_pingpong_payload 3]"
    by (simp only: seen) simp
  have f: "\<exists>p\<in>set (payloads_seen (replicate PACKET_SIZE 0) ?rs). 2 \<le> pp_id p" by (simp only: seen) simp
  from pure_client_end_to_end [of 2 1000, OF _ _ _ _ demo_client_env(1-6) m] t f
  have e: "ps = [new_pingpong_payload 1, new_pingpong_payload 3]" "st = R_Finished"
    "\<exists>f'. cl = Some (0, Some f', True) \<and> parse_dat (f_out f') = map (map unat \<circ> dat_words) ps"
    by (auto simp del: payloads_seen.simps)
  from e(3) obtain f' where "cl = Some (0, Some f', True)" "parse_dat (f_out f') = map (map unat \<circ> dat_words) ps" by blast
  with e(1,2) m show ?thesis by (intro exI [of _ d] exI [of _ k1] exI [of _ f']) simp
qed

end
