(* ===== verification/Spec2Isabelle.thy ===== *)
theory Spec2Isabelle
  imports Bitset Hex_Dump Persistence Xdp_Race Pp_Poll Poll_Typing Pp_Pure Xsk_Record Xsk_Starvation Nobypass_Main Hwts Args Rdma_RC_Client Xdp_Client
begin

text \<open>
  Verification of det-bypass, a set of programs that measure the round-trip latency of small packets between two hosts with and without
  bypassing the kernel's network stack. In every variant a client sends numbered pings, the server answers each of them, both ends put
  time stamps into the payload, and the client hands each answer to a persistence agent that keeps the time stamps, the extreme
  latencies or histograms.

  \<^bold>\<open>The program and its parts.\<close>
    \<^item> \<^verbatim>\<open>common/\<close>: the payload and its time stamps (\<^verbatim>\<open>common.h\<close>), a bit set (\<^verbatim>\<open>bitset.h\<close>), clock and sleeping (\<^verbatim>\<open>utils.c\<close>), addresses, packets and the
      sender thread (\<^verbatim>\<open>net.c\<close>), the persistence agents (\<^verbatim>\<open>persistence.c\<close>, \<^verbatim>\<open>persistence.h\<close>).
    \<^item> \<^verbatim>\<open>no-bypass/\<close>: the baseline over UDP sockets (\<^verbatim>\<open>main.c\<close>, \<^verbatim>\<open>src/args.c\<close>), and an experiment that compares the kernel's and the card's time stamps
      of sending and receiving (\<^verbatim>\<open>hwts.cpp\<close>).
    \<^item> \<^verbatim>\<open>xdp/\<close>: three variants with an eBPF program in the driver. Polling: the eBPF program \<^verbatim>\<open>pingpong.c\<close> writes payloads to a ring in shared memory
      that \<^verbatim>\<open>pp_poll.c\<close> polls. Pure: the eBPF program \<^verbatim>\<open>pingpong_pure.c\<close> answers inside the driver, \<^verbatim>\<open>pp_pure.c\<close> only sends and records. Sockets:
      the filter \<^verbatim>\<open>pingpong_xsk.c\<close> redirects packets to an AF_XDP socket that \<^verbatim>\<open>pp_sock.c\<close> serves.
    \<^item> \<^verbatim>\<open>rdma/\<close>: InfiniBand verbs, unreliable datagrams (\<^verbatim>\<open>ud_pingpong.c\<close>) and a reliable connection (\<^verbatim>\<open>rc_pingpong.c\<close>), with \<^verbatim>\<open>src/ib_net.c\<close>,
      \<^verbatim>\<open>src/pingpong.c\<close> and \<^verbatim>\<open>src/args.c\<close>.

  \<^bold>\<open>The theories.\<close>
    \<^item> \<open>Prelude\<close>: machine words, byte buffers, the locale \<open>codec\<close> for values with a fixed byte image, decimal printing.
    \<^item> \<open>Bitset\<close>: the macros of \<^verbatim>\<open>bitset.h\<close>; they implement a finite set (locale \<open>bit_set\<close>).
    \<^item> \<open>Payload\<close>, \<open>Headers\<close>: the packed payload struct and the protocol headers at their offsets; round trips, and the latency computation,
      which is independent of the offset between the two clocks.
    \<^item> \<open>Utils\<close>: the record \<open>world\<close> (clock readings, results of \<^verbatim>\<open>sendto\<close>, packets sent) that stands for the operating system, and \<^verbatim>\<open>pp_sleep\<close>, which returns and
      not too early. \<open>Hex_Dump\<close>: the debugging output \<^verbatim>\<open>hex_dump\<close>, byte by byte as in the code and row by row as a reference.
    \<^item> \<open>Net\<close>: \<^verbatim>\<open>net.c\<close>; address exchange, base packet, and the sender thread with the locale \<open>packet_sender\<close> that each program's callback interprets.
    \<^item> \<open>Persistence\<close>: the agents with their files; what each agent holds after any sequence of writes, and what it prints.
    \<^item> \<open>Xdp_Ring\<close>, \<open>Xdp_Race\<close>: the shared ring, sequentially a bounded queue (locale \<open>bounded_queue\<close>), and concurrently, at the granularity of single
      struct fields written in any order, a FIFO without loss, duplication or torn payloads as long as the producer has not tested a slot
      that is being cleared; that takes a full ring, and then a payload can be torn, as an interleaving shows.
    \<^item> \<open>Pp_Poll\<close>: the client and server loops of the polling variant for every schedule of packets, signals and loop steps: which payloads the
      ring accepts, which of them the loop takes, and exactly what is recorded and answered. \<open>Poll_Typing\<close>: the
      well-formed states of both builds, and that every event preserves them.
    \<^item> \<open>Xdp_Pure\<close>, \<open>Pp_Pure\<close>: the eBPF programs of the pure variant with the Internet checksum, and the client's sending and recording.
    \<^item> \<open>Xsk\<close>: the AF_XDP variant; ownership of the packet frames under every interleaving of the program, its sender thread and the kernel
      (locale \<open>xsk_machine\<close>, interpreted by the server and the client build). \<open>Xsk_Record\<close>: what both builds make of the delivered packets (locale
      \<open>xsk_receiver\<close>, which extends \<open>xsk_machine\<close>), and a whole run of the client. \<open>Xsk_Starvation\<close>: a run in which the client has no
      frame left after one packet received and one sent.
    \<^item> \<open>Nobypass\<close>, \<open>Nobypass_Main\<close>: the UDP variant: its loops, and a whole run of the client from the command line to the output file.
    \<^item> \<open>Hwts\<close>: the time stamp experiment in both builds; the control messages of the error queue are pairs of an identifier and a time that may come in
      either order and in different messages. What the uninitialised buffer shows after \<^verbatim>\<open>EAGAIN\<close> is a parameter: the output is right when it shows
      no time stamp, and a report it shows is counted again.
    \<^item> \<open>Rdma_UD\<close>, \<open>Rdma_UD_Client\<close>: datagrams; resources and cleanup, the queue discipline of the server, the client's two threads. The
      loops end on a failing \<^verbatim>\<open>ibv_poll_cq\<close> and on the signal as well.
    \<^item> \<open>Rdma_RC\<close>, \<open>Rdma_Net\<close>: the reliable connection; its receive window (locale \<open>rc_machine\<close>, interpreted by both builds), what is wrong with its
      counting, its buffer and its time stamps; the set-up and agreement of the two ends.
    \<^item> \<open>Rdma_Main\<close>: \<^verbatim>\<open>main\<close> of both RDMA programs with an account of the resources acquired and released, the exits of the loops included; a whole run of the datagram client.
      \<open>Rdma_RC_Client\<close>: what the other client records, and a whole run of it.
    \<^item> \<open>Args\<close>: \<^verbatim>\<open>getopt_long\<close>, \<^verbatim>\<open>atoi\<close>, \<^verbatim>\<open>atoll\<close> and the six argument parsers.
    \<^item> \<open>Xdp_Load\<close>, \<open>Xdp_Main\<close>: loading, pinning, attaching and detaching of the eBPF programs over a parameter for libbpf, and the \<^verbatim>\<open>main\<close> functions of the
      three XDP variants up to the start of their loops; when a start succeeds, and that removing undoes it. \<open>Xdp_Client\<close>: whole runs of the
      polling and the pure client.
    \<^item> this theory: one exchange of the polling variant from end to end.

  \<^bold>\<open>State and effects.\<close> A C struct is a record, a buffer a list of bytes, an integer a word of its width or, where the code computes in \<^verbatim>\<open>int\<close> or
  \<^verbatim>\<open>int64_t\<close> without wrapping, an \<open>int\<close> with the range stated. A function that may fail returns its result code and the state; \<open>None\<close> stands for undefined
  behaviour, a failing assertion or a loop that does not end, and theorems that claim a result prove that it is not \<open>None\<close>. Programs that share
  state with the kernel, an adapter, another thread or a signal handler are step machines: functions of an event, or inductive relations;
  their theorems hold for every run. Every \<^verbatim>\<open>#if SERVER\<close> choice is modelled in both builds. Fields that only record what happened (payloads
  handled, packets handed over, frames given up) are marked as such in the records' descriptions.

  \<^bold>\<open>Parameters.\<close> What is not part of the repository is a parameter: the results of system calls and of memory allocation, the eBPF helpers
  \<^verbatim>\<open>bpf_map_lookup_elem\<close> (\<open>array_lookup_ok\<close>), \<^verbatim>\<open>bpf_csum_diff\<close> (\<open>csum_diff_ok\<close>), \<^verbatim>\<open>bpf_ktime_get_ns\<close> and \<^verbatim>\<open>bpf_redirect_map\<close>, libbpf (\<open>libbpf_ok\<close>), the verbs library (\<open>verbs\<close>, \<open>rc_verbs\<close>) and
  the ring functions of libxdp (\<open>xsk_lib_ok\<close>). Each named hypothesis has a concrete instance in a witness.

  \<^bold>\<open>Bounds.\<close> No fuel is used. The busy-wait of \<^verbatim>\<open>pp_sleep\<close>, the sender loop, the reservation loop of the AF_XDP program and the final loop of the time stamp experiment are
  partial functions; their theorems show that they return when the clock advances, the link is up, the library answers as documented and
  no report is lost.

  \<^bold>\<open>Not modelled.\<close> The analysis scripts and the deployment files, the texts of usage messages and logs, the debugging thread \<^verbatim>\<open>dump_map\<close> of
  \<^verbatim>\<open>pp_poll.c\<close> (compiled out), the poll mode of \<^verbatim>\<open>pp_sock.c\<close> (switched off by a constant), and what the
  kernel does when it loads an eBPF program or maps its memory. The spin lock of the eBPF program and the lock of the AF_XDP client enter as the
  atomicity of the steps they protect.
\<close>

section \<open>One exchange from end to end\<close>

text \<open>A packet whose header was built by \<open>build_base_packet\<close> and whose payload is valid is taken for a ping-pong packet.\<close>

lemma base_packet_pingpong:
  assumes "length pkt = PACKET_SIZE" and "mread pkt 12 2 = bytes_of_word 2 (htons ETH_P_PINGPONG)"
    and "valid_pingpong_payload (load_payload pkt packet_payload)"
  shows "pingpong_of pkt = Some (load_payload pkt packet_payload)"
  using assms by (simp add: pingpong_of_def get16_def off_h_proto_def packet_payload_eq payload_size_def PACKET_SIZE_def)

lemma base_packet_header:
  assumes "length omac = 6" and "length dmac = 6" and "length buf = PACKET_SIZE" and "b = snd (build_base_packet buf omac dmac sip dip)"
  shows "length b = PACKET_SIZE" and "mread b 12 2 = bytes_of_word 2 (htons ETH_P_PINGPONG)" and "mread b 0 6 = dmac" and "mread b 6 6 = omac"
proof -
  have len: "34 \<le> length buf" using assms(3) by (simp add: PACKET_SIZE_def)
  note f = base_packet_fields [OF assms(1,2) len assms(4)]
  show l: "length b = PACKET_SIZE" using f(1) assms(3) by simp
  show "mread b 0 6 = dmac" "mread b 6 6 = omac" using f(2,3) by (simp_all add: off_h_dest_def off_h_source_def)
  have "bytes_of_word 2 (get16 b 12) = mread b 12 2" unfolding get16_def using l by (intro bytes_of_mread) (simp_all add: PACKET_SIZE_def)
  then show "mread b 12 2 = bytes_of_word 2 (htons ETH_P_PINGPONG)" using f(4) by (simp add: off_h_proto_def)
qed

text \<open>C1: one exchange of the polling variant from end to end. The client builds its base packet and sends ping \<open>i\<close>; the eBPF program of the server takes
  the packet on the wire for a ping-pong packet; the server's loop body answers it with a packet that is addressed to the client and that the
  client's eBPF program accepts; and the client's loop body then writes the payload with identifier \<open>i\<close> and phase 2 whose four time stamps are the
  client's clock when the ping was sent, the server's next two readings, and the client's clock when the answer was taken; so its computed
  latency is half of the time between the client's two readings less the time between the server's two readings.\<close>

theorem poll_exchange_end_to_end:
  assumes "length cmac = 6" "length smac = 6" "length cjunk = PACKET_SIZE" "length sjunk = PACKET_SIZE"
    and "link_up cw" and "link_up (sv_world s)"
    and "sv_buf s = snd (build_base_packet sjunk smac cmac sip cip)"
    and "poll_send_packet (snd (build_base_packet cjunk cmac smac cip sip)) i cw = (r, pkt, cw')"
    and "\<not> cl_exit c" and "agent_total (cl_agent c)"
    and "t0 = reading cw (nread cw)" and "t1 = reading (sv_world s) (nread (sv_world s))"
    and "t2 = reading (sv_world s) (nread (sv_world s) + 1)" and "t3 = reading (cl_world c) (nread (cl_world c))"
  shows "\<exists>p reply q m. sent cw' = sent cw @ [pkt] \<and> pingpong_of pkt = Some p
    \<and> sent (sv_world (server_body iters p s)) = sent (sv_world s) @ [reply] \<and> pingpong_of reply = Some q
    \<and> mread reply off_h_dest 6 = cmac \<and> mread reply off_h_source 6 = smac
    \<and> cl_written (client_body q c) = cl_written c @ [m]
    \<and> m = \<lparr>pp_id = i, ts0 = t0, ts1 = t1, ts2 = t2, ts3 = t3, phase = 2, magic = PINGPONG_MAGIC\<rparr>
    \<and> compute_latency m = ((t3 - t0) - (t2 - t1)) div 2"
proof -
  define cb where "cb = snd (build_base_packet cjunk cmac smac cip sip)"
  note ch = base_packet_header [OF assms(1,2,3) cb_def] and sh = base_packet_header [OF assms(2,1,4,7)]
  have up: "\<not> send_ret cw (nsend cw) < 0" using assms(5) by (simp add: link_up_def not_less)
  obtain b where b: "poll_send_packet cb i cw = (send_ret cw (nsend cw), b,
      cw\<lparr>nread := nread cw + 1, nsend := nsend cw + 1, sent := (if send_ret cw (nsend cw) < 0 then sent cw else sent cw @ [b])\<rparr>)"
    "length b = PACKET_SIZE" "load_payload b packet_payload = (new_pingpong_payload i)\<lparr>ts0 := reading cw (nread cw)\<rparr>"
    "get16 b off_h_proto = get16 cb off_h_proto" using poll_send_packet_eq [OF ch(1), of i cw] by blast
  have pkt: "pkt = b" "sent cw' = sent cw @ [b]" using b(1) up assms(8) unfolding cb_def [symmetric] by auto
  let ?p = "(new_pingpong_payload i)\<lparr>ts0 := reading cw (nread cw)\<rparr>"
  have cproto: "get16 cb off_h_proto = htons ETH_P_PINGPONG" using ch(2) by (simp add: get16_def off_h_proto_def)
  have p: "pingpong_of b = Some ?p"
    using b(2-4) cproto by (simp add: pingpong_of_def packet_payload_eq payload_size_def PACKET_SIZE_def valid_pingpong_payload_def)
  obtain buf where s: "sent (sv_world (server_body iters ?p s)) = sent (sv_world s) @ [buf]"
    "answers (mread (sv_buf s) 0 packet_payload) t1 t2 buf ?p"
    using server_body_ping [of ?p s _ iters, OF _ sh(1) refl assms(6)] assms(12,13) by auto
  then have reply: "length buf = PACKET_SIZE" "mread buf 0 34 = mread (sv_buf s) 0 34"
    "load_payload buf packet_payload = ?p\<lparr>ts1 := t1, phase := 2, ts2 := t2\<rparr>" by (simp_all add: answers_def packet_payload_eq)
  have part: "mread buf k l = mread (sv_buf s) k l" if "k + l \<le> 34" for k l
    using arg_cong [OF reply(2), of "\<lambda>x. mread x k l"] that by (simp add: mread_mread)
  let ?q = "?p\<lparr>ts1 := t1, phase := 2, ts2 := t2\<rparr>" and ?m = "?p\<lparr>ts1 := t1, phase := 2, ts2 := t2, ts3 := t3\<rparr>"
  have q: "pingpong_of buf = Some ?q"
    using base_packet_pingpong [OF reply(1)] part [of 12 2] sh(2) reply(3) by (simp add: valid_pingpong_payload_def)
  obtain rc ag where "agent_write (cl_agent c) ?m = Some (rc, ag)"
    using agent_total_next [OF assms(10), of "[]" "cl_agent c" ?m] by auto
  then have m: "cl_written (client_body ?q c) = cl_written c @ [?m]"
    using assms(9,14) by (simp add: client_body_def get_time_ns_eq Let_def)
  have m_eq: "?m = \<lparr>pp_id = i, ts0 = t0, ts1 = t1, ts2 = t2, ts3 = t3, phase = 2, magic = PINGPONG_MAGIC\<rparr>"
    using assms(11) by (simp add: new_pingpong_payload_def)
  have lat: "compute_latency ?m = ((t3 - t0) - (t2 - t1)) div 2" using assms(11) by (simp add: compute_latency_def)
  have macs: "mread buf off_h_dest 6 = cmac" "mread buf off_h_source 6 = smac"
    using part [of 0 6] part [of 6 6] sh(3,4) by (simp_all add: off_h_dest_def off_h_source_def)
  show ?thesis
    by (intro exI [of _ ?p] exI [of _ buf] exI [of _ ?q] exI [of _ ?m] conjI) (use pkt p s(1) q macs m m_eq lat in simp_all)
qed

theorem poll_exchange_end_to_end_witness:
  "\<exists>p reply q m. pingpong_of (fst (snd (poll_send_packet (snd (build_base_packet (replicate 1024 0) (replicate 6 1) (replicate 6 2) 5 6)) 9 demo_world))) = Some p
    \<and> sent (sv_world (server_body 10 p (server_start (snd (build_base_packet (replicate 1024 0) (replicate 6 2) (replicate 6 1) 6 5)) demo_world))) = [reply]
    \<and> pingpong_of reply = Some q \<and> cl_written (client_body q (client_start (demo_agent 4 0) demo_world)) = [m] \<and> pp_id m = 9"
proof -
  let ?s = "server_start (snd (build_base_packet (replicate 1024 0) (replicate 6 2) (replicate 6 1) 6 5)) demo_world"
  let ?c = "client_start (demo_agent 4 0) demo_world"
  obtain r pkt cw where send: "poll_send_packet (snd (build_base_packet (replicate 1024 0) (replicate 6 1) (replicate 6 2) 5 6)) 9 demo_world = (r, pkt, cw)"
    by (metis prod_cases3)
  have up: "link_up (sv_world ?s)" and buf: "sv_buf ?s = snd (build_base_packet (replicate 1024 0) (replicate 6 2) (replicate 6 1) 6 5)"
    and c: "\<not> cl_exit ?c" "agent_total (cl_agent ?c)"
    using demo_clock(2) demo_agent_total by (simp_all add: server_start_def client_start_def)
  have none: "sent (sv_world ?s) = []" "cl_written ?c = []" by (simp_all add: server_start_def client_start_def demo_world_def)
  from poll_exchange_end_to_end [OF _ _ _ _ demo_clock(2) up buf send c refl refl refl refl, of 10] show ?thesis
    unfolding none by (auto simp: PACKET_SIZE_def send)
qed

end
